(* ===== verification/Prelude.thy ===== *)
theory Prelude
  imports Main "HOL-Library.Word"
begin

text \<open>
  Shared vocabulary of the development: machine integers of the C sources, byte buffers,
  byte order conversion, C strings.

  The programs are compiled for x86-64 Linux: \<open>char\<close> is 8 bits, \<open>short\<close> 16, \<open>int\<close> 32,
  \<open>long\<close> and \<open>size_t\<close> 64, all two's complement, least significant byte first in memory.
  A C object is a list of bytes; a pointer cast such as \<open>(struct iphdr *)(buf + 14)\<close> is an
  offset into that list.  Reading or writing past the end of an object is undefined in C;
  every accessor below then returns \<^term>\<open>None\<close>, never a made-up byte.
\<close>

unbundle bit_operations_syntax

named_theorems buf_simps \<open>rewriting of reads after writes on byte buffers\<close>
named_theorems byte_simps \<open>splitting machine integers into bytes and back\<close>
named_theorems len_simps \<open>lengths of encodings\<close>

type_synonym u8 = "8 word"
type_synonym u16 = "16 word"
type_synonym u32 = "32 word"
type_synonym u64 = "64 word"
type_synonym bytes = "8 word list"

lemma unat_u8 [simp]: "unat (x :: u8) < 256"
  by (rule order.strict_trans2 [OF unsigned_less]) simp

lemma unat_u16 [simp]: "unat (x :: u16) < 65536"
  by (rule order.strict_trans2 [OF unsigned_less]) simp

lemma unat_u32 [simp]: "unat (x :: u32) < 4294967296"
  by (rule order.strict_trans2 [OF unsigned_less]) simp

section \<open>Byte order\<close>

definition bswap16 :: "u16 \<Rightarrow> u16" where
  "bswap16 x = (push_bit 8 x) OR (drop_bit 8 x)"

text \<open>On a little-endian host \<open>htons\<close> and \<open>ntohs\<close> exchange the two bytes.\<close>

definition htons :: "u16 \<Rightarrow> u16" where "htons x = bswap16 x"
definition ntohs :: "u16 \<Rightarrow> u16" where "ntohs x = bswap16 x"

lemma bswap16_bswap16 [simp]: "bswap16 (bswap16 x) = x"
  unfolding bswap16_def by (rule bit_word_eqI) (auto simp: bit_simps)

lemma ntohs_htons [simp]: "ntohs (htons x) = x"
  by (simp add: htons_def ntohs_def)

lemma htons_ntohs [simp]: "htons (ntohs x) = x"
  by (simp add: htons_def ntohs_def)

section \<open>Integers in memory\<close>

definition le16 :: "u16 \<Rightarrow> bytes" where
  "le16 x = [ucast x, ucast (drop_bit 8 x)]"

definition le32 :: "u32 \<Rightarrow> bytes" where
  "le32 x = [ucast x, ucast (drop_bit 8 x), ucast (drop_bit 16 x), ucast (drop_bit 24 x)]"

definition rd16 :: "u8 \<Rightarrow> u8 \<Rightarrow> u16" where
  "rd16 a b = ucast a OR push_bit 8 (ucast b)"

definition rd32 :: "u8 \<Rightarrow> u8 \<Rightarrow> u8 \<Rightarrow> u8 \<Rightarrow> u32" where
  "rd32 a b c d = ucast a OR push_bit 8 (ucast b) OR push_bit 16 (ucast c) OR push_bit 24 (ucast d)"

text \<open>The number a list of bytes stores, least significant byte first.\<close>

fun le_nat :: "bytes \<Rightarrow> nat" where
  "le_nat [] = 0"
| "le_nat (b # bs) = unat b + 256 * le_nat bs"

lemma length_le16 [simp, len_simps]: "length (le16 x) = 2"
  by (simp add: le16_def)

lemma length_le32 [simp, len_simps]: "length (le32 x) = 4"
  by (simp add: le32_def)

lemma rd16_le16 [simp, byte_simps]: "rd16 (ucast x) (ucast (drop_bit 8 x)) = x"
  unfolding rd16_def by (rule bit_word_eqI) (auto simp: bit_simps)

lemma rd32_le32 [simp, byte_simps]:
  "rd32 (ucast x) (ucast (drop_bit 8 x)) (ucast (drop_bit 16 x)) (ucast (drop_bit 24 x)) = x"
proof (rule bit_word_eqI)
  fix n
  assume "n < LENGTH(32)"
  then have "n < 8 \<or> (8 \<le> n \<and> n < 16) \<or> (16 \<le> n \<and> n < 24) \<or> (24 \<le> n \<and> n < 32)" by auto
  then show "bit (rd32 (ucast x) (ucast (drop_bit 8 x)) (ucast (drop_bit 16 x)) (ucast (drop_bit 24 x))) n = bit x n"
    unfolding rd32_def by (elim disjE) (auto simp: bit_simps)
qed

lemma le16_rd16 [simp, byte_simps]: "le16 (rd16 a b) = [a, b]"
  unfolding le16_def rd16_def list.inject
  by (intro conjI; (rule bit_word_eqI)?) (auto simp: bit_simps dest: bit_imp_le_length)

lemma unat_rd16 [byte_simps]: "unat (rd16 a b) = unat a + 256 * unat b"
proof -
  have "ucast a AND push_bit 8 (ucast b) = (0 :: u16)"
    by (rule bit_word_eqI) (auto simp: bit_simps dest: bit_imp_le_length)
  then have "rd16 a b = ucast a + push_bit 8 (ucast b)"
    unfolding rd16_def by (simp add: disjunctive_add_eq_or)
  moreover have "unat a < 256" "unat b < 256"
    by (rule unat_u8)+
  ultimately show ?thesis
    by (simp add: push_bit_eq_mult unat_word_ariths unsigned_ucast_eq take_bit_eq_mod del: unat_u8)
qed

text \<open>\<open>htonl\<close> reverses the four bytes.\<close>

definition htonl :: "u32 \<Rightarrow> u32" where
  "htonl x = rd32 (ucast (drop_bit 24 x)) (ucast (drop_bit 16 x)) (ucast (drop_bit 8 x)) (ucast x)"

section \<open>Byte buffers\<close>

definition peek :: "nat \<Rightarrow> nat \<Rightarrow> bytes \<Rightarrow> bytes option" where
  "peek off n buf = (if off + n \<le> length buf then Some (take n (drop off buf)) else None)"

definition wr :: "nat \<Rightarrow> bytes \<Rightarrow> bytes \<Rightarrow> bytes" where
  "wr off bs buf =
     (if off + length bs \<le> length buf then take off buf @ bs @ drop (off + length bs) buf else buf)"

definition poke :: "nat \<Rightarrow> bytes \<Rightarrow> bytes \<Rightarrow> bytes option" where
  "poke off bs buf = (if off + length bs \<le> length buf then Some (wr off bs buf) else None)"

text \<open>A run of assignments to fields, in order.\<close>

fun poke_all :: "(nat \<times> bytes) list \<Rightarrow> bytes \<Rightarrow> bytes option" where
  "poke_all [] buf = Some buf"
| "poke_all ((off, bs) # ws) buf = Option.bind (poke off bs buf) (poke_all ws)"

definition get8 :: "nat \<Rightarrow> bytes \<Rightarrow> u8 option" where
  "get8 off buf = (if off < length buf then Some (buf ! off) else None)"

definition get16 :: "nat \<Rightarrow> bytes \<Rightarrow> u16 option" where
  "get16 off buf =
     (if off + 2 \<le> length buf then Some (rd16 (buf ! off) (buf ! (off + 1))) else None)"

definition get32 :: "nat \<Rightarrow> bytes \<Rightarrow> u32 option" where
  "get32 off buf =
     (if off + 4 \<le> length buf
      then Some (rd32 (buf ! off) (buf ! (off + 1)) (buf ! (off + 2)) (buf ! (off + 3)))
      else None)"

lemma length_wr [simp, buf_simps]: "length (wr off bs buf) = length buf"
  by (simp add: wr_def)

lemma poke_wr [buf_simps]: "off + length bs \<le> length buf \<Longrightarrow> poke off bs buf = Some (wr off bs buf)"
  by (simp add: poke_def)

lemma peek_wr_same [buf_simps]:
  "off + length bs \<le> length buf \<Longrightarrow> n = length bs \<Longrightarrow> peek off n (wr off bs buf) = Some bs"
  by (auto simp: wr_def peek_def)

lemma nth_wr:
  "off + length bs \<le> length buf \<Longrightarrow> i < length buf \<Longrightarrow>
   wr off bs buf ! i = (if off \<le> i \<and> i < off + length bs then bs ! (i - off) else buf ! i)"
  by (auto simp: wr_def nth_append min_def)

lemma peek_eqI:
  "length a = length b \<Longrightarrow> (\<And>i. off \<le> i \<Longrightarrow> i < off + n \<Longrightarrow> off + n \<le> length b \<Longrightarrow> a ! i = b ! i) \<Longrightarrow>
   peek off n a = peek off n b"
  by (auto simp: peek_def intro!: nth_equalityI)

lemma peek_wr_other [buf_simps]:
  assumes "o2 + n \<le> off \<or> off + length bs \<le> o2"
  shows "peek o2 n (wr off bs buf) = peek o2 n buf"
proof (cases "off + length bs \<le> length buf")
  case True
  then show ?thesis using assms by (intro peek_eqI) (auto simp: nth_wr)
qed (simp add: wr_def)

text \<open>A write inside the region read: the same write, relative to the region.\<close>

lemma peek_wr_inside:
  assumes "peek o2 n buf = Some r" and "o2 \<le> off" and "off + length bs \<le> o2 + n"
  shows "peek o2 n (wr off bs buf) = Some (wr (off - o2) bs r)"
proof -
  have len: "o2 + n \<le> length buf" and r: "r = take n (drop o2 buf)"
    using assms(1) by (auto simp: peek_def split: if_splits)
  have fit: "off + length bs \<le> length buf" using assms(3) len by linarith
  have "take n (drop o2 (wr off bs buf)) = wr (off - o2) bs r"
  proof (rule nth_equalityI)
    show "length (take n (drop o2 (wr off bs buf))) = length (wr (off - o2) bs r)"
      using assms(2,3) len fit by (simp add: length_wr r)
    fix i assume "i < length (take n (drop o2 (wr off bs buf)))"
    then have i: "i < n" "o2 + i < length buf" using len fit by (auto simp: length_wr)
    have fr: "off - o2 + length bs \<le> length r" using assms(2,3) len r by simp
    show "take n (drop o2 (wr off bs buf)) ! i = wr (off - o2) bs r ! i"
      using i fit fr assms(2) len by (auto simp: nth_wr length_wr r add.commute)
  qed
  then show ?thesis using len fit by (simp add: peek_def length_wr)
qed

lemma length_poke: "poke off bs buf = Some buf' \<Longrightarrow> length buf' = length buf"
  by (auto simp: poke_def length_wr split: if_splits)

lemma peek_Some: "off + n \<le> length buf \<Longrightarrow> \<exists>bs. peek off n buf = Some bs \<and> length bs = n"
  by (simp add: peek_def)

lemma peek_length: "peek off n buf = Some bs \<Longrightarrow> length bs = n"
  by (auto simp: peek_def split: if_splits)

lemma peek_take: "off + n \<le> m \<Longrightarrow> m \<le> length buf \<Longrightarrow> peek off n (take m buf) = peek off n buf"
  by (simp add: peek_def drop_take min_def)

lemma get8_peek: "get8 off buf = map_option hd (peek off 1 buf)"
  by (auto simp: get8_def peek_def take_Suc hd_drop_conv_nth)

lemma get8I [buf_simps]: "peek off 1 buf = Some [b] \<Longrightarrow> get8 off buf = Some b"
  by (simp add: get8_peek)

lemma get8_wr_other [buf_simps]:
  assumes "o2 < off \<or> off + length bs \<le> o2"
  shows "get8 o2 (wr off bs buf) = get8 o2 buf"
  using assms by (auto simp: get8_peek peek_wr_other)

lemma get8_wr_same [buf_simps]:
  "off < length buf \<Longrightarrow> get8 off (wr off [b] buf) = Some b"
  by (simp add: get8_peek peek_wr_same)

lemma get8_in: "off < length buf \<Longrightarrow> get8 off buf = Some (buf ! off)"
  by (simp add: get8_def)

lemma take_nth_2: "off + 2 \<le> length buf \<Longrightarrow> take 2 (drop off buf) = [buf ! off, buf ! (off + 1)]"
  by (simp add: list_eq_iff_nth_eq less_Suc_eq numeral_2_eq_2)

lemma take_nth_4: "off + 4 \<le> length buf \<Longrightarrow>
  take 4 (drop off buf) = [buf ! off, buf ! (off + 1), buf ! (off + 2), buf ! (off + 3)]"
  by (simp add: list_eq_iff_nth_eq less_Suc_eq eval_nat_numeral)

lemma get16_peek: "get16 off buf = map_option (\<lambda>b. rd16 (b ! 0) (b ! 1)) (peek off 2 buf)"
  by (simp add: peek_def get16_def take_nth_2)

lemma get16I: "peek off 2 buf = Some (le16 x) \<Longrightarrow> get16 off buf = Some x"
  by (auto simp: peek_def get16_def take_nth_2 le16_def split: if_splits)

lemma get32I: "peek off 4 buf = Some (le32 x) \<Longrightarrow> get32 off buf = Some x"
  by (auto simp: peek_def get32_def take_nth_4 le32_def split: if_splits)

section \<open>C strings\<close>

text \<open>
  The bytes of a string literal, without the terminating zero.  \<open>c_str\<close> reads a C string from
  the start of an object: the bytes before the first zero, \<^term>\<open>None\<close> when the object holds no
  zero (the C function would read on past its end).
\<close>

definition bytes_of :: "string \<Rightarrow> bytes" where
  "bytes_of s = map of_char s"

fun c_str :: "bytes \<Rightarrow> bytes option" where
  "c_str [] = None"
| "c_str (b # bs) = (if b = 0 then Some [] else map_option ((#) b) (c_str bs))"

text \<open>\<open>strcpy(dst, src)\<close>: copies the string and its zero, the rest of \<open>dst\<close> keeps its bytes.\<close>

definition strcpy :: "bytes \<Rightarrow> bytes \<Rightarrow> bytes option" where
  "strcpy dst s = poke 0 (s @ [0]) dst"

lemma length_bytes_of [simp, len_simps]: "length (bytes_of s) = length s"
  by (simp add: bytes_of_def)

lemma c_str_append: "0 \<notin> set s \<Longrightarrow> c_str (s @ 0 # rest) = Some s"
  by (induction s) auto

lemma c_str_no_zero: "c_str bs = Some s \<Longrightarrow> 0 \<notin> set s"
  by (induction bs arbitrary: s) (auto split: if_splits)

lemma c_str_prefix: "c_str bs = Some s \<Longrightarrow> \<exists>rest. bs = s @ 0 # rest"
  by (induction bs arbitrary: s) (auto split: if_splits)

lemma c_str_length: "c_str bs = Some s \<Longrightarrow> length s < length bs"
  by (auto dest: c_str_prefix)

lemma strcpy_defined: "length s < length dst \<Longrightarrow> \<exists>d. strcpy dst s = Some d"
  by (simp add: strcpy_def poke_def)

lemma strcpy_length: "strcpy dst s = Some d \<Longrightarrow> length d = length dst"
  by (auto simp: strcpy_def dest: length_poke)

lemma c_str_strcpy: "strcpy dst s = Some d \<Longrightarrow> 0 \<notin> set s \<Longrightarrow> c_str d = Some s"
  by (auto simp: strcpy_def poke_def wr_def c_str_append split: if_splits)

lemma c_str_peek:
  assumes "peek off (length s + 1) buf = Some (s @ [0])" and "0 \<notin> set s"
  shows "c_str (drop off buf) = Some s"
proof -
  have "take (length s + 1) (drop off buf) = s @ [0]"
    using assms(1) by (auto simp: peek_def split: if_splits)
  then obtain rest where "drop off buf = s @ 0 # rest"
    by (metis append_take_drop_id append.assoc append_Cons append_Nil)
  then show ?thesis using assms(2) by (simp add: c_str_append)
qed

section \<open>Results that may be undefined\<close>

lemma bind_SomeE:
  assumes "Option.bind x f = Some y"
  obtains a where "x = Some a" "f a = Some y"
  using assms by (cases x) auto

lemma map_option_SomeE:
  assumes "map_option f x = Some y"
  obtains a where "x = Some a" "y = f a"
  using assms by (cases x) auto

end
