(* ===== verification/Checksum.thy ===== *)
theory Checksum
  imports Prelude
begin

text \<open>
  The Internet checksum.  The repository computes it four ways: \<open>in_cksum\<close> (endlab/rpc.h, a
  signed 32-bit accumulator), \<open>csum\<close> of the raw-socket lab (an unsigned 32-bit accumulator),
  \<open>Calculate_Checksum\<close> (ARP/spoofing/spoofer.c, a 64-bit accumulator folded by a loop) and
  \<open>csum\<close> of rawsender.c (a word count and two folds).  \<open>inet_checksum\<close> is the abstract
  specification, the complement of the one's complement sum of RFC 1071; each routine is
  shown to compute it, within the lengths its accumulator can hold, and what the callers rely
  on is proved once, in the locale \<open>checksum\<close>.
\<close>

section \<open>The routines\<close>

text \<open>endlab/rpc.h: \<open>while (nleft > 1) { sum += *w++; nleft -= 2; }\<close>; the second component is
  what the loop leaves unread.\<close>

fun in_cksum_loop :: "u32 \<Rightarrow> bytes \<Rightarrow> u32 \<times> bytes" where
  "in_cksum_loop acc (a # b # w) = in_cksum_loop (acc + ucast (rd16 a b)) w"
| "in_cksum_loop acc w = (acc, w)"

text \<open>\<open>sum\<close> (here \<open>acc\<close>) is an \<open>int\<close>: the shifts are arithmetic.  The caller passes the bytes
  \<open>addr[0 .. len)\<close>.\<close>

definition in_cksum :: "bytes \<Rightarrow> u16" where
  "in_cksum addr =
     (let (acc, w) = in_cksum_loop 0 addr;
          acc = (case w of [b] \<Rightarrow> acc + ucast (rd16 b 0) | _ \<Rightarrow> acc);
          acc = signed_drop_bit 16 acc + (acc AND 0xffff);
          acc = acc + signed_drop_bit 16 acc
      in ucast (NOT acc))"

text \<open>15-3-22_RAW/ip_spoofing/s.c: the same loop over an \<open>unsigned int\<close>.\<close>

definition csum_ip_spoofing :: "bytes \<Rightarrow> u16" where
  "csum_ip_spoofing addr =
     (let (acc, w) = in_cksum_loop 0 addr;
          acc = (case w of [b] \<Rightarrow> acc + ucast (rd16 b 0) | _ \<Rightarrow> acc);
          acc = drop_bit 16 acc + (acc AND 0xffff);
          acc = acc + drop_bit 16 acc
      in ucast (NOT acc))"

text \<open>ARP/spoofing/spoofer.c: a 64-bit accumulator, folded until nothing is left above bit 16.\<close>

fun Calculate_Checksum_sum :: "u64 \<Rightarrow> bytes \<Rightarrow> u64" where
  "Calculate_Checksum_sum cksum (a # b # buffer) = Calculate_Checksum_sum (cksum + ucast (rd16 a b)) buffer"
| "Calculate_Checksum_sum cksum [a] = cksum + ucast a"
| "Calculate_Checksum_sum cksum [] = cksum"

lemma unat_drop_16: "unat (drop_bit 16 c) = unat c div 65536"
proof -
  have "unat (drop_bit 16 c) = drop_bit 16 (unat c)" by (rule unat_drop_bit_eq)
  also have "\<dots> = unat c div 65536" by (simp add: drop_bit_eq_div)
  finally show ?thesis .
qed

lemma unat_and_16:
  fixes c :: "'a :: len word"
  assumes "16 \<le> LENGTH('a)"
  shows "unat (c AND 0xffff) = unat c mod 65536"
proof -
  have "c AND 0xffff = take_bit 16 c"
    using take_bit_eq_mask [of 16 c] by (simp add: mask_eq_exp_minus_1)
  then have "unat (c AND 0xffff) = take_bit 16 (unat c)"
    by (simp only: unsigned_take_bit_eq)
  then show ?thesis by (simp add: take_bit_eq_mod)
qed

lemma fold_step_unat:
  "unat (drop_bit 16 c + (c AND 0xffff) :: u64) = unat c div 65536 + unat c mod 65536"
proof -
  have "unat c < 2 ^ 64" by (rule order.strict_trans2 [OF unsigned_less]) simp
  then have "unat c div 65536 + unat c mod 65536 < 2 ^ 64" by simp
  then show ?thesis by (simp add: unat_word_ariths unat_drop_16 unat_and_16)
qed

function Calculate_Checksum_fold :: "u64 \<Rightarrow> u64" where
  "Calculate_Checksum_fold cksum =
     (if drop_bit 16 cksum \<noteq> 0 then Calculate_Checksum_fold (drop_bit 16 cksum + (cksum AND 0xffff))
      else cksum)"
  by pat_completeness auto
termination
proof (relation "measure unat")
  fix c :: u64
  assume "drop_bit 16 c \<noteq> 0"
  then have "unat (drop_bit 16 c) \<noteq> 0" by (metis unat_eq_zero)
  then have "unat c div 65536 \<noteq> 0" by (simp only: unat_drop_16 not_False_eq_True)
  then have "unat c div 65536 + unat c mod 65536 < unat c"
    using div_mult_mod_eq [of "unat c" 65536] by linarith
  then show "(drop_bit 16 c + (c AND 0xffff), c) \<in> measure unat" by (simp add: fold_step_unat)
qed simp

declare Calculate_Checksum_fold.simps [simp del]

definition Calculate_Checksum :: "bytes \<Rightarrow> u16" where
  "Calculate_Checksum buffer = ucast (NOT (Calculate_Checksum_fold (Calculate_Checksum_sum 0 buffer)))"

text \<open>raw_sockets/rawsender.c: \<open>nwords\<close> words from \<open>buf\<close>; \<^term>\<open>None\<close> when it reads past the
  object.\<close>

fun csum_words :: "u64 \<Rightarrow> nat \<Rightarrow> bytes \<Rightarrow> u64 option" where
  "csum_words acc 0 buf = Some acc"
| "csum_words acc (Suc nwords) (a # b # buf) = csum_words (acc + ucast (rd16 a b)) nwords buf"
| "csum_words acc (Suc nwords) _ = None"

definition csum_rawsender :: "bytes \<Rightarrow> nat \<Rightarrow> u16 option" where
  "csum_rawsender buf nwords =
     (case csum_words 0 nwords buf of None \<Rightarrow> None
      | Some acc \<Rightarrow>
          (let acc = drop_bit 16 acc + (acc AND 0xffff);
               acc = acc + drop_bit 16 acc
           in Some (ucast (NOT acc))))"

section \<open>Specification\<close>

text \<open>The sum of the 16-bit words of a byte string, an odd last byte padded with zero.\<close>

fun word_sum :: "bytes \<Rightarrow> nat" where
  "word_sum (a # b # w) = unat a + 256 * unat b + word_sum w"
| "word_sum [a] = unat a"
| "word_sum [] = 0"

text \<open>One's complement reduction to 16 bits: the end-around carries keep the residue modulo
  65535, and only the empty sum gives 0.\<close>

definition oc16 :: "nat \<Rightarrow> nat" where
  "oc16 n = (if n = 0 then 0 else Suc ((n - 1) mod 65535))"

definition inet_checksum :: "bytes \<Rightarrow> u16" where
  "inet_checksum bs = of_nat (65535 - oc16 (word_sum bs))"

lemma oc16_le: "oc16 n \<le> 65535"
proof -
  have "(n - 1) mod 65535 < (65535 :: nat)" by (rule mod_less_divisor) simp
  then have "Suc ((n - 1) mod 65535) \<le> 65535" by (rule Suc_leI)
  then show ?thesis by (simp only: oc16_def split: if_split) simp
qed

lemma oc16_mod: "oc16 n mod 65535 = n mod 65535"
  by (simp add: oc16_def mod_Suc_eq)

lemma oc16_0_iff: "oc16 n = 0 \<longleftrightarrow> n = 0"
  by (simp add: oc16_def)

lemma mod_Suc_eq_mod_Suc: "Suc j mod m = Suc k mod m \<Longrightarrow> j mod m = k mod m"
  by (auto simp: mod_Suc split: if_splits)

lemma oc16_unique:
  assumes "m \<le> 65535" "m mod 65535 = n mod 65535" "m = 0 \<longleftrightarrow> n = 0"
  shows "m = oc16 n"
proof (cases "n = 0")
  case True
  with assms(3) show ?thesis by (simp add: oc16_def)
next
  case False
  then obtain k where k: "n = Suc k" by (cases n) auto
  from False assms(3) obtain j where j: "m = Suc j" by (cases m) auto
  have "j mod 65535 = k mod 65535"
    using assms(2) unfolding k j by (rule mod_Suc_eq_mod_Suc)
  moreover have "j < 65535" using assms(1) j by simp
  ultimately show ?thesis by (simp add: oc16_def k j)
qed

lemma word_sum_le: "word_sum bs \<le> 65535 * ((length bs + 1) div 2)"
proof (induction bs rule: word_sum.induct)
  case (1 a b w)
  have "unat a + 256 * unat b \<le> 65535"
    using unat_u8 [of a] unat_u8 [of b] by linarith
  then have "word_sum (a # b # w) \<le> 65535 + 65535 * ((length w + 1) div 2)"
    using "1.IH" by simp
  also have "\<dots> = 65535 * ((length (a # b # w) + 1) div 2)" by simp
  finally show ?case .
next
  case (2 a)
  have "unat a \<le> 65535" using unat_u8 [of a] by linarith
  then show ?case by simp
qed simp

lemma word_sum_append: "even (length xs) \<Longrightarrow> word_sum (xs @ ys) = word_sum xs + word_sum ys"
  by (induction xs rule: word_sum.induct) auto

section \<open>Each routine computes the specification\<close>

lemma fold16_carry:
  fixes t :: nat
  assumes "t \<le> 131070"
  shows "(t + t div 65536) mod 65536 = (if t < 65536 then t else t - 65535)"
proof (cases "t < 65536")
  case True
  then show ?thesis by simp
next
  case False
  then have "t div 65536 = 1" using assms by (intro div_nat_eqI) simp_all
  then have "(t + t div 65536) mod 65536 = (t + 1 - 65536) mod 65536"
    using False by (simp only: le_mod_geq [of 65536 "t + 1"])
  also have "\<dots> = t + 1 - 65536" using assms by (intro mod_less) linarith
  finally show ?thesis using False by simp
qed

lemma fold16_nat:
  assumes "s < 4294967296"
  shows "(let t = s div 65536 + s mod 65536 in (t + t div 65536) mod 65536) = oc16 s"
proof -
  define q where "q = s div 65536"
  define t where "t = q + s mod 65536"
  have s: "s = t + 65535 * q"
    using div_mult_mod_eq [of s 65536] unfolding t_def q_def by linarith
  have "q < 65536" using assms unfolding q_def by (intro less_mult_imp_div_less) linarith
  moreover have "s mod 65536 < 65536" by (rule mod_less_divisor) simp
  ultimately have t: "t \<le> 131070" unfolding t_def by linarith
  have t_mod: "t mod 65535 = s mod 65535" unfolding s by (rule mod_mult_self2 [symmetric])
  have t_0: "t = 0 \<longleftrightarrow> s = 0" using s unfolding t_def q_def by auto
  define r where "r = (t + t div 65536) mod 65536"
  have r: "r = (if t < 65536 then t else t - 65535)"
    unfolding r_def using t by (rule fold16_carry)
  have r_le: "r \<le> 65535" using t unfolding r by auto
  have r_mod: "r mod 65535 = t mod 65535"
    unfolding r by (simp add: le_mod_geq [of 65535 t] split: if_split)
  have r_0: "r = 0 \<longleftrightarrow> t = 0" unfolding r by auto
  have "r = oc16 s"
    by (rule oc16_unique) (use r_le r_mod r_0 t_mod t_0 in \<open>simp_all only:\<close>)
  then show ?thesis unfolding r_def t_def q_def Let_def .
qed

lemma not_ucast_spec:
  fixes x :: "'a :: len word"
  assumes "16 \<le> LENGTH('a)" and "unat x mod 65536 = n"
  shows "(ucast (NOT x) :: u16) = of_nat (65535 - n)"
proof -
  have "(ucast (NOT x) :: u16) = NOT (ucast x)"
    using assms(1) by (intro bit_word_eqI) (auto simp: bit_simps)
  also have "\<dots> = -1 - ucast x" by (simp add: not_eq_complement)
  also have "ucast x = (of_nat n :: u16)"
  proof (rule word_unat_eq_iff [THEN iffD2])
    have "unat (ucast x :: u16) = take_bit 16 (unat x)" by (simp add: unsigned_ucast_eq)
    also have "\<dots> = n" using assms(2) by (simp add: take_bit_eq_mod)
    finally show "unat (ucast x :: u16) = unat (of_nat n :: u16)"
      using assms(2) by (auto simp: unsigned_of_nat take_bit_eq_mod)
  qed
  also have "-1 - of_nat n = (of_nat (65535 - n) :: u16)"
  proof -
    have "n \<le> 65535" using assms(2) by auto
    then show ?thesis by simp
  qed
  finally show ?thesis .
qed

lemma fold_twice:
  fixes x :: "'a :: len word"
  assumes "32 \<le> LENGTH('a)" and "unat x < 4294967296"
  shows "(let t = drop_bit 16 x + (x AND 0xffff); t = t + drop_bit 16 t in ucast (NOT t)) =
         (of_nat (65535 - oc16 (unat x)) :: u16)"
proof -
  define t where "t = drop_bit 16 x + (x AND 0xffff)"
  have big: "(2 :: nat) ^ 32 \<le> 2 ^ LENGTH('a)" using assms(1) by (rule power_increasing) simp
  have l: "16 \<le> LENGTH('a)" using assms(1) by linarith
  have "unat x div 65536 < 65536" using assms(2) by (intro less_mult_imp_div_less) linarith
  moreover have "unat x mod 65536 < 65536" by (rule mod_less_divisor) simp
  ultimately have b: "unat x div 65536 + unat x mod 65536 \<le> 131070" by linarith
  have t: "unat t = unat x div 65536 + unat x mod 65536"
    unfolding t_def using b big by (simp add: unat_word_ariths unat_drop_16 unat_and_16 [OF l])
  have "unat t div 65536 \<le> 131070 div 65536" using b unfolding t by (rule div_le_mono)
  then have "unat t + unat t div 65536 < 2 ^ LENGTH('a)" using b t big by simp
  then have "unat (t + drop_bit 16 t) = unat t + unat t div 65536"
    by (simp add: unat_word_ariths unat_drop_16)
  then have "unat (t + drop_bit 16 t) mod 65536 = oc16 (unat x)"
    using fold16_nat [OF assms(2)] by (simp add: t Let_def)
  then have "(ucast (NOT (t + drop_bit 16 t)) :: u16) = of_nat (65535 - oc16 (unat x))"
    by (rule not_ucast_spec [OF l])
  then show ?thesis by (simp only: Let_def t_def)
qed

lemma ucast_rd16: "(ucast (rd16 a b) :: 'a :: len word) = of_nat (unat a + 256 * unat b)"
proof -
  have "(ucast (rd16 a b) :: 'a word) = of_nat (unat (rd16 a b))" by simp
  then show ?thesis by (simp only: unat_rd16)
qed

lemma in_cksum_loop_sum:
  "(case in_cksum_loop acc bs of (s, w) \<Rightarrow> (case w of [b] \<Rightarrow> s + ucast (rd16 b 0) | _ \<Rightarrow> s)) =
   acc + of_nat (word_sum bs)"
  by (induction acc bs rule: in_cksum_loop.induct) (auto simp: ucast_rd16 algebra_simps)

lemma Calculate_Checksum_sum_eq: "Calculate_Checksum_sum acc bs = acc + of_nat (word_sum bs)"
  by (induction acc bs rule: Calculate_Checksum_sum.induct) (auto simp: ucast_rd16 algebra_simps)

lemma signed_drop_16:
  fixes x :: u32
  assumes "unat x < 2147483648"
  shows "signed_drop_bit 16 x = drop_bit 16 x"
proof (rule bit_word_eqI)
  fix n assume n: "n < LENGTH(32)"
  have "unat x div 2 ^ 31 = 0" using assms by simp
  then have "\<not> bit (unat x) 31" by (simp only: bit_iff_odd) simp
  then have "\<not> bit x 31" by (simp add: bit_unsigned_iff)
  then show "bit (signed_drop_bit 16 x) n = bit (drop_bit 16 x) n"
    using n by (auto simp: bit_signed_drop_bit_iff bit_drop_bit_eq dest: bit_imp_le_length)
qed

lemma unat_of_nat_small: "n < 2 ^ LENGTH('a) \<Longrightarrow> unat (of_nat n :: 'a :: len word) = n"
  by (simp add: unsigned_of_nat take_bit_nat_eq_self)

lemma csum_ip_spoofing_spec:
  assumes "length bs \<le> 131073"
  shows "csum_ip_spoofing bs = inet_checksum bs"
proof -
  have "(length bs + 1) div 2 \<le> 65537" using assms by linarith
  then have "65535 * ((length bs + 1) div 2) \<le> 65535 * 65537" by (rule mult_le_mono2)
  then have w: "word_sum bs < 4294967296" using word_sum_le [of bs] by linarith
  then have u: "unat (of_nat (word_sum bs) :: u32) = word_sum bs" by (simp add: unat_of_nat_small)
  show ?thesis
    unfolding csum_ip_spoofing_def inet_checksum_def
    using fold_twice [of "of_nat (word_sum bs) :: u32"] w u in_cksum_loop_sum [of 0 bs]
    by (simp add: Let_def split: prod.splits)
qed

lemma in_cksum_signed:
  assumes "length bs \<le> 65536"
  shows "in_cksum bs = csum_ip_spoofing bs"
proof -
  define s where "s = (of_nat (word_sum bs) :: u32)"
  define t where "t = drop_bit 16 s + (s AND 0xffff)"
  have "(length bs + 1) div 2 \<le> 32768" using assms by linarith
  then have "65535 * ((length bs + 1) div 2) \<le> 65535 * 32768" by (rule mult_le_mono2)
  then have w: "word_sum bs < 2147483648" using word_sum_le [of bs] by linarith
  then have "unat s = word_sum bs" unfolding s_def by (simp add: unat_of_nat_small)
  with w have s: "unat s < 2147483648" by simp
  have "unat s div 65536 < 65536" using s by (intro less_mult_imp_div_less) linarith
  moreover have "unat s mod 65536 < 65536" by (rule mod_less_divisor) simp
  ultimately have "unat t < 2147483648"
    unfolding t_def by (simp add: unat_word_ariths unat_drop_16 unat_and_16)
  then show ?thesis
    using signed_drop_16 [OF s] signed_drop_16 [of t] in_cksum_loop_sum [of 0 bs]
    unfolding in_cksum_def csum_ip_spoofing_def
    by (simp add: Let_def s_def t_def split: prod.splits)
qed

lemma unat_fold: "unat (Calculate_Checksum_fold c) = oc16 (unat c)"
proof (induction c rule: Calculate_Checksum_fold.induct)
  case (1 c)
  define q where "q = unat c div 65536"
  have c: "unat c = 65536 * q + unat c mod 65536" unfolding q_def by simp
  show ?case
  proof (cases "drop_bit 16 c = 0")
    case True
    then have "unat (drop_bit 16 c) = 0" by (simp only: unsigned_0)
    then have "unat c div 65536 = 0" by (simp only: unat_drop_16)
    then have "unat c \<le> 65535" by (simp add: div_eq_0_iff)
    then have "unat c = oc16 (unat c)" by (rule oc16_unique) simp_all
    with True show ?thesis by (subst Calculate_Checksum_fold.simps) simp
  next
    case False
    have eq: "oc16 (q + unat c mod 65536) = oc16 (unat c)"
    proof (rule oc16_unique)
      show "oc16 (q + unat c mod 65536) \<le> 65535" by (rule oc16_le)
      have "unat c = (q + unat c mod 65536) + 65535 * q" using c by linarith
      then show "oc16 (q + unat c mod 65536) mod 65535 = unat c mod 65535"
        by (metis mod_mult_self2 oc16_mod)
      show "oc16 (q + unat c mod 65536) = 0 \<longleftrightarrow> unat c = 0"
        unfolding oc16_0_iff using c by linarith
    qed
    have "Calculate_Checksum_fold c = Calculate_Checksum_fold (drop_bit 16 c + (c AND 0xffff))"
      using False by (subst Calculate_Checksum_fold.simps) simp
    then show ?thesis
      using "1.IH" [OF False] eq by (simp only: fold_step_unat q_def)
  qed
qed

lemma Calculate_Checksum_eq:
  assumes "length bs < 2 ^ 48"
  shows "Calculate_Checksum bs = inet_checksum bs"
proof -
  have "(length bs + 1) div 2 \<le> 2 ^ 47" using assms by simp
  then have "65535 * ((length bs + 1) div 2) \<le> 65535 * 2 ^ 47" by (rule mult_le_mono2)
  then have "word_sum bs < 2 ^ LENGTH(64)" using word_sum_le [of bs] by simp
  then have "unat (of_nat (word_sum bs) :: u64) = word_sum bs" by (rule unat_of_nat_small)
  then have "unat (Calculate_Checksum_fold (Calculate_Checksum_sum 0 bs)) mod 65536 = oc16 (word_sum bs)"
    using oc16_le [of "word_sum bs"] by (simp add: unat_fold Calculate_Checksum_sum_eq)
  then show ?thesis
    unfolding Calculate_Checksum_def inet_checksum_def by (intro not_ucast_spec) simp_all
qed

lemma csum_words_eq:
  "2 * n \<le> length buf \<Longrightarrow> csum_words acc n buf = Some (acc + of_nat (word_sum (take (2 * n) buf)))"
  by (induction acc n buf rule: csum_words.induct) (auto simp: ucast_rd16 algebra_simps)

lemma csum_words_short: "length buf < 2 * n \<Longrightarrow> csum_words acc n buf = None"
  by (induction acc n buf rule: csum_words.induct) auto

text \<open>\<open>csum\<close> of rawsender.c sums \<open>nwords\<close> words: up to 65537 of them two folds are enough.\<close>

lemma csum_rawsender_spec:
  assumes "2 * nwords \<le> length buf" and "nwords \<le> 65537"
  shows "csum_rawsender buf nwords = Some (inet_checksum (take (2 * nwords) buf))"
proof -
  let ?w = "word_sum (take (2 * nwords) buf)"
  have "(length (take (2 * nwords) buf) + 1) div 2 \<le> 65537" using assms by simp
  then have "65535 * ((length (take (2 * nwords) buf) + 1) div 2) \<le> 65535 * 65537"
    by (rule mult_le_mono2)
  then have w: "?w < 4294967296" using word_sum_le [of "take (2 * nwords) buf"] by linarith
  then have u: "unat (of_nat ?w :: u64) = ?w" by (intro unat_of_nat_small) simp
  show ?thesis
    using fold_twice [of "of_nat ?w :: u64"] w u csum_words_eq [OF assms(1), of 0]
    unfolding csum_rawsender_def inet_checksum_def by (simp add: Let_def)
qed

section \<open>What the callers rely on\<close>

text \<open>
  A packet is built with its checksum field zero, the checksum of the whole is stored in the
  field, and the receiver sums the result.  The laws hold for any routine that computes the
  specification up to the length \<open>bound\<close>.
\<close>

definition store_checksum :: "nat \<Rightarrow> u16 \<Rightarrow> bytes \<Rightarrow> bytes option" where
  "store_checksum off c pkt = poke off (le16 c) pkt"

lemma word_sum_le16: "word_sum (le16 c @ w) = unat c + word_sum w"
proof -
  have "word_sum (le16 (rd16 (ucast c) (ucast (drop_bit 8 c))) @ w) =
        unat (rd16 (ucast c) (ucast (drop_bit 8 c))) + word_sum w"
    by (simp only: le16_rd16 unat_rd16) simp
  then show ?thesis by (simp only: rd16_le16)
qed

lemma word_sum_store:
  assumes "store_checksum off c pkt = Some pkt'" and "even off"
    and "peek off 2 pkt = Some (le16 old)"
  shows "word_sum pkt' + unat old = word_sum pkt + unat c"
proof -
  have len: "off + 2 \<le> length pkt" using assms(3) by (auto simp: peek_def split: if_splits)
  then have pkt': "pkt' = take off pkt @ le16 c @ drop (off + 2) pkt"
    using assms(1) by (auto simp: store_checksum_def poke_def wr_def)
  have "take 2 (drop off pkt) = le16 old" using assms(3) len by (simp add: peek_def)
  then have pkt: "pkt = take off pkt @ le16 old @ drop (off + 2) pkt"
    by (metis append_take_drop_id drop_drop add.commute)
  have ev: "even (length (take off pkt))" using assms(2) len by simp
  have "word_sum pkt = word_sum (take off pkt) + (unat old + word_sum (drop (off + 2) pkt))"
    using pkt word_sum_append [OF ev] word_sum_le16 by metis
  moreover have "word_sum pkt' = word_sum (take off pkt) + (unat c + word_sum (drop (off + 2) pkt))"
    unfolding pkt' by (simp only: word_sum_append [OF ev] word_sum_le16)
  ultimately show ?thesis by linarith
qed

lemma inet_checksum_0_iff:
  "inet_checksum bs = 0 \<longleftrightarrow> word_sum bs mod 65535 = 0 \<and> word_sum bs \<noteq> 0"
proof -
  let ?n = "oc16 (word_sum bs)"
  have u: "unat (inet_checksum bs) = 65535 - ?n"
    unfolding inet_checksum_def by (rule unat_of_nat_small) simp
  have "inet_checksum bs = 0 \<longleftrightarrow> unat (inet_checksum bs) = 0" by (metis unat_eq_zero)
  also have "\<dots> \<longleftrightarrow> ?n = 65535" using oc16_le [of "word_sum bs"] u by linarith
  also have "\<dots> \<longleftrightarrow> word_sum bs mod 65535 = 0 \<and> word_sum bs \<noteq> 0"
  proof
    assume "?n = 65535"
    then show "word_sum bs mod 65535 = 0 \<and> word_sum bs \<noteq> 0"
      using oc16_mod [of "word_sum bs"] oc16_0_iff [of "word_sum bs"] by (metis mod_self zero_neq_numeral)
  next
    assume a: "word_sum bs mod 65535 = 0 \<and> word_sum bs \<noteq> 0"
    show "?n = 65535" by (rule oc16_unique [symmetric]) (use a in simp_all)
  qed
  finally show ?thesis .
qed

lemma mod_65535_u16: "n < 65536 \<Longrightarrow> n mod 65535 = (if n = 65535 then 0 else n :: nat)"
  by auto

lemma unat_u16_eq: "unat (c :: u16) = unat d \<longleftrightarrow> c = d"
  by (rule word_unat_eq_iff [symmetric])

lemma mod_65535_cases: "unat c mod 65535 = 0 \<longleftrightarrow> c = 0 \<or> c = (0xffff :: u16)"
  using unat_u16_eq [of c 0] unat_u16_eq [of c "0xffff"]
  by (auto simp: mod_65535_u16 simp del: unsigned_eq_0_iff)

lemma store_length: "store_checksum off c pkt = Some pkt' \<Longrightarrow> length pkt' = length pkt"
  by (auto simp: store_checksum_def dest: length_poke)

locale checksum =
  fixes ck :: "bytes \<Rightarrow> u16" and bound :: nat
  assumes ck_spec: "length bs \<le> bound \<Longrightarrow> ck bs = inet_checksum bs"
begin

lemma ck_0_iff:
  "length bs \<le> bound \<Longrightarrow> ck bs = 0 \<longleftrightarrow> word_sum bs mod 65535 = 0 \<and> word_sum bs \<noteq> 0"
  by (simp add: ck_spec inet_checksum_0_iff)

lemma unat_ck: "length bs \<le> bound \<Longrightarrow> unat (ck bs) = 65535 - oc16 (word_sum bs)"
  unfolding inet_checksum_def ck_spec by (rule unat_of_nat_small) simp

text \<open>The receiver accepts a filled packet exactly when the field held zero (or its other
  one's complement spelling) when the sum was taken.\<close>

lemma stored_verifies_iff:
  assumes "length pkt \<le> bound" "even off" "peek off 2 pkt = Some (le16 old)"
    and "store_checksum off (ck pkt) pkt = Some pkt'" and "word_sum pkt \<noteq> unat old"
  shows "ck pkt' = 0 \<longleftrightarrow> old = 0 \<or> old = 0xffff"
proof -
  define s where "s = word_sum pkt"
  define s' where "s' = word_sum pkt'"
  have sum: "s' + unat old = s + (65535 - oc16 s)"
    using word_sum_store [OF assms(4,2,3)] unat_ck [OF assms(1)] by (simp add: s_def s'_def)
  have le: "unat old \<le> s"
    using word_sum_store [of off 0 pkt _ old] assms(2,3)
    by (fastforce simp: s_def store_checksum_def poke_def peek_def split: if_splits)
  have s: "s \<noteq> unat old" using assms(5) by (simp add: s_def)
  obtain k where k: "s = oc16 s + 65535 * k"
  proof -
    have "oc16 s \<le> s" by (simp add: oc16_def) (metis Suc_le_mono Suc_pred mod_less_eq_dividend)
    moreover have "(s - oc16 s) mod 65535 = 0"
      using oc16_mod [of s] \<open>oc16 s \<le> s\<close> by (metis mod_eq_dvd_iff_nat dvd_imp_mod_0)
    ultimately show ?thesis using that by (metis le_add_diff_inverse mod_0_imp_dvd dvdE)
  qed
  obtain d where d: "oc16 s + d = 65535" using le_Suc_ex [OF oc16_le [of s]] by metis
  then have "65535 - oc16 s = d" by linarith
  with sum k d have "s' + unat old = 65535 * k + 65535" by linarith
  then have "(s' + unat old) mod 65535 = 0" by simp
  then have m: "s' mod 65535 = 0 \<longleftrightarrow> unat old mod 65535 = 0"
    by (metis add.commute add_0 mod_add_left_eq mod_mod_trivial)
  have "s' \<noteq> 0" using sum le s by linarith
  then show ?thesis
    using ck_0_iff [of pkt'] store_length [OF assms(4)] assms(1) m mod_65535_cases [of old]
    by (simp add: s'_def)
qed

text \<open>A packet that verifies stops verifying when one of its words changes, except between the
  two spellings of zero.\<close>

lemma word_change_detected:
  assumes "length pkt \<le> bound" "even off" "peek off 2 pkt = Some (le16 old)"
    and "ck pkt = 0" and "store_checksum off new pkt = Some pkt'"
    and "new \<noteq> old" and "{old, new} \<noteq> {0, 0xffff}"
  shows "ck pkt' \<noteq> 0"
proof
  assume "ck pkt' = 0"
  then have a: "word_sum pkt' mod 65535 = 0"
    using ck_0_iff [of pkt'] store_length [OF assms(5)] assms(1) by simp
  have b: "word_sum pkt mod 65535 = 0" using ck_0_iff [OF assms(1)] assms(4) by simp
  have "(word_sum pkt' + unat old) mod 65535 = (word_sum pkt + unat new) mod 65535"
    using word_sum_store [OF assms(5,2,3)] by simp
  then have m: "unat old mod 65535 = unat new mod 65535"
    using a b by (metis add_0 mod_add_left_eq)
  have "unat old = unat new \<or> (unat old mod 65535 = 0 \<and> unat new mod 65535 = 0)"
    using m by (auto simp: mod_65535_u16 split: if_splits)
  then show False
    using assms(6,7) mod_65535_cases [of old] mod_65535_cases [of new]
    by (auto simp: word_unat_eq_iff insert_commute)
qed

end

interpretation rpc: checksum in_cksum 65536
  by unfold_locales (simp add: in_cksum_signed csum_ip_spoofing_spec)

interpretation raw: checksum csum_ip_spoofing 131073
  by unfold_locales (rule csum_ip_spoofing_spec)

interpretation spoofer: checksum Calculate_Checksum "2 ^ 48 - 1"
  by unfold_locales (rule Calculate_Checksum_eq, simp)

section \<open>Properties\<close>

text \<open>
  C8. The signed 32-bit accumulator of endlab's \<open>in_cksum\<close> does not overflow on anything a
  16-bit packet length can describe, and the routine returns the Internet checksum, whatever
  the parity of the length.
\<close>

theorem in_cksum_spec:
  assumes "length bs \<le> 65536"
  shows "in_cksum bs = inet_checksum bs"
  by (rule rpc.ck_spec [OF assms])

theorem in_cksum_spec_witness:
  "length [0x45, 0, 0x54 :: u8] \<le> 65536 \<and> in_cksum [0x45, 0, 0x54] = inet_checksum [0x45, 0, 0x54]"
  using in_cksum_spec [of "[0x45, 0, 0x54]"] by simp

text \<open>
  C9. The loop that folds the 64-bit accumulator of \<open>Calculate_Checksum\<close> ends, and the routine
  returns the Internet checksum of any buffer shorter than \<open>2^48\<close> bytes.
\<close>

theorem Calculate_Checksum_spec:
  assumes "length bs < 2 ^ 48"
  shows "Calculate_Checksum bs = inet_checksum bs"
  by (rule spoofer.ck_spec) (use assms in simp)

theorem Calculate_Checksum_spec_witness:
  "length [1, 2, 3 :: u8] < 2 ^ 48 \<and> Calculate_Checksum [1, 2, 3] = inet_checksum [1, 2, 3]"
  using Calculate_Checksum_spec [of "[1, 2, 3]"] by simp

end
