(* ===== verification/CText.thy ===== *)
theory CText
  imports Prelude
begin

text \<open>
  Text and numbers: \<open>sprintf("%d")\<close>, \<open>atoi\<close>, \<open>inet_ntoa\<close>.  The programs pass process ids,
  scores, prices and verdicts between processes as decimal text; \<open>text_codec\<close> is the
  contract they rely on, interpreted on the C library's pair and, in the drivers, on their own
  \<open>atoi\<close>.
\<close>

section \<open>Decimal digits\<close>

definition digit :: "nat \<Rightarrow> u8" where
  "digit d = of_nat (48 + d)"

definition is_digit :: "u8 \<Rightarrow> bool" where
  "is_digit b \<longleftrightarrow> 48 \<le> unat b \<and> unat b \<le> 57"

definition digit_value :: "u8 \<Rightarrow> nat" where
  "digit_value b = unat b - 48"

fun dec :: "nat \<Rightarrow> bytes" where
  "dec n = (if n < 10 then [digit n] else dec (n div 10) @ [digit (n mod 10)])"

declare dec.simps [simp del]

lemma unat_digit: "d < 10 \<Longrightarrow> unat (digit d) = 48 + d"
proof -
  assume "d < 10"
  then have "48 + d < 2 ^ LENGTH(8)" by simp
  then show ?thesis unfolding digit_def by (simp add: unsigned_of_nat take_bit_nat_eq_self del: of_nat_add)
qed

lemma digit_simps [simp]:
  "d < 10 \<Longrightarrow> is_digit (digit d)" "d < 10 \<Longrightarrow> digit_value (digit d) = d"
  by (simp_all add: is_digit_def digit_value_def unat_digit)

lemma dec_digits: "\<forall>b \<in> set (dec n). is_digit b"
  by (induction n rule: dec.induct) (subst dec.simps, auto)

lemma dec_nonempty [simp]: "dec n \<noteq> []"
  by (subst dec.simps) simp

lemma not_digit [simp]: "\<not> is_digit 0" "\<not> is_digit 10" "\<not> is_digit 32" "\<not> is_digit 43" "\<not> is_digit 45"
  by (simp_all add: is_digit_def)

lemma dec_no_zero [simp]: "0 \<notin> set (dec n)"
  using dec_digits [of n] not_digit(1) by blast

text \<open>The value of a run of digits, read from the left.\<close>

fun value_from :: "nat \<Rightarrow> bytes \<Rightarrow> nat" where
  "value_from acc [] = acc"
| "value_from acc (b # bs) = (if is_digit b then value_from (10 * acc + digit_value b) bs else acc)"

lemma value_from_append:
  "\<forall>b \<in> set bs. is_digit b \<Longrightarrow> value_from acc (bs @ cs) = value_from (value_from acc bs) cs"
  by (induction bs arbitrary: acc) auto

lemma value_from_dec: "value_from 0 (dec n) = n"
proof (induction n rule: dec.induct)
  case (1 n)
  show ?case
  proof (cases "n < 10")
    case True
    then show ?thesis by (subst dec.simps) simp
  next
    case False
    then have "value_from 0 (dec n) = value_from (value_from 0 (dec (n div 10))) [digit (n mod 10)]"
      by (subst dec.simps) (simp only: value_from_append [OF dec_digits] if_False)
    with 1 False show ?thesis by simp
  qed
qed

definition ends_number :: "bytes \<Rightarrow> bool" where
  "ends_number bs \<longleftrightarrow> (case bs of [] \<Rightarrow> True | b # _ \<Rightarrow> \<not> is_digit b)"

lemma value_from_stop: "ends_number bs \<Longrightarrow> value_from acc bs = acc"
  by (cases bs) (auto simp: ends_number_def)

lemma value_dec_append: "ends_number bs \<Longrightarrow> value_from 0 (dec n @ bs) = n"
  by (simp add: value_from_append [OF dec_digits] value_from_dec value_from_stop)

section \<open>sprintf("%d") and atoi\<close>

definition sprintf_d :: "int \<Rightarrow> bytes" where
  "sprintf_d i = (if i < 0 then 45 # dec (nat (- i)) else dec (nat i))"

definition is_space :: "u8 \<Rightarrow> bool" where
  "is_space b \<longleftrightarrow> b = 32 \<or> (9 \<le> unat b \<and> unat b \<le> 13)"

text \<open>\<open>atoi\<close> of the C library: \<open>(int) strtol(s, NULL, 10)\<close>; \<open>strtol\<close> stops at the limits of
  \<open>long\<close>.\<close>

definition strtol10 :: "bytes \<Rightarrow> int" where
  "strtol10 s =
     (let s = dropWhile is_space s;
          v = (case s of [] \<Rightarrow> 0
               | b # bs \<Rightarrow> if b = 45 then - int (value_from 0 bs)
                           else if b = 43 then int (value_from 0 bs) else int (value_from 0 s))
      in max (- (2 ^ 63)) (min (2 ^ 63 - 1) v))"

definition to_int :: "int \<Rightarrow> int" where
  "to_int v = sint (word_of_int v :: u32)"

definition atoi :: "bytes \<Rightarrow> int" where
  "atoi s = to_int (strtol10 s)"

definition is_int :: "int \<Rightarrow> bool" where
  "is_int i \<longleftrightarrow> - (2 ^ 31) \<le> i \<and> i < 2 ^ 31"

lemma to_int_id: "is_int i \<Longrightarrow> to_int i = i"
  by (auto simp: is_int_def to_int_def signed_of_int intro!: signed_take_bit_int_eq_self)

lemma digit_not_space: "is_digit b \<Longrightarrow> \<not> is_space b" "is_digit b \<Longrightarrow> b \<noteq> 45" "is_digit b \<Longrightarrow> b \<noteq> 43"
  by (auto simp: is_digit_def is_space_def)

lemma dec_Cons: "\<exists>b bs. dec n = b # bs \<and> is_digit b"
  using dec_digits [of n] by (cases "dec n") auto

lemma strtol10_sprintf_d:
  assumes "is_int i" "ends_number rest"
  shows "strtol10 (sprintf_d i @ rest) = i"
proof -
  have c: "max (- (2 ^ 63)) (min (2 ^ 63 - 1) i) = i" using assms(1) by (auto simp: is_int_def)
  show ?thesis
  proof (cases "i < 0")
    case True
    then have s: "sprintf_d i @ rest = 45 # (dec (nat (- i)) @ rest)" by (simp add: sprintf_d_def)
    have "\<not> is_space 45" by (simp add: is_space_def)
    moreover have "- int (value_from 0 (dec (nat (- i)) @ rest)) = i"
      using True by (simp add: value_dec_append [OF assms(2)])
    ultimately show ?thesis unfolding strtol10_def s using c by (simp add: Let_def)
  next
    case False
    then have s: "sprintf_d i @ rest = dec (nat i) @ rest" by (simp add: sprintf_d_def)
    obtain b bs where d: "dec (nat i) = b # bs" "is_digit b" using dec_Cons by blast
    have "int (value_from 0 (dec (nat i) @ rest)) = i"
      using False by (simp add: value_dec_append [OF assms(2)])
    then show ?thesis unfolding strtol10_def s using c digit_not_space [OF d(2)]
      by (simp add: Let_def d(1))
  qed
qed

lemma atoi_sprintf_d: "is_int i \<Longrightarrow> ends_number rest \<Longrightarrow> atoi (sprintf_d i @ rest) = i"
  by (simp add: atoi_def strtol10_sprintf_d to_int_id)

lemma sprintf_d_no_zero [simp]: "0 \<notin> set (sprintf_d i)"
  by (simp add: sprintf_d_def)

section \<open>The contract\<close>

text \<open>
  A value written as text into a buffer and read back, whatever follows the terminating zero.
  \<open>fits\<close> are the values the pair is good for.
\<close>

locale text_codec =
  fixes print :: "'a \<Rightarrow> bytes" and parse :: "bytes \<Rightarrow> 'a" and fits :: "'a \<Rightarrow> bool"
  assumes parse_print: "fits i \<Longrightarrow> parse (print i @ 0 # rest) = i"
    and print_no_zero: "fits i \<Longrightarrow> 0 \<notin> set (print i)"
begin

text \<open>The receiver's buffer: the text arrives over the zeros or garbage the buffer held.\<close>

lemma parse_buffer:
  assumes "fits i" "strcpy buf (print i) = Some buf'"
  shows "parse buf' = i"
proof -
  obtain rest where "buf' = print i @ 0 # rest"
    using assms(2) by (auto simp: strcpy_def poke_def wr_def split: if_splits)
  with assms(1) show ?thesis by (simp add: parse_print)
qed

lemma print_inj: "fits i \<Longrightarrow> fits j \<Longrightarrow> print i = print j \<Longrightarrow> i = j"
  by (metis parse_print)

lemma c_str_print: "fits i \<Longrightarrow> c_str (print i @ 0 # rest) = Some (print i)"
  by (simp add: c_str_append print_no_zero)

end

interpretation libc: text_codec sprintf_d atoi is_int
  by unfold_locales (simp_all add: atoi_sprintf_d ends_number_def)

section \<open>inet_ntoa\<close>

text \<open>An address in network byte order in memory: its four bytes.\<close>

definition inet_ntoa :: "bytes \<Rightarrow> bytes" where
  "inet_ntoa a = (case map (\<lambda>b. dec (unat b)) a of
     [p, q, r, s] \<Rightarrow> p @ 46 # q @ 46 # r @ 46 # s | _ \<Rightarrow> [])"

end
