(* ===== verification/Interaction.thy ===== *)
theory Interaction
  imports Prelude
begin

text \<open>
  C functions that call the operating system.  A \<open>prog\<close> is the tree of what a C function does:
  it returns a value, it ends the process with \<open>exit\<close>, or it performs a call and goes on
  according to the response.  Calls and responses are types of the component that uses them.
  Nothing is assumed about the responses: a theorem about all executions of a \<open>prog\<close> holds for
  every behaviour of the kernel and of the other processes, failures included.

  \<open>execs p tr out\<close> says that \<open>p\<close> can perform exactly the calls of the trace \<open>tr\<close>, each with the
  response recorded there, and end with the outcome \<open>out\<close>.  A loop that never ends
  (\<open>while (1)\<close> of a server) is not one \<open>prog\<close>: its body is, and a component says how the
  iterations follow one another.
\<close>

datatype 'a outcome = Done 'a | Exited int | Undefined

datatype ('c, 'r, 'a) prog =
    Ret 'a
  | Exit int
  | Ub
  | Call 'c "'r \<Rightarrow> ('c, 'r, 'a) prog"

primrec bind :: "('c, 'r, 'a) prog \<Rightarrow> ('a \<Rightarrow> ('c, 'r, 'b) prog) \<Rightarrow> ('c, 'r, 'b) prog" where
  "bind (Ret a) f = f a"
| "bind (Exit n) f = Exit n"
| "bind Ub f = Ub"
| "bind (Call c k) f = Call c (\<lambda>r. bind (k r) f)"

lemma bind_Ret [simp]: "bind p Ret = p"
  by (induction p) auto

lemma bind_assoc: "bind (bind p f) g = bind p (\<lambda>x. bind (f x) g)"
  by (induction p) auto

text \<open>The value of an expression that may be undefined.\<close>

definition need :: "'x option \<Rightarrow> ('x \<Rightarrow> ('c, 'r, 'a) prog) \<Rightarrow> ('c, 'r, 'a) prog" where
  "need x f = (case x of None \<Rightarrow> Ub | Some v \<Rightarrow> f v)"

lemma need_simps [simp]: "need None f = Ub" "need (Some v) f = f v"
  by (simp_all add: need_def)

text \<open>One call whose response is the result.\<close>

definition do_call :: "'c \<Rightarrow> ('c, 'r, 'r) prog" where
  "do_call c = Call c Ret"

lemma bind_do_call [simp]: "bind (do_call c) f = Call c f"
  by (simp add: do_call_def)

section \<open>Executions\<close>

inductive execs :: "('c, 'r, 'a) prog \<Rightarrow> ('c \<times> 'r) list \<Rightarrow> 'a outcome \<Rightarrow> bool" where
  ret: "execs (Ret a) [] (Done a)"
| exit: "execs (Exit n) [] (Exited n)"
| ub: "execs Ub [] Undefined"
| call: "execs (k r) tr out \<Longrightarrow> execs (Call c k) ((c, r) # tr) out"

inductive_simps execs_Ret [simp]: "execs (Ret a) tr out"
inductive_simps execs_Exit [simp]: "execs (Exit n) tr out"
inductive_simps execs_Ub [simp]: "execs Ub tr out"
inductive_simps execs_Call: "execs (Call c k) tr out"
inductive_cases execs_bindE: "execs (Call c k) tr out"

text \<open>An executable reading: run a \<open>prog\<close> against a list of responses, \<^term>\<open>None\<close> when
  the list ends while a call waits.\<close>

primrec run :: "('c, 'r, 'a) prog \<Rightarrow> 'r list \<Rightarrow> (('c \<times> 'r) list \<times> 'a outcome) option" where
  "run (Ret a) = (\<lambda>rs. Some ([], Done a))"
| "run (Exit n) = (\<lambda>rs. Some ([], Exited n))"
| "run Ub = (\<lambda>rs. Some ([], Undefined))"
| "run (Call c k) = (\<lambda>rs. case rs of [] \<Rightarrow> None
     | r # rs' \<Rightarrow> map_option (\<lambda>(tr, out). ((c, r) # tr, out)) (run (k r) rs'))"

lemma run_execs: "run p rs = Some (tr, out) \<Longrightarrow> execs p tr out"
proof (induction p arbitrary: rs tr)
  case (Call c k)
  then obtain r rs' tr' where "tr = (c, r) # tr'" "run (k r) rs' = Some (tr', out)"
    by (auto split: list.splits)
  then show ?case using Call.IH [OF rangeI] by (auto intro: execs.call)
qed auto

lemma execs_run: "execs p tr out \<Longrightarrow> run p (map snd tr @ rs) = Some (tr, out)"
  by (induction rule: execs.induct) auto

text \<open>A C function modelled by a \<open>prog\<close> returns whatever the responses are, provided each
  call returns.\<close>

lemma execs_total: "\<exists>tr out. execs p tr out \<and> (\<forall>(c, r) \<in> set tr. r = f c)"
proof (induction p)
  case (Call c k)
  obtain tr out where "execs (k (f c)) tr out" "\<forall>(c, r) \<in> set tr. r = f c"
    using Call.IH [OF rangeI] by blast
  then show ?case by (intro exI [of _ "(c, f c) # tr"] exI [of _ out]) (auto intro: execs.call)
qed auto

text \<open>The responses determine the execution.\<close>

lemma execs_prefix: "execs p t out \<Longrightarrow> execs p t' out' \<Longrightarrow> t @ x = t' @ y \<Longrightarrow> t = t' \<and> out = out'"
proof (induction arbitrary: t' rule: execs.induct)
  case (call k r tr out c)
  from call.prems(1) obtain r' tr' where t: "t' = (c, r') # tr'" "execs (k r') tr' out'" by (auto simp: execs_Call)
  with call.prems(2) have "r' = r" "tr @ x = tr' @ y" by simp_all
  with call.IH [of tr'] t show ?case by simp
qed simp_all

lemma execs_bind:
  "execs (bind p f) tr out \<longleftrightarrow>
   (\<exists>n. execs p tr (Exited n) \<and> out = Exited n) \<or>
   (execs p tr Undefined \<and> out = Undefined) \<or>
   (\<exists>a tr1 tr2. tr = tr1 @ tr2 \<and> execs p tr1 (Done a) \<and> execs (f a) tr2 out)"
proof (induction p arbitrary: tr)
  case (Call c k)
  have IH: "execs (bind (k r) f) t out \<longleftrightarrow>
      (\<exists>n. execs (k r) t (Exited n) \<and> out = Exited n) \<or>
      (execs (k r) t Undefined \<and> out = Undefined) \<or>
      (\<exists>a tr1 tr2. t = tr1 @ tr2 \<and> execs (k r) tr1 (Done a) \<and> execs (f a) tr2 out)" for r t
    using Call.IH by blast
  show ?case
    by (auto simp: execs_Call IH) (metis append_Cons)+
qed auto

lemma execs_bindI: "execs p tr1 (Done a) \<Longrightarrow> execs (f a) tr2 out \<Longrightarrow> execs (bind p f) (tr1 @ tr2) out"
  by (auto simp: execs_bind)

section \<open>Weakest preconditions over all executions\<close>

text \<open>
  \<open>wp E p Q tr\<close>: after the calls of \<open>tr\<close>, every execution of \<open>p\<close> whose responses satisfy \<open>E\<close>
  ends in a trace and outcome that satisfy \<open>Q\<close>.  For a concrete C function the simplifier
  computes it, one branch per error path.
\<close>

primrec wp :: "('c \<Rightarrow> 'r \<Rightarrow> bool) \<Rightarrow> ('c, 'r, 'a) prog \<Rightarrow>
    (('c \<times> 'r) list \<Rightarrow> 'a outcome \<Rightarrow> bool) \<Rightarrow> ('c \<times> 'r) list \<Rightarrow> bool" where
  "wp E (Ret a) Q = (\<lambda>tr. Q tr (Done a))"
| "wp E (Exit n) Q = (\<lambda>tr. Q tr (Exited n))"
| "wp E Ub Q = (\<lambda>tr. Q tr Undefined)"
| "wp E (Call c k) Q = (\<lambda>tr. \<forall>r. E c r \<longrightarrow> wp E (k r) Q (tr @ [(c, r)]))"

lemma wp_execs:
  "wp E p Q tr \<longleftrightarrow>
   (\<forall>tr' out. execs p tr' out \<and> (\<forall>(c, r) \<in> set tr'. E c r) \<longrightarrow> Q (tr @ tr') out)"
proof (induction p arbitrary: tr)
  case (Call c k)
  have IH: "wp E (k r) Q t \<longleftrightarrow>
      (\<forall>tr' out. execs (k r) tr' out \<and> (\<forall>(c, r) \<in> set tr'. E c r) \<longrightarrow> Q (t @ tr') out)" for r t
    using Call.IH by blast
  show ?case by (auto simp: execs_Call IH)
qed auto

lemma wp_execsI: "wp E p Q [] \<Longrightarrow> execs p tr out \<Longrightarrow> \<forall>(c, r) \<in> set tr. E c r \<Longrightarrow> Q tr out"
  by (simp add: wp_execs)

lemma wp_bind:
  "wp E (bind p f) Q = wp E p (\<lambda>tr out. case out of Done a \<Rightarrow> wp E (f a) Q tr | Exited n \<Rightarrow> Q tr (Exited n)
     | Undefined \<Rightarrow> Q tr Undefined)"
  by (induction p) (auto simp: fun_eq_iff)

lemma wp_mono:
  "wp E p Q tr \<Longrightarrow> (\<And>t out. Q t out \<Longrightarrow> Q' t out) \<Longrightarrow> wp E p Q' tr"
  by (induction p arbitrary: tr) auto

section \<open>Unfinished executions and monitors\<close>

text \<open>
  \<open>performs p tr\<close>: \<open>tr\<close> are the calls of an execution of \<open>p\<close> so far, also one that goes on or
  waits.  A monitor folds a state over the calls; \<open>always E f P p Q s\<close> says that \<open>P\<close> holds of
  the monitor's state all along every execution whose responses satisfy \<open>E\<close>, and \<open>Q\<close> of the
  result and the state at the end.
\<close>

inductive performs :: "('c, 'r, 'a) prog \<Rightarrow> ('c \<times> 'r) list \<Rightarrow> bool" where
  start: "performs p []"
| call: "performs (k r) tr \<Longrightarrow> performs (Call c k) ((c, r) # tr)"

inductive_simps performs_Call: "performs (Call c k) (e # tr)"
inductive_simps performs_Ret [simp]: "performs (Ret a) tr"
inductive_simps performs_Exit [simp]: "performs (Exit n) tr"
inductive_simps performs_Ub [simp]: "performs Ub tr"

lemma execs_performs: "execs p tr out \<Longrightarrow> performs p tr"
  by (induction rule: execs.induct) (auto intro: performs.intros)

primrec always :: "('c \<Rightarrow> 'r \<Rightarrow> bool) \<Rightarrow> ('c \<times> 'r \<Rightarrow> 's \<Rightarrow> 's) \<Rightarrow> ('s \<Rightarrow> bool) \<Rightarrow>
    ('c, 'r, 'a) prog \<Rightarrow> ('a \<Rightarrow> 's \<Rightarrow> bool) \<Rightarrow> 's \<Rightarrow> bool" where
  "always E f P (Ret a) Q = (\<lambda>s. P s \<and> Q a s)"
| "always E f P (Exit n) Q = P"
| "always E f P Ub Q = P"
| "always E f P (Call c k) Q = (\<lambda>s. P s \<and> (\<forall>r. E c r \<longrightarrow> always E f P (k r) Q (f (c, r) s)))"

lemma always_holds:
  "always E f P p Q s \<Longrightarrow> performs p tr \<Longrightarrow> \<forall>(c, r) \<in> set tr. E c r \<Longrightarrow> P (fold f tr s)"
proof (induction p arbitrary: tr s)
  case (Call c k)
  from Call.prems(2) show ?case
  proof cases
    case start
    then show ?thesis using Call.prems(1) by simp
  next
    case (call r tr')
    then show ?thesis using Call.IH [OF rangeI] Call.prems(1,3) by fastforce
  qed
qed (auto)

lemma always_result:
  "always E f P p Q s \<Longrightarrow> execs p tr (Done a) \<Longrightarrow> \<forall>(c, r) \<in> set tr. E c r \<Longrightarrow> Q a (fold f tr s)"
proof (induction p arbitrary: tr s)
  case (Call c k)
  from Call.prems(2) obtain r tr' where "tr = (c, r) # tr'" "execs (k r) tr' (Done a)" by (auto simp: execs_Call)
  then show ?case using Call.IH [OF rangeI] Call.prems(1,3) by fastforce
qed auto

lemma always_bind: "always E f P (bind p g) Q = always E f P p (\<lambda>a. always E f P (g a) Q)"
proof -
  have "always E f P (g a) Q s \<Longrightarrow> P s" for a s by (cases "g a") auto
  then show ?thesis by (induction p) (auto simp: fun_eq_iff)
qed

lemma always_mono: "always E f P p Q s \<Longrightarrow> (\<And>a s. Q a s \<Longrightarrow> Q' a s) \<Longrightarrow> always E f P p Q' s"
  by (induction p arbitrary: s) auto

text \<open>\<open>only C p\<close>: \<open>p\<close> performs no other calls than those of \<open>C\<close>.\<close>

primrec only :: "('c \<Rightarrow> bool) \<Rightarrow> ('c, 'r, 'a) prog \<Rightarrow> bool" where
  "only C (Ret a) = True"
| "only C (Exit n) = True"
| "only C Ub = True"
| "only C (Call c k) = (C c \<and> (\<forall>r. only C (k r)))"

lemma only_execs: "execs p tr out \<Longrightarrow> only C p \<Longrightarrow> \<forall>e \<in> set tr. C (fst e)"
  by (induction rule: execs.induct) auto

lemma only_performs: "performs p tr \<Longrightarrow> only C p \<Longrightarrow> \<forall>e \<in> set tr. C (fst e)"
  by (induction rule: performs.induct) auto

lemma only_bind: "only C p \<Longrightarrow> (\<And>a. only C (f a)) \<Longrightarrow> only C (bind p f)"
  by (induction p) auto

lemma only_need: "(\<And>v. x = Some v \<Longrightarrow> only C (f v)) \<Longrightarrow> only C (need x f)"
  by (cases x) auto

lemma execs_need_Done: "execs (need x f) tr (Done a) \<longleftrightarrow> (\<exists>v. x = Some v \<and> execs (f v) tr (Done a))"
  by (cases x) auto

end
