(* ===== verification/Unix.thy ===== *)
theory Unix
  imports Interaction CText
begin

text \<open>
  The system calls of the socket, signal and packet programs, as calls of a \<open>prog\<close>.  A call
  carries what the program passes, a response what the kernel answers: the return value and the
  bytes, descriptors or ready flags it stores for the caller.  Nothing restricts the responses;
  a lemma that needs a documented fact about the kernel (a new descriptor is not 0 when the
  standard streams are open) says so.

  The theory also holds the bookkeeping of descriptors over a trace, which the resource lemmas
  of the components use.
\<close>

section \<open>Calls\<close>

text \<open>Socket addresses as the programs fill them in; ports and addresses in network order.\<close>

datatype sockaddr =
    AddrIn u16 bytes
  | AddrUn bytes
  | AddrLink u16 int u16 nat nat bytes

datatype arg = D int | S bytes

datatype (plugins only: code size) call =
    Socket int int int
  | Setsockopt int
  | Bind int sockaddr
  | Listen int int
  | Accept int
  | Connect int sockaddr
  | CloseFd int
  | Unlink bytes
  | Send int bytes
  | Recv int nat
  | Sendto int bytes sockaddr
  | Recvfrom int nat
  | SendRights int bytes int
  | RecvRights int nat
  | Poll "int list"
  | ReadFd int nat
  | WriteFd int bytes
  | OpenFile string
  | Ioctl int int bytes
  | Getpeername int
  | Popen bytes
  | Kill int int
  | Signal int
  | Pause
  | Sleep nat
  | Getpid
  | Ftok string
  | Msgget
  | QSend int bytes
  | QRecv int nat int
  | Thread string
  | Print string "arg list"
  | ScanInt
  | Fgets int nat
  | Pclose int
  | System bytes
  | TimeOfDay
  | Load string
  | Store string int
  | Fork
  | Execv bytes "bytes list"
  | Dup2 int int
  | Select "int list"
  | Pipe
  | Mkfifo string
  | Lseek int int int
  | SigBlock int
  | SigTimedWait int nat
  | Rand
  | ScanStr
  | Shmget
  | Shmat
  | Shmdt int
  | ShmRemove int
  | StoreStr string bytes
  | SemOpen string
  | SemPost string
  | SemWait string
  | SemClose string
  | SemUnlink string
  | Semget bool
  | SemSetval int int
  | Semop int int
  | SemRemove
  | PcapFindalldevs
  | PcapLookupnet bytes
  | PcapImmediate
  | PcapOpen bytes
  | PcapCompile bytes
  | PcapSetfilter
  | PcapLoop
  | Inject bytes
  | Sendpacket bytes
  | PcapClose

text \<open>\<open>Load\<close> and \<open>Store\<close> are the accesses to a global variable that a signal handler, another thread
  or another process also uses, \<open>StoreStr\<close> writes a string to one; \<open>Semget True\<close> is the exclusive creation, \<open>Thread\<close> starts the named function, \<open>Signal\<close> installs a handler.\<close>

text \<open>\<open>res\<close> is the return value, \<open>data\<close> what was stored in the caller's buffer, \<open>flags\<close> the
  \<open>revents\<close> of \<open>poll\<close>, \<open>rights\<close> the descriptors of the ancillary data or of a pipe, \<open>num\<close> the
  number \<open>scanf\<close> stored, the value of a variable read, or \<open>errno\<close>.\<close>

record resp =
  res :: int
  data :: bytes
  flags :: "int list"
  rights :: "int list"
  num :: int

type_synonym 'a sys = "(call, resp, 'a) prog"
type_synonym trace = "(call \<times> resp) list"

definition answered :: resp where
  "answered = \<lparr>res = 0, data = [], flags = [], rights = [], num = 0\<rparr>"

text \<open>Constants of the headers.\<close>

abbreviation (input) AF_UNIX :: int where "AF_UNIX \<equiv> 1"
abbreviation (input) AF_INET :: int where "AF_INET \<equiv> 2"
abbreviation (input) AF_PACKET :: int where "AF_PACKET \<equiv> 17"
abbreviation (input) SOCK_STREAM :: int where "SOCK_STREAM \<equiv> 1"
abbreviation (input) SOCK_DGRAM :: int where "SOCK_DGRAM \<equiv> 2"
abbreviation (input) SOCK_RAW :: int where "SOCK_RAW \<equiv> 3"
abbreviation (input) SIGUSR1 :: int where "SIGUSR1 \<equiv> 10"
abbreviation (input) SIGUSR2 :: int where "SIGUSR2 \<equiv> 12"

abbreviation (input) localhost :: bytes where "localhost \<equiv> [127, 0, 0, 1]"

text \<open>\<open>perror(msg); exit(EXIT_FAILURE)\<close>; what \<open>perror\<close> writes is left out.\<close>

definition handle_error :: "'a sys" where
  "handle_error = Exit 1"

lemma handle_error_simps [simp]: "execs handle_error tr out \<longleftrightarrow> tr = [] \<and> out = Exited 1"
  "bind handle_error f = handle_error"
  by (simp_all add: handle_error_def)

lemma wp_handle_error [simp]: "wp E handle_error Q tr = Q tr (Exited 1)"
  by (simp add: handle_error_def)

section \<open>Descriptors over a trace\<close>

text \<open>
  \<open>fd_event\<close> follows the descriptors a piece of code has opened: a call that returns a new one
  adds it, \<open>close\<close> removes it, and closing one that is not held is \<^term>\<open>None\<close>, a descriptor
  closed twice or somebody else's.
\<close>

fun opens :: "call \<Rightarrow> bool" where
  "opens (Socket d t p) = True"
| "opens (Accept fd) = True"
| "opens (OpenFile path) = True"
| "opens (Popen cmd) = True"
| "opens _ = False"

fun fd_event :: "call \<times> resp \<Rightarrow> int set \<Rightarrow> int set option" where
  "fd_event (CloseFd fd, r) held = (if fd \<in> held then Some (held - {fd}) else None)"
| "fd_event (Pclose fd, r) held = (if fd \<in> held then Some (held - {fd}) else None)"
| "fd_event (RecvRights fd n, r) held = Some (held \<union> (if 0 \<le> res r then set (rights r) else {}))"
| "fd_event (Pipe, r) held = Some (held \<union> (if 0 \<le> res r then set (rights r) else {}))"
| "fd_event (c, r) held = Some (if opens c \<and> 0 \<le> res r then insert (res r) held else held)"

fun fds_from :: "int set \<Rightarrow> trace \<Rightarrow> int set option" where
  "fds_from held [] = Some held"
| "fds_from held (e # tr) = (case fd_event e held of None \<Rightarrow> None | Some held' \<Rightarrow> fds_from held' tr)"

text \<open>A new descriptor is one that is not open: not 0, the standard streams being open, and not
  one of those held.\<close>

definition fresh_fd :: "int set \<Rightarrow> call \<Rightarrow> resp \<Rightarrow> bool" where
  "fresh_fd held c r \<longleftrightarrow> (opens c \<longrightarrow> res r \<noteq> 0 \<and> res r \<notin> held)"

fun fresh_fds :: "int set \<Rightarrow> trace \<Rightarrow> bool" where
  "fresh_fds held [] = True"
| "fresh_fds held ((c, r) # tr) \<longleftrightarrow> fresh_fd held c r \<and>
     (\<forall>held'. fd_event (c, r) held = Some held' \<longrightarrow> fresh_fds held' tr)"

lemma fds_from_append:
  "fds_from held (tr1 @ tr2) = (case fds_from held tr1 of None \<Rightarrow> None | Some held' \<Rightarrow> fds_from held' tr2)"
  by (induction tr1 arbitrary: held) (auto split: option.splits)

lemma fresh_fds_append:
  "fresh_fds held (tr1 @ tr2) \<longleftrightarrow> fresh_fds held tr1 \<and> (\<forall>h. fds_from held tr1 = Some h \<longrightarrow> fresh_fds h tr2)"
  by (induction tr1 arbitrary: held) (auto split: option.splits)

text \<open>
  \<open>fdwp E p Q held\<close>: started with the descriptors \<open>held\<close>, no execution of \<open>p\<close> whose responses
  satisfy \<open>E\<close> closes a descriptor it does not hold, and at the end the outcome and the
  descriptors then held satisfy \<open>Q\<close>.
\<close>

primrec fdwp :: "(call \<Rightarrow> resp \<Rightarrow> bool) \<Rightarrow> 'a sys \<Rightarrow> ('a outcome \<Rightarrow> int set \<Rightarrow> bool) \<Rightarrow> int set \<Rightarrow> bool" where
  "fdwp E (Ret a) Q = (\<lambda>held. Q (Done a) held)"
| "fdwp E (Exit n) Q = (\<lambda>held. Q (Exited n) held)"
| "fdwp E Ub Q = (\<lambda>held. Q Undefined held)"
| "fdwp E (Call c k) Q = (\<lambda>held. \<forall>r. fresh_fd held c r \<and> E c r \<longrightarrow>
     (\<exists>held'. fd_event (c, r) held = Some held' \<and> fdwp E (k r) Q held'))"

definition any :: "call \<Rightarrow> resp \<Rightarrow> bool" where
  "any c r = True"

lemma any [simp]: "any c r"
  by (simp add: any_def)

lemma fdwp_sound:
  "fdwp E p Q held \<Longrightarrow> execs p tr out \<Longrightarrow> fresh_fds held tr \<Longrightarrow> \<forall>(c, r) \<in> set tr. E c r \<Longrightarrow>
   \<exists>held'. fds_from held tr = Some held' \<and> Q out held'"
proof (induction p arbitrary: held tr)
  case (Call c k)
  then obtain r tr' where tr: "tr = (c, r) # tr'" "execs (k r) tr' out" by (auto simp: execs_Call)
  with Call.prems obtain h where "fd_event (c, r) held = Some h" "fdwp E (k r) Q h" "fresh_fds h tr'" by auto
  with tr Call.IH [OF rangeI] Call.prems(4) show ?case by fastforce
qed auto

lemma fdwp_bind:
  "fdwp E (bind p f) Q = fdwp E p (\<lambda>out. case out of Done a \<Rightarrow> fdwp E (f a) Q | Exited n \<Rightarrow> Q (Exited n)
     | Undefined \<Rightarrow> Q Undefined)"
  by (induction p) (auto simp: fun_eq_iff)

lemma fdwp_mono: "fdwp E p Q held \<Longrightarrow> (\<And>out h. Q out h \<Longrightarrow> Q' out h) \<Longrightarrow> fdwp E p Q' held"
proof (induction p arbitrary: held)
  case (Call c k)
  then show ?case using Call.IH [OF rangeI] by fastforce
qed auto

lemma fdwp_handle_error [simp]: "fdwp E handle_error Q held = Q (Exited 1) held"
  by (simp add: handle_error_def)

text \<open>The calls that neither open nor close.\<close>

definition plain :: "call \<Rightarrow> bool" where
  "plain c \<longleftrightarrow> \<not> opens c \<and> (\<forall>fd. c \<noteq> CloseFd fd \<and> c \<noteq> Pclose fd) \<and> c \<noteq> Pipe \<and> (\<forall>fd n. c \<noteq> RecvRights fd n)"

lemma fd_event_plain: "plain c \<Longrightarrow> fd_event (c, r) held = Some held"
  by (cases c) (auto simp: plain_def)

lemma fdwp_plain: "plain c \<Longrightarrow> fdwp E (Call c k) Q held \<longleftrightarrow> (\<forall>r. E c r \<longrightarrow> fdwp E (k r) Q held)"
  by (simp add: fd_event_plain fresh_fd_def) (simp add: plain_def)

lemma plain_simps [simp]:
  "plain (Setsockopt fd)" "plain (Bind fd a)" "plain (Listen fd n)" "plain (Connect fd a)" "plain (Unlink p)"
  "plain (Send fd b)" "plain (Recv fd m)" "plain (Sendto fd b a)" "plain (Recvfrom fd m)" "plain (SendRights fd b x)"
  "plain (Poll ps)" "plain (ReadFd fd m)" "plain (WriteFd fd b)" "plain (Ioctl fd i b)" "plain (Getpeername fd)"
  "plain (Kill i j)" "plain (Signal i)" "plain Pause" "plain (Sleep m)" "plain Getpid" "plain (Ftok f)" "plain Msgget"
  "plain (QSend i b)" "plain (QRecv i m j)" "plain (Thread f)" "plain (Print f l)" "plain ScanInt"
  "plain (Fgets fd m)" "plain (System b)" "plain TimeOfDay" "plain (PcapOpen b)" "plain (PcapCompile b)"
  "plain (Load f)" "plain (Store f i)" "plain Fork" "plain (Execv b bs)" "plain (Dup2 i j)" "plain (Select ps)" "plain Shmget"
  "plain (Mkfifo f)" "plain (Lseek i j k)" "plain (SigBlock i)" "plain (SigTimedWait i m)" "plain Rand" "plain ScanStr"
  "plain PcapFindalldevs" "plain (PcapLookupnet b)" "plain PcapImmediate"
  "plain Shmat" "plain (Shmdt i)" "plain (ShmRemove i)" "plain (StoreStr f b)" "plain (SemOpen f)" "plain (SemPost f)"
  "plain (SemWait f)" "plain (SemClose f)" "plain (SemUnlink f)" "plain (Semget excl)" "plain (SemSetval i j)" "plain (Semop i j)" "plain SemRemove"
  "plain PcapSetfilter" "plain PcapLoop" "plain (Inject b)" "plain (Sendpacket b)" "plain PcapClose"
  by (simp_all add: plain_def)

lemma fdwp_open:
  "opens c \<Longrightarrow> fdwp E (Call c k) Q held \<longleftrightarrow>
   (\<forall>r. res r \<noteq> 0 \<and> res r \<notin> held \<and> E c r \<longrightarrow> fdwp E (k r) Q (if 0 \<le> res r then insert (res r) held else held))"
  by (cases c) (auto simp add: fresh_fd_def)

lemma fdwp_close:
  "fdwp any (Call (CloseFd fd) k) Q held \<longleftrightarrow> fd \<in> held \<and> (\<forall>r. fdwp any (k r) Q (held - {fd}))"
  by (auto simp: fresh_fd_def)

text \<open>Closing is never refused by the assumptions on responses that are used.\<close>

lemma fdwp_close_ret:
  "fd \<in> held \<Longrightarrow> Q (Done v) (held - {fd}) \<Longrightarrow> fdwp E (Call (CloseFd fd) (\<lambda>_. Ret v)) Q held"
  by (auto simp: fresh_fd_def)

lemmas fdwp_calls = fdwp_plain fdwp_open fdwp_close

declare fdwp.simps(4) [simp del]
declare fdwp_calls [simp]

section \<open>Functions that open a descriptor\<close>

text \<open>
  The contract of a helper that hands out a descriptor: it always returns, it closes nothing
  that is not its own, and it leaves open exactly the descriptor it returns, none when it
  reports failure.  \<open>fd_of\<close> reads the descriptor off the helper's result.
\<close>

locale opener =
  fixes E :: "call \<Rightarrow> resp \<Rightarrow> bool" and op :: "'a sys" and fd_of :: "'a \<Rightarrow> int option"
  assumes op_balanced: "0 \<notin> held \<Longrightarrow> fdwp E op (\<lambda>out held'. \<exists>a. out = Done a \<and>
    (case fd_of a of None \<Rightarrow> held' = held | Some fd \<Rightarrow> 0 < fd \<and> fd \<notin> held \<and> held' = insert fd held)) held"
begin

lemma use:
  assumes "0 \<notin> held"
    and "\<And>a fd. fd_of a = Some fd \<Longrightarrow> 0 < fd \<Longrightarrow> fd \<notin> held \<Longrightarrow> fdwp E (f a) Q (insert fd held)"
    and "\<And>a. fd_of a = None \<Longrightarrow> fdwp E (f a) Q held"
  shows "fdwp E (bind op f) Q held"
  unfolding fdwp_bind
proof (rule fdwp_mono [OF op_balanced [OF assms(1)]])
  fix out h
  assume "\<exists>a. out = Done a \<and> (case fd_of a of None \<Rightarrow> h = held
    | Some fd \<Rightarrow> 0 < fd \<and> fd \<notin> held \<and> h = insert fd held)"
  then obtain a where "out = Done a" "case fd_of a of None \<Rightarrow> h = held
    | Some fd \<Rightarrow> 0 < fd \<and> fd \<notin> held \<and> h = insert fd held" by blast
  then show "(case out of Done a \<Rightarrow> fdwp E (f a) Q | Exited n \<Rightarrow> Q (Exited n) | Undefined \<Rightarrow> Q Undefined) h"
    using assms(2,3) by (cases "fd_of a") auto
qed

lemma returns: "execs op tr out \<Longrightarrow> fresh_fds {} tr \<Longrightarrow> \<forall>(c, r) \<in> set tr. E c r \<Longrightarrow>
  \<exists>a. out = Done a \<and> fds_from {} tr = Some (case fd_of a of None \<Rightarrow> {} | Some fd \<Rightarrow> {fd})"
  using fdwp_sound [OF op_balanced [of "{}"]] by (fastforce split: option.splits)

end

text \<open>A helper that opens nothing for its caller.\<close>

locale temporary = opener E op "\<lambda>_. None" for E and op :: "'a sys"
begin

lemma use_temporary: "0 \<notin> held \<Longrightarrow> (\<And>a. fdwp E (f a) Q held) \<Longrightarrow> fdwp E (bind op f) Q held"
  by (rule use) simp_all

end

end
