(* ===== verification/ArpFrame.thy ===== *)
theory ArpFrame
  imports Prelude
begin

text \<open>
  An ARP packet over Ethernet as its receiver reads it: the abstract view of the frames the ARP
  programs build byte by byte.
\<close>

text \<open>What a receiver sees in a frame of ARP over Ethernet.\<close>

definition is_arp :: "bytes \<Rightarrow> u16 \<Rightarrow> bytes \<Rightarrow> bytes \<Rightarrow> bytes \<Rightarrow> bytes \<Rightarrow> bool" where
  "is_arp frame opcode src_mac sender_ip target_mac target_ip \<longleftrightarrow>
     get16 12 frame = Some (htons 0x0806) \<and> get16 20 frame = Some (htons opcode) \<and>
     peek 22 6 frame = Some src_mac \<and> peek 28 4 frame = Some sender_ip \<and>
     peek 32 6 frame = Some target_mac \<and> peek 38 4 frame = Some target_ip"

lemma is_arp_over:
  assumes "is_arp frame opcode src_mac sender_ip target_mac target_ip" "length frame \<le> length buffer"
  shows "is_arp (wr 0 frame buffer) opcode src_mac sender_ip target_mac target_ip"
proof -
  have "peek off n (wr 0 frame buffer) = peek off n frame" if "off + n \<le> length frame" for off n
    using that assms(2) by (simp add: peek_def wr_def)
  moreover have "get16 off (wr 0 frame buffer) = get16 off frame" if "off + 2 \<le> length frame" for off
    using that assms(2) by (simp add: get16_def wr_def nth_append)
  moreover have "42 \<le> length frame" using assms(1) by (auto simp: is_arp_def peek_def split: if_splits)
  ultimately show ?thesis using assms(1) by (simp add: is_arp_def)
qed

lemma htons_inj [simp]: "htons a = htons b \<longleftrightarrow> a = b"
  by (metis ntohs_htons)

end
