(* ===== verification/RpcWire.thy ===== *)
theory RpcWire
  imports Checksum "HOL-Library.Monad_Syntax"
begin

text \<open>
  The wire format of the RPC laboratory (endlab): \<open>struct rpc_hdr\<close> of rpc.h, the frame the two
  stubs build around it (\<open>send_pcap_packet\<close> of client_stub.c and server_stub.c: Ethernet,
  IPv4, TCP, then the header) and \<open>extract_rpc\<close> that reads it back.  A frame is built by
  stores at the C offsets into the uninitialised array \<open>buff\<close>, which is a parameter: every
  theorem holds for whatever bytes the stack held.
\<close>

section \<open>struct rpc_hdr\<close>

record rpc_args =
  arg1 :: u32
  arg2 :: u32

record rpc_hdr =
  function_name :: bytes
  opcode :: u32
  return_val :: u32
  arguments :: rpc_args

text \<open>\<open>char function_name[10]\<close>, holding a terminated string.\<close>

definition wf_hdr :: "rpc_hdr \<Rightarrow> bool" where
  "wf_hdr h \<longleftrightarrow> length (function_name h) = 10 \<and> c_str (function_name h) \<noteq> None"

text \<open>\<open>htons\<close> and \<open>ntohs\<close> applied to an \<open>int\<close>: it is cut to 16 bits, and the result zero
  extended.\<close>

definition htons_int :: "u32 \<Rightarrow> u32" where "htons_int x = ucast (htons (ucast x))"
definition ntohs_int :: "u32 \<Rightarrow> u32" where "ntohs_int x = ucast (ntohs (ucast x))"

lemma ucast_ucast_16 [simp]: "(ucast (ucast (x :: u16) :: u32) :: u16) = x"
  by (rule bit_word_eqI) (auto simp: bit_simps)

text \<open>An \<open>int\<close> cut to its low 16 bits, as a number from 0 to 65535.\<close>

definition low16 :: "u32 \<Rightarrow> u32" where "low16 x = ucast (ucast x :: u16)"

lemma ntohs_htons_int [simp]: "ntohs_int (htons_int x) = low16 x"
  by (simp add: ntohs_int_def htons_int_def low16_def)

lemma unat_u16_u32: "unat (ucast (y :: u16) :: u32) = unat y"
proof -
  have "unat y < 2 ^ 32" by (rule less_trans [OF unat_u16]) simp
  then show ?thesis by (simp add: unsigned_ucast_eq take_bit_nat_eq_self)
qed

lemma unat_low16: "unat (low16 x) = unat x mod 65536"
  unfolding low16_def unat_u16_u32 by (simp only: unsigned_ucast_eq take_bit_eq_mod) simp

lemma low16_add: "low16 (low16 a + low16 b) = low16 (a + b)"
  by (rule word_unat_eq_iff [THEN iffD2]) (simp add: unat_low16 unat_word_ariths mod_mod_cancel mod_add_eq)

lemma uint_low16: "uint (low16 x) = uint x mod 65536"
proof -
  have "int (unat (low16 x)) = int (unat x mod 65536)" by (simp only: unat_low16)
  then show ?thesis by (simp add: zmod_int)
qed

lemma low16_diff: "low16 (low16 a - low16 b) = low16 (a - b)"
  by (rule word_uint_eq_iff [THEN iffD2])
     (simp add: uint_low16 uint_word_ariths mod_mod_cancel mod_diff_eq)

section \<open>Building a frame\<close>

text \<open>Stores to bit fields: \<open>iph->ihl = 5\<close>, \<open>iph->version = 4\<close>, \<open>tcp->doff = 8\<close> keep the other
  nibble; the flags of byte 13 of the TCP header are set in the order of the source.\<close>

definition set_ihl :: "u8 \<Rightarrow> u8" where "set_ihl b = (b AND 0xF0) OR 0x05"
definition set_version :: "u8 \<Rightarrow> u8" where "set_version b = (b AND 0x0F) OR 0x40"
definition set_doff :: "u8 \<Rightarrow> u8" where "set_doff b = (b AND 0x0F) OR 0x80"

definition set_flags :: "u8 \<Rightarrow> u8" where
  "set_flags b =
     (let b = unset_bit 0 b; \<comment> \<open>fin = 0\<close>
          b = set_bit 3 b; \<comment> \<open>psh = 1\<close>
          b = unset_bit 2 b; \<comment> \<open>rst = 0\<close>
          b = set_bit 4 b; \<comment> \<open>ack = 1\<close>
          b = unset_bit 1 b \<comment> \<open>syn = 0\<close>
      in unset_bit 5 b)"

text \<open>
  Lines common to the two \<open>send_pcap_packet\<close>s: Ethernet header at 0, IP header at 14, TCP
  header at 34.  \<open>tot_len\<close> is stored without \<open>htons\<close>, and the IP checksum is taken with
  whatever the \<open>check\<close> field (bytes 24, 25) held.
\<close>

definition eth_ip_headers :: "bytes \<Rightarrow> bytes \<Rightarrow> bytes \<Rightarrow> bytes \<Rightarrow> bytes \<Rightarrow> bytes option" where
  "eth_ip_headers dst src sip dip buff = do {
     buff \<leftarrow> poke_all [(0, dst), (6, src), (12, [of_nat (0x0806 div 256)]), (13, [of_nat (0x0806 mod 256)])] buff;
     b \<leftarrow> get8 14 buff;
     buff \<leftarrow> poke 14 [set_ihl b] buff;
     b \<leftarrow> get8 14 buff;
     buff \<leftarrow> poke 14 [set_version b] buff;
     buff \<leftarrow> poke_all [(16, le16 (20 + 20 + 5)), (23, [6]), (22, [64]), (26, sip), (30, dip)] buff;
     iph \<leftarrow> peek 14 20 buff;
     poke 24 (le16 (in_cksum iph)) buff }"

definition tcp_header :: "u16 \<Rightarrow> u16 \<Rightarrow> bytes \<Rightarrow> bytes option" where
  "tcp_header dport sport buff = do {
     buff \<leftarrow> poke_all [(36, le16 (htons dport)), (34, le16 (htons sport))] buff;
     b \<leftarrow> get8 46 buff;
     buff \<leftarrow> poke 46 [set_doff b] buff;
     buff \<leftarrow> poke_all [(38, le32 (htonl 156851345)), (42, le32 (htonl 654864534))] buff;
     b \<leftarrow> get8 47 buff;
     buff \<leftarrow> poke 47 [set_flags b] buff;
     poke 48 (le16 (htons 1000)) buff }"

definition frame_headers :: "bytes \<Rightarrow> bytes \<Rightarrow> bytes \<Rightarrow> bytes \<Rightarrow> u16 \<Rightarrow> u16 \<Rightarrow> bytes \<Rightarrow> bytes option" where
  "frame_headers dst src sip dip dport sport buff = do {
     buff \<leftarrow> eth_ip_headers dst src sip dip buff;
     tcp_header dport sport buff }"

definition mac_client_stub :: bytes where "mac_client_stub = [0x01, 0x02, 0x03, 0x04, 0x05, 0x06]"
definition mac_server_stub :: bytes where "mac_server_stub = [0x07, 0x08, 0x09, 0x10, 0x11, 0x12]"

text \<open>client_stub.c: the request, \<open>return_val\<close> is not stored.  The frame is what
  \<open>pcap_inject(handle, buff, n)\<close> sends, \<open>n = 14 + 20 + 20 + 28\<close>.\<close>

definition client_frame :: "bytes \<Rightarrow> rpc_hdr \<Rightarrow> bytes option" where
  "client_frame buff msg = do {
     buff \<leftarrow> frame_headers mac_server_stub mac_client_stub [127, 0, 0, 1] [127, 0, 0, 2] 8081 8080 buff;
     name \<leftarrow> c_str (function_name msg);
     buff \<leftarrow> poke 54 (name @ [0]) buff;
     buff \<leftarrow> poke_all [(66, le32 (opcode msg)), (74, le32 (arg1 (arguments msg))),
                       (78, le32 (arg2 (arguments msg)))] buff;
     peek 0 82 buff }"

text \<open>server_stub.c: the reply.\<close>

definition server_frame :: "bytes \<Rightarrow> rpc_hdr \<Rightarrow> bytes option" where
  "server_frame buff msg = do {
     buff \<leftarrow> frame_headers mac_client_stub mac_server_stub [127, 0, 0, 2] [127, 0, 0, 1] 8080 8081 buff;
     name \<leftarrow> c_str (function_name msg);
     buff \<leftarrow> poke 54 (name @ [0]) buff;
     buff \<leftarrow> poke_all [(66, le32 (opcode msg)), (74, le32 (arg1 (arguments msg))),
                       (78, le32 (arg2 (arguments msg))), (70, le32 (return_val msg))] buff;
     peek 0 82 buff }"

section \<open>Reading a frame\<close>

text \<open>server_stub.c: \<open>extract_rpc\<close> fills \<open>rpc\<close> from the captured packet; \<open>return_val\<close> keeps its
  value.  Nothing checks the captured length: a short packet is read past its end.\<close>

definition server_extract_rpc :: "bytes \<Rightarrow> rpc_hdr \<Rightarrow> rpc_hdr option" where
  "server_extract_rpc buffer rpc = do {
     name \<leftarrow> c_str (drop 54 buffer);
     fn \<leftarrow> strcpy (function_name rpc) name;
     opc \<leftarrow> get32 66 buffer;
     a1 \<leftarrow> get32 74 buffer;
     a2 \<leftarrow> get32 78 buffer;
     Some (rpc\<lparr>function_name := fn, opcode := ntohs_int opc,
               arguments := \<lparr>arg1 = ntohs_int a1, arg2 = ntohs_int a2\<rparr>\<rparr>) }"

text \<open>client_stub.c: the same, and the return value.\<close>

definition client_extract_rpc :: "bytes \<Rightarrow> rpc_hdr \<Rightarrow> rpc_hdr option" where
  "client_extract_rpc buffer rpc = do {
     name \<leftarrow> c_str (drop 54 buffer);
     fn \<leftarrow> strcpy (function_name rpc) name;
     opc \<leftarrow> get32 66 buffer;
     a1 \<leftarrow> get32 74 buffer;
     a2 \<leftarrow> get32 78 buffer;
     rv \<leftarrow> get32 70 buffer;
     Some (rpc\<lparr>function_name := fn, opcode := ntohs_int opc,
               arguments := \<lparr>arg1 = ntohs_int a1, arg2 = ntohs_int a2\<rparr>,
               return_val := ntohs_int rv\<rparr>) }"

section \<open>What a frame holds\<close>

lemma length_macs [simp, len_simps]: "length mac_client_stub = 6" "length mac_server_stub = 6"
  by (simp_all add: mac_client_stub_def mac_server_stub_def)

text \<open>The headers leave bytes 54 on alone, and are defined for any buffer that can hold them.\<close>

definition ip_prefix :: "bytes \<Rightarrow> bytes \<Rightarrow> bytes \<Rightarrow> bytes \<Rightarrow> bytes \<Rightarrow> bytes" where
  "ip_prefix dst src sip dip buff =
     wr 30 dip (wr 26 sip (wr 22 [64] (wr 23 [6] (wr 16 (le16 45)
       (wr 14 [set_version (set_ihl (buff ! 14))] (wr 14 [set_ihl (buff ! 14)]
       (wr 13 [6] (wr 12 [8] (wr 6 src (wr 0 dst buff))))))))))"

lemma length_ip_prefix [simp]: "length (ip_prefix dst src sip dip buff) = length buff"
  by (simp add: ip_prefix_def)

lemma eth_ip_headers_eq:
  assumes "82 \<le> length buff" "length dst = 6" "length src = 6" "length sip = 4" "length dip = 4"
    and "peek 14 20 (ip_prefix dst src sip dip buff) = Some h"
  shows "eth_ip_headers dst src sip dip buff =
    Some (wr 24 (le16 (in_cksum h)) (ip_prefix dst src sip dip buff))"
  using assms unfolding eth_ip_headers_def ip_prefix_def
  by (simp add: buf_simps get8_in nth_wr)

lemma tcp_header_ok:
  assumes "82 \<le> length buff"
  shows "\<exists>buff'. tcp_header dport sport buff = Some buff' \<and> length buff' = length buff \<and>
    (\<forall>off n. off + n \<le> 34 \<longrightarrow> peek off n buff' = peek off n buff)"
  using assms unfolding tcp_header_def by (simp add: buf_simps get8_in)

lemma frame_headers_ok:
  assumes "82 \<le> length buff" "length dst = 6" "length src = 6" "length sip = 4" "length dip = 4"
  shows "\<exists>buff' h. frame_headers dst src sip dip dport sport buff = Some buff' \<and>
    length buff' = length buff \<and> peek 0 6 buff' = Some dst \<and> peek 6 6 buff' = Some src \<and>
    peek 14 20 (ip_prefix dst src sip dip buff) = Some h \<and>
    peek 14 20 buff' = Some (wr 10 (le16 (in_cksum h)) h)"
proof -
  define b1 where "b1 = ip_prefix dst src sip dip buff"
  have len: "length b1 = length buff" by (simp add: b1_def)
  have p: "peek 0 6 b1 = Some dst" "peek 6 6 b1 = Some src"
    using assms by (simp_all add: b1_def ip_prefix_def buf_simps)
  obtain h where h: "peek 14 20 b1 = Some h"
    using peek_Some [of 14 20 b1] assms(1) len by auto
  let ?b2 = "wr 24 (le16 (in_cksum h)) b1"
  have "eth_ip_headers dst src sip dip buff = Some ?b2"
    using eth_ip_headers_eq [OF assms] h by (simp add: b1_def)
  moreover obtain b3 where "tcp_header dport sport ?b2 = Some b3" "length b3 = length ?b2"
      "\<forall>off n. off + n \<le> 34 \<longrightarrow> peek off n b3 = peek off n ?b2"
    using tcp_header_ok [of ?b2 dport sport] assms(1) len by auto
  moreover have "peek 14 20 ?b2 = Some (wr 10 (le16 (in_cksum h)) h)"
    using peek_wr_inside [OF h, of 24 "le16 (in_cksum h)"] by simp
  ultimately show ?thesis
    using p h len by (simp add: frame_headers_def buf_simps b1_def)
qed

lemma wf_hdrE:
  assumes "wf_hdr h"
  obtains name where "c_str (function_name h) = Some name" "length name \<le> 9" "0 \<notin> set name"
proof -
  obtain name where n: "c_str (function_name h) = Some name" "length (function_name h) = 10"
    using assms by (auto simp: wf_hdr_def)
  then have "length name \<le> 9" using c_str_length by fastforce
  with n that c_str_no_zero show ?thesis by blast
qed

text \<open>The fields of a frame, as the receiving stub reads them.\<close>

definition frame_holds :: "bytes \<Rightarrow> bytes \<Rightarrow> bytes \<Rightarrow> bytes \<Rightarrow> u32 \<Rightarrow> u32 \<Rightarrow> u32 \<Rightarrow> bool" where
  "frame_holds frame dst src name opc a1 a2 \<longleftrightarrow>
     length frame = 82 \<and> peek 0 6 frame = Some dst \<and> peek 6 6 frame = Some src \<and>
     c_str (drop 54 frame) = Some name \<and> get32 66 frame = Some opc \<and>
     get32 74 frame = Some a1 \<and> get32 78 frame = Some a2"

lemma client_frame_ok:
  assumes "wf_hdr msg" "82 \<le> length buff" "c_str (function_name msg) = Some name"
  obtains frame where "client_frame buff msg = Some frame"
    "frame_holds frame mac_server_stub mac_client_stub name (opcode msg)
       (arg1 (arguments msg)) (arg2 (arguments msg))"
proof -
  have n: "length name \<le> 9" "0 \<notin> set name" using assms(1,3) by (auto elim: wf_hdrE)
  obtain b where b: "frame_headers mac_server_stub mac_client_stub [127, 0, 0, 1] [127, 0, 0, 2] 8081 8080 buff = Some b"
      "length b = length buff" "peek 0 6 b = Some mac_server_stub" "peek 6 6 b = Some mac_client_stub"
    using frame_headers_ok [of buff mac_server_stub mac_client_stub "[127, 0, 0, 1]" "[127, 0, 0, 2]"] assms(2)
    by auto
  define b' where "b' = wr 78 (le32 (arg2 (arguments msg))) (wr 74 (le32 (arg1 (arguments msg)))
    (wr 66 (le32 (opcode msg)) (wr 54 (name @ [0]) b)))"
  have len: "length b' = length buff" by (simp add: b'_def b)
  have f: "client_frame buff msg = Some (take 82 b')"
    using n assms(2,3) b by (simp add: client_frame_def b'_def buf_simps) (simp add: peek_def)
  have p: "peek off n (take 82 b') = peek off n b'" if "off + n \<le> 82" for off n
    using that assms(2) len by (intro peek_take) simp_all
  have "frame_holds (take 82 b') mac_server_stub mac_client_stub name (opcode msg)
       (arg1 (arguments msg)) (arg2 (arguments msg))"
    unfolding frame_holds_def
  proof (intro conjI)
    show "length (take 82 b') = 82" using assms(2) len by simp
    have q: "peek 0 6 b' = Some mac_server_stub" "peek 6 6 b' = Some mac_client_stub"
        "peek 54 (length name + 1) b' = Some (name @ [0])" "peek 66 4 b' = Some (le32 (opcode msg))"
        "peek 74 4 b' = Some (le32 (arg1 (arguments msg)))" "peek 78 4 b' = Some (le32 (arg2 (arguments msg)))"
      using b(2-) n assms(2) by (simp_all add: b'_def buf_simps)
    show "peek 0 6 (take 82 b') = Some mac_server_stub" "peek 6 6 (take 82 b') = Some mac_client_stub"
      using q(1,2) by (simp_all add: p)
    show "c_str (drop 54 (take 82 b')) = Some name"
      using q(3) n by (intro c_str_peek) (simp_all add: p)
    show "get32 66 (take 82 b') = Some (opcode msg)" "get32 74 (take 82 b') = Some (arg1 (arguments msg))"
        "get32 78 (take 82 b') = Some (arg2 (arguments msg))"
      using q(4-6) by (simp_all add: p get32I)
  qed
  with f that show ?thesis by blast
qed

lemma server_frame_ok:
  assumes "wf_hdr msg" "82 \<le> length buff" "c_str (function_name msg) = Some name"
  obtains frame where "server_frame buff msg = Some frame"
    "frame_holds frame mac_client_stub mac_server_stub name (opcode msg)
       (arg1 (arguments msg)) (arg2 (arguments msg))"
    "get32 70 frame = Some (return_val msg)"
proof -
  have n: "length name \<le> 9" "0 \<notin> set name" using assms(1,3) by (auto elim: wf_hdrE)
  obtain b where b: "frame_headers mac_client_stub mac_server_stub [127, 0, 0, 2] [127, 0, 0, 1] 8080 8081 buff = Some b"
      "length b = length buff" "peek 0 6 b = Some mac_client_stub" "peek 6 6 b = Some mac_server_stub"
    using frame_headers_ok [of buff mac_client_stub mac_server_stub "[127, 0, 0, 2]" "[127, 0, 0, 1]"] assms(2)
    by auto
  define b' where "b' = wr 70 (le32 (return_val msg)) (wr 78 (le32 (arg2 (arguments msg)))
    (wr 74 (le32 (arg1 (arguments msg))) (wr 66 (le32 (opcode msg)) (wr 54 (name @ [0]) b))))"
  have len: "length b' = length buff" by (simp add: b'_def b)
  have f: "server_frame buff msg = Some (take 82 b')"
    using n assms(2,3) b by (simp add: server_frame_def b'_def buf_simps) (simp add: peek_def)
  have p: "peek off n (take 82 b') = peek off n b'" if "off + n \<le> 82" for off n
    using that assms(2) len by (intro peek_take) simp_all
  have h: "frame_holds (take 82 b') mac_client_stub mac_server_stub name (opcode msg)
       (arg1 (arguments msg)) (arg2 (arguments msg))"
    unfolding frame_holds_def
  proof (intro conjI)
    show "length (take 82 b') = 82" using assms(2) len by simp
    have q: "peek 0 6 b' = Some mac_client_stub" "peek 6 6 b' = Some mac_server_stub"
        "peek 54 (length name + 1) b' = Some (name @ [0])" "peek 66 4 b' = Some (le32 (opcode msg))"
        "peek 74 4 b' = Some (le32 (arg1 (arguments msg)))" "peek 78 4 b' = Some (le32 (arg2 (arguments msg)))"
      using b(2-) n assms(2) by (simp_all add: b'_def buf_simps)
    show "peek 0 6 (take 82 b') = Some mac_client_stub" "peek 6 6 (take 82 b') = Some mac_server_stub"
      using q(1,2) by (simp_all add: p)
    show "c_str (drop 54 (take 82 b')) = Some name"
      using q(3) n by (intro c_str_peek) (simp_all add: p)
    show "get32 66 (take 82 b') = Some (opcode msg)" "get32 74 (take 82 b') = Some (arg1 (arguments msg))"
        "get32 78 (take 82 b') = Some (arg2 (arguments msg))"
      using q(4-6) by (simp_all add: p get32I)
  qed
  have "get32 70 (take 82 b') = Some (return_val msg)"
  proof -
    have "peek 70 4 b' = Some (le32 (return_val msg))" using assms(2) b(2) by (simp add: b'_def buf_simps)
    then show ?thesis by (simp add: p get32I)
  qed
  with f h that show ?thesis by blast
qed

lemma strcpy_name:
  assumes "length d = 10" "length name \<le> 9" "0 \<notin> set name"
  obtains fn where "strcpy d name = Some fn" "length fn = 10" "c_str fn = Some name"
proof -
  obtain fn where fn: "strcpy d name = Some fn" using strcpy_defined [of name d] assms by auto
  with that show ?thesis using strcpy_length [OF fn] c_str_strcpy [OF fn] assms by simp
qed

lemma server_extract_ok:
  assumes "frame_holds frame dst src name opc a1 a2" "length name \<le> 9"
    and "length (function_name rpc) = 10"
  obtains r where "server_extract_rpc frame rpc = Some r" "length (function_name r) = 10"
    "c_str (function_name r) = Some name" "opcode r = ntohs_int opc"
    "arguments r = \<lparr>arg1 = ntohs_int a1, arg2 = ntohs_int a2\<rparr>" "return_val r = return_val rpc"
proof -
  have n: "0 \<notin> set name" using assms(1) by (auto simp: frame_holds_def dest: c_str_no_zero)
  obtain fn where "strcpy (function_name rpc) name = Some fn" "length fn = 10" "c_str fn = Some name"
    using strcpy_name [OF assms(3,2) n] .
  with assms(1) that show ?thesis
    by (auto simp: frame_holds_def server_extract_rpc_def)
qed

lemma client_extract_ok:
  assumes "frame_holds frame dst src name opc a1 a2" "length name \<le> 9"
    and "length (function_name rpc) = 10" "get32 70 frame = Some rv"
  obtains r where "client_extract_rpc frame rpc = Some r" "length (function_name r) = 10"
    "c_str (function_name r) = Some name" "opcode r = ntohs_int opc"
    "arguments r = \<lparr>arg1 = ntohs_int a1, arg2 = ntohs_int a2\<rparr>" "return_val r = ntohs_int rv"
proof -
  have n: "0 \<notin> set name" using assms(1) by (auto simp: frame_holds_def dest: c_str_no_zero)
  obtain fn where "strcpy (function_name rpc) name = Some fn" "length fn = 10" "c_str fn = Some name"
    using strcpy_name [OF assms(3,2) n] .
  with assms that show ?thesis
    by (auto simp: frame_holds_def client_extract_rpc_def)
qed

lemma set_version_ihl: "set_version (set_ihl b) = 0x45"
proof (rule bit_word_eqI)
  fix n assume "n < LENGTH(8)"
  then have "n \<in> {0, 1, 2, 3, 4, 5, 6, 7}" by auto
  then show "bit (set_version (set_ihl b)) n = bit (0x45 :: u8) n"
    unfolding set_version_def set_ihl_def by (auto simp: bit_simps)
qed

section \<open>The IP checksum of a frame\<close>

lemma word_sum_pos: "a \<noteq> 0 \<Longrightarrow> word_sum (a # bs) > 0"
  by (cases bs) (auto simp: unat_gt_0)

lemma headers_checksum:
  assumes "82 \<le> length buff" "length dst = 6" "length src = 6" "length sip = 4" "length dip = 4"
    and old: "peek 24 2 buff = Some (le16 old)"
    and f: "frame_headers dst src sip dip dport sport buff = Some buff'"
  obtains iph where "peek 14 20 buff' = Some iph" "in_cksum iph = 0 \<longleftrightarrow> old = 0 \<or> old = 0xffff"
proof -
  define b1 where "b1 = ip_prefix dst src sip dip buff"
  obtain h where h: "peek 14 20 b1 = Some h" and p: "peek 14 20 buff' = Some (wr 10 (le16 (in_cksum h)) h)"
    using frame_headers_ok [OF assms(1-5), of dport sport] f by (auto simp: b1_def)
  have hl: "length h = 20" using h by (rule peek_length)
  have "peek 24 2 b1 = Some (le16 old)"
    using old assms by (simp add: b1_def ip_prefix_def buf_simps)
  then have old_h: "peek 10 2 h = Some (le16 old)"
    using h by (auto simp: peek_def drop_take min_def split: if_splits)
  have "h ! 0 = b1 ! 14" using h by (auto simp: peek_def split: if_splits)
  also have "\<dots> = 0x45" using assms by (simp add: b1_def ip_prefix_def nth_wr set_version_ihl)
  finally have t: "h = 0x45 # tl h" using hl by (cases h) auto
  have s0: "store_checksum 10 c h = Some (wr 10 (le16 c) h)" for c
    using hl by (simp add: store_checksum_def buf_simps)
  have "word_sum (wr 10 (le16 0) h) + unat old = word_sum h + unat (0 :: u16)"
    by (rule word_sum_store [OF s0 _ old_h]) simp
  moreover have "wr 10 (le16 0) h = 0x45 # tl (wr 10 (le16 0) h)"
    using hl by (subst (1 2) t) (simp add: wr_def)
  then have "word_sum (wr 10 (le16 0) h) \<noteq> 0"
    using word_sum_pos [of "0x45" "tl (wr 10 (le16 0) h)"] by simp
  ultimately have ne: "word_sum h \<noteq> unat old" by simp
  have "in_cksum (wr 10 (le16 (in_cksum h)) h) = 0 \<longleftrightarrow> old = 0 \<or> old = 0xffff"
    by (rule rpc.stored_verifies_iff [OF _ _ old_h s0 ne]) (use hl in simp_all)
  with p that show ?thesis by blast
qed

section \<open>Properties\<close>

text \<open>
  C6. A request survives the wire: whatever the stack held, the client's stub builds a frame
  from any terminated header, and the server's stub reads back the function name and the opcode
  and operands cut to 16 bits and converted from network byte order.
\<close>

theorem request_roundtrip:
  assumes "wf_hdr msg" "length buff = 65535" "length (function_name rpc0) = 10"
  shows "\<exists>frame r. client_frame buff msg = Some frame \<and> length frame = 82 \<and>
    server_extract_rpc frame rpc0 = Some r \<and>
    c_str (function_name r) = c_str (function_name msg) \<and> opcode r = ntohs_int (opcode msg) \<and>
    arguments r = \<lparr>arg1 = ntohs_int (arg1 (arguments msg)), arg2 = ntohs_int (arg2 (arguments msg))\<rparr>"
proof -
  obtain name where n: "c_str (function_name msg) = Some name" "length name \<le> 9" "0 \<notin> set name"
    using assms(1) by (rule wf_hdrE)
  have "82 \<le> length buff" using assms(2) by simp
  then obtain frame where f: "client_frame buff msg = Some frame"
    "frame_holds frame mac_server_stub mac_client_stub name (opcode msg) (arg1 (arguments msg)) (arg2 (arguments msg))"
    by (rule client_frame_ok [OF assms(1) _ n(1)])
  show ?thesis
    by (rule server_extract_ok [OF f(2) n(2) assms(3)]) (use f n(1) in \<open>auto simp: frame_holds_def\<close>)
qed

text \<open>
  C7. A reply survives the wire in the same way, every field of it: the client's stub reads back
  the function name, and the opcode, the operands and the return value cut to 16 bits and
  converted from network byte order.
\<close>

theorem reply_roundtrip:
  assumes "wf_hdr msg" "length buff = 65535" "length (function_name rpc0) = 10"
  shows "\<exists>frame r. server_frame buff msg = Some frame \<and> length frame = 82 \<and>
    client_extract_rpc frame rpc0 = Some r \<and>
    c_str (function_name r) = c_str (function_name msg) \<and> opcode r = ntohs_int (opcode msg) \<and>
    arguments r = \<lparr>arg1 = ntohs_int (arg1 (arguments msg)), arg2 = ntohs_int (arg2 (arguments msg))\<rparr> \<and>
    return_val r = ntohs_int (return_val msg)"
proof -
  obtain name where n: "c_str (function_name msg) = Some name" "length name \<le> 9" "0 \<notin> set name"
    using assms(1) by (rule wf_hdrE)
  have "82 \<le> length buff" using assms(2) by simp
  then obtain frame where f: "server_frame buff msg = Some frame"
    "frame_holds frame mac_client_stub mac_server_stub name (opcode msg) (arg1 (arguments msg)) (arg2 (arguments msg))"
    "get32 70 frame = Some (return_val msg)"
    by (rule server_frame_ok [OF assms(1) _ n(1)])
  show ?thesis
    by (rule client_extract_ok [OF f(2) n(2) assms(3) f(3)]) (use f n(1) in \<open>auto simp: frame_holds_def\<close>)
qed

text \<open>
  C18. The stubs take the IP checksum without clearing the checksum field first.  The header they
  send verifies exactly when the uninitialised field happened to hold 0 or 0xffff, the two
  spellings of zero in one's complement.
\<close>

theorem stub_checksum_verifies_iff:
  assumes "82 \<le> length buff" "length dst = 6" "length src = 6" "length sip = 4" "length dip = 4"
    and "peek 24 2 buff = Some (le16 old)"
    and "frame_headers dst src sip dip dport sport buff = Some buff'"
  shows "\<exists>iph. peek 14 20 buff' = Some iph \<and> (in_cksum iph = 0 \<longleftrightarrow> old = 0 \<or> old = 0xffff)"
  by (rule headers_checksum [OF assms]) blast

section \<open>Witnesses\<close>

definition sample_hdr :: rpc_hdr where
  "sample_hdr = \<lparr>function_name = bytes_of ''add'' @ 0 # replicate 6 0, opcode = htons_int 1, return_val = 0,
     arguments = \<lparr>arg1 = htons_int 2, arg2 = htons_int 3\<rparr>\<rparr>"

lemma wf_sample_hdr: "wf_hdr sample_hdr" "c_str (function_name sample_hdr) = Some (bytes_of ''add'')"
proof -
  have "0 \<notin> set (bytes_of ''add'')" by (simp add: bytes_of_def)
  then show "c_str (function_name sample_hdr) = Some (bytes_of ''add'')"
    by (simp add: sample_hdr_def c_str_append)
  then show "wf_hdr sample_hdr" by (simp add: wf_hdr_def) (simp add: sample_hdr_def)
qed

theorem request_roundtrip_witness:
  "\<exists>frame r. client_frame (replicate 65535 0xAA) sample_hdr = Some frame \<and>
     server_extract_rpc frame sample_hdr = Some r \<and> c_str (function_name r) = Some (bytes_of ''add'') \<and>
     arguments r = \<lparr>arg1 = low16 2, arg2 = low16 3\<rparr>"
proof -
  have "length (replicate 65535 (0xAA :: u8)) = 65535" by (rule length_replicate)
  moreover have "length (function_name sample_hdr) = 10" by (simp add: sample_hdr_def)
  moreover have "arguments sample_hdr = \<lparr>arg1 = htons_int 2, arg2 = htons_int 3\<rparr>" by (simp add: sample_hdr_def)
  ultimately show ?thesis
    using request_roundtrip [OF wf_sample_hdr(1)] wf_sample_hdr(2) by fastforce
qed

theorem reply_roundtrip_witness:
  "\<exists>frame r. server_frame (replicate 65535 0xAA) sample_hdr = Some frame \<and>
     client_extract_rpc frame sample_hdr = Some r \<and> return_val r = ntohs_int 0 \<and>
     arguments r = \<lparr>arg1 = low16 2, arg2 = low16 3\<rparr>"
proof -
  have "length (replicate 65535 (0xAA :: u8)) = 65535" by (rule length_replicate)
  moreover have "length (function_name sample_hdr) = 10" "return_val sample_hdr = 0"
      "arguments sample_hdr = \<lparr>arg1 = htons_int 2, arg2 = htons_int 3\<rparr>"
    by (simp_all add: sample_hdr_def)
  ultimately show ?thesis
    using reply_roundtrip [OF wf_sample_hdr(1)] by fastforce
qed

text \<open>A stack that held the byte 0xAA everywhere: the receiver rejects the header.\<close>

theorem stub_checksum_verifies_iff_witness:
  "\<exists>buff' iph. frame_headers mac_server_stub mac_client_stub [127, 0, 0, 1] [127, 0, 0, 2] 8081 8080
     (replicate 82 0xAA) = Some buff' \<and> peek 14 20 buff' = Some iph \<and> in_cksum iph \<noteq> 0"
proof -
  let ?b = "replicate 82 (0xAA :: u8)"
  obtain buff' where b: "frame_headers mac_server_stub mac_client_stub [127, 0, 0, 1] [127, 0, 0, 2] 8081 8080 ?b = Some buff'"
    using frame_headers_ok [of ?b mac_server_stub mac_client_stub "[127, 0, 0, 1]" "[127, 0, 0, 2]" 8081 8080] by auto
  let ?old = "rd16 0xAA 0xAA"
  have "peek 24 2 ?b = Some [0xAA, 0xAA]" by (simp add: peek_def) (simp add: numeral_2_eq_2)
  then have "peek 24 2 ?b = Some (le16 ?old)" by (simp only: le16_rd16)
  from stub_checksum_verifies_iff [OF _ _ _ _ _ this b] obtain iph where
    "peek 14 20 buff' = Some iph" "in_cksum iph = 0 \<longleftrightarrow> ?old = 0 \<or> ?old = 0xffff" by auto
  moreover have "unat ?old = 43690" by (simp add: unat_rd16)
  then have "?old \<noteq> 0" "?old \<noteq> 0xffff" by auto
  ultimately show ?thesis using b by blast
qed

end
