(* ===== verification/RpcSystem.thy ===== *)
theory RpcSystem
  imports RpcWire Interaction
begin

text \<open>
  The four processes of endlab: client.c, client_stub.c, server_stub.c and server.c.  The client
  and its stub share one System V message queue, the server and its stub another; the stubs
  exchange frames over the loopback interface with libpcap.  Each process is the body of its
  \<open>while (1)\<close> loop, a \<open>prog\<close>; the uninitialised locals of an iteration are parameters.
  Diagnostic output is left out, the lines the client prints for its user are not.
\<close>

section \<open>Messages and calls\<close>

record mymsg =
  mtype :: int
  msg :: rpc_hdr

text \<open>The calls, with the arguments that matter: \<open>msgsnd(q, &m, n)\<close> and
  \<open>msgrcv(q, &m, n, type)\<close> on the queue of the process, \<open>pcap_inject\<close>, \<open>pcap_next\<close>,
  \<open>scanf("%d")\<close> and \<open>printf\<close>.\<close>

datatype rpc_call =
    Msgsnd mymsg nat
  | Msgrcv nat int
  | PcapInject bytes
  | PcapNext
  | Scanf
  | Printf string "u32 list"

record rpc_resp =
  rc :: int
  rmsg :: mymsg
  rpkt :: "bytes option"
  rint :: u32

type_synonym rpc_prog = "(rpc_call, rpc_resp, unit) prog"

section \<open>The processes\<close>

text \<open>client.c.  \<open>sizeof(struct rpc_hdr)\<close> is 28.  \<open>m\<close> is the uninitialised \<open>struct mymsg msg\<close>.\<close>

definition add :: "mymsg \<Rightarrow> u32 \<Rightarrow> u32 \<Rightarrow> rpc_prog" where
  "add m a b =
     need (strcpy (function_name (msg m)) (bytes_of ''add'')) (\<lambda>fn.
     Call (Msgsnd (m\<lparr>mtype := 1, msg := (msg m)\<lparr>function_name := fn, opcode := htons_int 1,
                     arguments := \<lparr>arg1 = htons_int a, arg2 = htons_int b\<rparr>\<rparr>\<rparr>) 28) (\<lambda>r.
     if rc r = -1 then Exit 1 else
     Call (Msgrcv 28 4) (\<lambda>r.
     if rc r = -1 then Exit 1 else
     Call (Printf ''%d + %d = %d'' [a, b, return_val (msg (rmsg r))]) (\<lambda>_. Ret ()))))"

definition subtract :: "mymsg \<Rightarrow> u32 \<Rightarrow> u32 \<Rightarrow> rpc_prog" where
  "subtract m a b =
     need (strcpy (function_name (msg m)) (bytes_of ''subtract'')) (\<lambda>fn.
     Call (Msgsnd (m\<lparr>mtype := 1, msg := (msg m)\<lparr>function_name := fn, opcode := htons_int 1,
                     arguments := \<lparr>arg1 = htons_int a, arg2 = htons_int b\<rparr>\<rparr>\<rparr>) 28) (\<lambda>r.
     if rc r = -1 then Exit 1 else
     Call (Msgrcv 28 4) (\<lambda>r.
     if rc r = -1 then Exit 1 else
     Call (Printf ''%d - %d = %d'' [a, b, return_val (msg (rmsg r))]) (\<lambda>_. Ret ()))))"

definition client_body :: "mymsg \<Rightarrow> rpc_prog" where
  "client_body m =
     Call Scanf (\<lambda>opt. Call Scanf (\<lambda>a. Call Scanf (\<lambda>b.
     if rint opt = 1 then add m (rint a) (rint b)
     else if rint opt = 2 then subtract m (rint a) (rint b)
     else Call (Printf ''Invalid option'' []) (\<lambda>_. Ret ()))))"

text \<open>client_stub.c: \<open>send_pcap_packet\<close> ends the process when the injection fails; a timeout of
  \<open>pcap_next\<close> goes back to the head of the loop.\<close>

definition client_stub_reply :: "mymsg \<Rightarrow> rpc_hdr \<Rightarrow> rpc_prog" where
  "client_stub_reply m rpc0 =
     Call PcapNext (\<lambda>r.
     case rpkt r of None \<Rightarrow> Ret ()
     | Some packet \<Rightarrow>
         need (client_extract_rpc packet rpc0) (\<lambda>rpc.
         Call (Msgsnd (m\<lparr>mtype := 4, msg := rpc\<rparr>) 28) (\<lambda>r.
         if rc r = -1 then Exit 1 else Ret ())))"

definition client_stub_body :: "bytes \<Rightarrow> rpc_hdr \<Rightarrow> rpc_prog" where
  "client_stub_body buff rpc0 =
     Call (Msgrcv 28 1) (\<lambda>r.
     if rc r = -1 then Exit 1 else
     need (client_frame buff (msg (rmsg r))) (\<lambda>frame.
     Call (PcapInject frame) (\<lambda>r'.
     if rc r' = -1 then Exit 1 else client_stub_reply (rmsg r) rpc0)))"

text \<open>server_stub.c: the queue calls pass \<open>sizeof(msg)\<close>, 40, where 28 is meant.\<close>

definition server_stub_body :: "bytes \<Rightarrow> rpc_hdr \<Rightarrow> mymsg \<Rightarrow> rpc_prog" where
  "server_stub_body buff rpc0 m =
     Call PcapNext (\<lambda>r.
     case rpkt r of None \<Rightarrow> Ret ()
     | Some packet \<Rightarrow>
         need (server_extract_rpc packet rpc0) (\<lambda>rpc.
         need (c_str (function_name rpc)) (\<lambda>name.
         need (strcpy (function_name (msg m)) name) (\<lambda>fn.
         Call (Msgsnd (m\<lparr>mtype := 2, msg := (msg m)\<lparr>function_name := fn, opcode := opcode rpc,
                         arguments := arguments rpc\<rparr>\<rparr>) 40) (\<lambda>r.
         if rc r = -1 then Exit 1 else
         Call (Msgrcv 40 3) (\<lambda>r.
         if rc r = -1 then Exit 1 else
         need (server_frame buff (msg (rmsg r))) (\<lambda>frame.
         Call (PcapInject frame) (\<lambda>r.
         if rc r = -1 then Exit 1 else Ret ()))))))))"

text \<open>server.c: \<open>strcmp\<close> on the received name, the reply reuses the message.\<close>

definition server_reply :: "mymsg \<Rightarrow> mymsg option" where
  "server_reply m =
     (case c_str (function_name (msg m)) of None \<Rightarrow> None
      | Some name \<Rightarrow>
          (let x = arg1 (arguments (msg m)); y = arg2 (arguments (msg m));
               rv = (if name = bytes_of ''add'' then htons_int (x + y)
                     else if name = bytes_of ''subtract'' then htons_int (x - y)
                     else -1)
           in Some (m\<lparr>mtype := 3, msg := (msg m)\<lparr>return_val := rv, opcode := htons_int 2\<rparr>\<rparr>)))"

definition server_body :: rpc_prog where
  "server_body =
     Call (Msgrcv 40 2) (\<lambda>r.
     if rc r = -1 then Exit 1 else
     need (server_reply (rmsg r)) (\<lambda>m.
     Call (Msgsnd m 28) (\<lambda>r. if rc r = -1 then Exit 1 else Ret ())))"

section \<open>The operating system between them\<close>

text \<open>A queued message keeps its size.  \<open>msgrcv\<close> takes the first message of the type asked for
  and fails (\<open>E2BIG\<close>) when the message is longer than the buffer size it was given.\<close>

type_synonym queue = "(mymsg \<times> nat) list"

record kernel =
  cq :: queue
  sq :: queue
  to_server :: "bytes list"
  to_client :: "bytes list"
  stdin :: "u32 list"
  printed :: "(string \<times> u32 list) list"

datatype pid = Client | ClientStub | ServerStub | Server

fun take_msg :: "int \<Rightarrow> queue \<Rightarrow> ((mymsg \<times> nat) \<times> queue) option" where
  "take_msg t [] = None"
| "take_msg t (e # q) =
     (if mtype (fst e) = t then Some (e, q)
      else map_option (\<lambda>(e', q'). (e', e # q')) (take_msg t q))"

definition queue_of :: "pid \<Rightarrow> kernel \<Rightarrow> queue" where
  "queue_of p k = (case p of Client \<Rightarrow> cq k | ClientStub \<Rightarrow> cq k | ServerStub \<Rightarrow> sq k | Server \<Rightarrow> sq k)"

definition set_queue :: "pid \<Rightarrow> queue \<Rightarrow> kernel \<Rightarrow> kernel" where
  "set_queue p q k =
     (case p of Client \<Rightarrow> k\<lparr>cq := q\<rparr> | ClientStub \<Rightarrow> k\<lparr>cq := q\<rparr>
      | ServerStub \<Rightarrow> k\<lparr>sq := q\<rparr> | Server \<Rightarrow> k\<lparr>sq := q\<rparr>)"

text \<open>The capture filters of the stubs: \<open>ether src\<close> the other stub.\<close>

definition capture :: "bytes \<Rightarrow> kernel \<Rightarrow> kernel" where
  "capture frame k =
     k\<lparr>to_server := to_server k @ (if peek 6 6 frame = Some mac_client_stub then [frame] else []),
       to_client := to_client k @ (if peek 6 6 frame = Some mac_server_stub then [frame] else [])\<rparr>"

definition packets_of :: "pid \<Rightarrow> kernel \<Rightarrow> bytes list" where
  "packets_of p k = (if p = ServerStub then to_server k else to_client k)"

definition drop_packet :: "pid \<Rightarrow> kernel \<Rightarrow> kernel" where
  "drop_packet p k = (if p = ServerStub then k\<lparr>to_server := tl (to_server k)\<rparr>
                      else k\<lparr>to_client := tl (to_client k)\<rparr>)"

definition some_msg :: mymsg where
  "some_msg = \<lparr>mtype = 0, msg = \<lparr>function_name = [], opcode = 0, return_val = 0,
                arguments = \<lparr>arg1 = 0, arg2 = 0\<rparr>\<rparr>\<rparr>"

definition ok :: rpc_resp where
  "ok = \<lparr>rc = 0, rmsg = some_msg, rpkt = None, rint = 0\<rparr>"

text \<open>The responses a call can get, with the state after it; none while the caller blocks.
  \<open>timeouts\<close> says whether \<open>pcap_next\<close> may return NULL when no packet is there: the handles are
  opened with a read timeout of 20 ms.\<close>

fun kernel_step :: "bool \<Rightarrow> pid \<Rightarrow> rpc_call \<Rightarrow> kernel \<Rightarrow> (rpc_resp \<times> kernel) list" where
  "kernel_step timeouts p (Msgsnd m n) k = [(ok, set_queue p (queue_of p k @ [(m, n)]) k)]"
| "kernel_step timeouts p (Msgrcv n t) k =
     (case take_msg t (queue_of p k) of None \<Rightarrow> []
      | Some ((m, sz), q) \<Rightarrow>
          if sz \<le> n then [(ok\<lparr>rmsg := m\<rparr>, set_queue p q k)] else [(ok\<lparr>rc := -1\<rparr>, k)])"
| "kernel_step timeouts p (PcapInject frame) k = [(ok, capture frame k)]"
| "kernel_step timeouts p PcapNext k =
     (case packets_of p k of [] \<Rightarrow> (if timeouts then [(ok, k)] else [])
      | frame # _ \<Rightarrow> [(ok\<lparr>rpkt := Some frame\<rparr>, drop_packet p k)])"
| "kernel_step timeouts p Scanf k =
     (case stdin k of [] \<Rightarrow> [] | x # xs \<Rightarrow> [(ok\<lparr>rint := x\<rparr>, k\<lparr>stdin := xs\<rparr>)])"
| "kernel_step timeouts p (Printf fmt args) k = [(ok, k\<lparr>printed := printed k @ [(fmt, args)]\<rparr>)]"

section \<open>The running system\<close>

record rpc_sys =
  kern :: kernel
  procs :: "pid \<Rightarrow> rpc_prog"

text \<open>A fresh iteration of a process: its locals hold anything, at their sizes.\<close>

definition wf_msg :: "mymsg \<Rightarrow> bool" where
  "wf_msg m \<longleftrightarrow> length (function_name (msg m)) = 10"

fun iteration :: "pid \<Rightarrow> rpc_prog \<Rightarrow> bool" where
  "iteration Client q \<longleftrightarrow> (\<exists>m. wf_msg m \<and> q = client_body m)"
| "iteration ClientStub q \<longleftrightarrow>
     (\<exists>buff rpc0. length buff = 65535 \<and> length (function_name rpc0) = 10 \<and> q = client_stub_body buff rpc0)"
| "iteration ServerStub q \<longleftrightarrow>
     (\<exists>buff rpc0 m. length buff = 65535 \<and> length (function_name rpc0) = 10 \<and> wf_msg m \<and>
        q = server_stub_body buff rpc0 m)"
| "iteration Server q \<longleftrightarrow> q = server_body"

text \<open>Any process moves next: it performs its call, or it starts its next iteration.\<close>

inductive rpc_step :: "bool \<Rightarrow> rpc_sys \<Rightarrow> rpc_sys \<Rightarrow> bool" for timeouts where
  call: "procs s p = Call c f \<Longrightarrow> (r, k) \<in> set (kernel_step timeouts p c (kern s)) \<Longrightarrow>
     rpc_step timeouts s (s\<lparr>kern := k, procs := (procs s)(p := f r)\<rparr>)"
| loop: "procs s p = Ret () \<Longrightarrow> iteration p q \<Longrightarrow>
     rpc_step timeouts s (s\<lparr>procs := (procs s)(p := q)\<rparr>)"

definition rpc_init :: "u32 list \<Rightarrow> rpc_sys" where
  "rpc_init input =
     \<lparr>kern = \<lparr>cq = [], sq = [], to_server = [], to_client = [], stdin = input, printed = []\<rparr>,
      procs = (\<lambda>_. Ret ())\<rparr>"

inductive rpc_reach :: "bool \<Rightarrow> u32 list \<Rightarrow> rpc_sys \<Rightarrow> bool" for timeouts input where
  init: "rpc_reach timeouts input (rpc_init input)"
| step: "rpc_reach timeouts input s \<Longrightarrow> rpc_step timeouts s s' \<Longrightarrow> rpc_reach timeouts input s'"

section \<open>Phases of a request\<close>

text \<open>The two remote operations.\<close>

datatype rop = Add | Sub

fun rop_name :: "rop \<Rightarrow> bytes" where
  "rop_name Add = bytes_of ''add''"
| "rop_name Sub = bytes_of ''subtract''"

fun rop_fmt :: "rop \<Rightarrow> string" where
  "rop_fmt Add = ''%d + %d = %d''"
| "rop_fmt Sub = ''%d - %d = %d''"

fun rop_result :: "rop \<Rightarrow> u32 \<Rightarrow> u32 \<Rightarrow> u32" where
  "rop_result Add a b = low16 (a + b)"
| "rop_result Sub a b = low16 (a - b)"

text \<open>What the user should see: one line per triple (option, operands) typed, in order.\<close>

type_synonym line = "string \<times> u32 list"

definition answer :: "u32 \<Rightarrow> u32 \<Rightarrow> u32 \<Rightarrow> line" where
  "answer opt a b =
     (if opt = 1 then (''%d + %d = %d'', [a, b, low16 (a + b)])
      else if opt = 2 then (''%d - %d = %d'', [a, b, low16 (a - b)])
      else (''Invalid option'', []))"

fun answers :: "u32 list \<Rightarrow> line list" where
  "answers (opt # a # b # input) = answer opt a b # answers input"
| "answers input = []"

definition rop_line :: "rop \<Rightarrow> u32 \<Rightarrow> u32 \<Rightarrow> line" where
  "rop_line f a b = (rop_fmt f, [a, b, rop_result f a b])"

text \<open>The message on its way: the client's request, the frame that carries it, the stub's
  request to the server, the server's reply, the frame back, the reply to the client.\<close>

definition is_request :: "int \<Rightarrow> rop \<Rightarrow> u32 \<Rightarrow> u32 \<Rightarrow> mymsg \<Rightarrow> bool" where
  "is_request t f a b m \<longleftrightarrow> mtype m = t \<and> wf_msg m \<and> c_str (function_name (msg m)) = Some (rop_name f) \<and>
     arguments (msg m) = \<lparr>arg1 = a, arg2 = b\<rparr>"

definition is_request_frame :: "rop \<Rightarrow> u32 \<Rightarrow> u32 \<Rightarrow> bytes \<Rightarrow> bool" where
  "is_request_frame f a b frame \<longleftrightarrow>
     (\<exists>opc. frame_holds frame mac_server_stub mac_client_stub (rop_name f) opc (htons_int a) (htons_int b))"

definition is_reply :: "rop \<Rightarrow> u32 \<Rightarrow> u32 \<Rightarrow> mymsg \<Rightarrow> bool" where
  "is_reply f a b m \<longleftrightarrow> mtype m = 3 \<and> wf_msg m \<and> c_str (function_name (msg m)) = Some (rop_name f) \<and>
     ntohs_int (return_val (msg m)) = rop_result f a b"

definition is_reply_frame :: "rop \<Rightarrow> u32 \<Rightarrow> u32 \<Rightarrow> bytes \<Rightarrow> bool" where
  "is_reply_frame f a b frame \<longleftrightarrow>
     (\<exists>opc x y rv. frame_holds frame mac_client_stub mac_server_stub (rop_name f) opc x y \<and>
        get32 70 frame = Some rv \<and> ntohs_int rv = rop_result f a b)"

definition is_answer :: "rop \<Rightarrow> u32 \<Rightarrow> u32 \<Rightarrow> mymsg \<Rightarrow> bool" where
  "is_answer f a b m \<longleftrightarrow> mtype m = 4 \<and> return_val (msg m) = rop_result f a b"

lemma length_rop_name [simp]: "length (rop_name f) \<le> 9" "length (rop_name f) < 10"
  by (cases f; simp)+

lemma rop_name_nonzero [simp]: "0 \<notin> set (rop_name f)"
  by (cases f) (simp_all add: bytes_of_def)

lemma wf_hdr_request: "wf_msg m \<Longrightarrow> c_str (function_name (msg m)) = Some n \<Longrightarrow> wf_hdr (msg m)"
  by (simp add: wf_msg_def wf_hdr_def)

lemma request_frame_ok:
  assumes "is_request 1 f (htons_int a) (htons_int b) m" "length buff = 65535"
  obtains frame where "client_frame buff (msg m) = Some frame" "is_request_frame f a b frame"
proof -
  have "wf_hdr (msg m)" "82 \<le> length buff" "c_str (function_name (msg m)) = Some (rop_name f)"
    using assms by (auto simp: is_request_def intro: wf_hdr_request)
  then obtain frame where "client_frame buff (msg m) = Some frame"
    "frame_holds frame mac_server_stub mac_client_stub (rop_name f) (opcode (msg m))
       (arg1 (arguments (msg m))) (arg2 (arguments (msg m)))"
    by (rule client_frame_ok)
  with that assms(1) show ?thesis by (auto simp: is_request_def is_request_frame_def)
qed

lemma reply_frame_ok:
  assumes "is_reply f a b m" "length buff = 65535"
  obtains frame where "server_frame buff (msg m) = Some frame" "is_reply_frame f a b frame"
proof -
  have "wf_hdr (msg m)" "82 \<le> length buff" "c_str (function_name (msg m)) = Some (rop_name f)"
    using assms by (auto simp: is_reply_def intro: wf_hdr_request)
  then obtain frame where "server_frame buff (msg m) = Some frame"
    "frame_holds frame mac_client_stub mac_server_stub (rop_name f) (opcode (msg m))
       (arg1 (arguments (msg m))) (arg2 (arguments (msg m)))"
    "get32 70 frame = Some (return_val (msg m))"
    by (rule server_frame_ok)
  with that assms(1) show ?thesis unfolding is_reply_def is_reply_frame_def by blast
qed

lemma request_extract:
  assumes "is_request_frame f a b frame" "length (function_name rpc0) = 10"
  obtains r where "server_extract_rpc frame rpc0 = Some r" "length (function_name r) = 10"
    "c_str (function_name r) = Some (rop_name f)" "arguments r = \<lparr>arg1 = low16 a, arg2 = low16 b\<rparr>"
proof -
  obtain opc where h: "frame_holds frame mac_server_stub mac_client_stub (rop_name f) opc (htons_int a) (htons_int b)"
    using assms(1) by (auto simp: is_request_frame_def)
  show ?thesis by (rule server_extract_ok [OF h _ assms(2)]) (use that in auto)
qed

lemma reply_extract:
  assumes "is_reply_frame f a b frame" "length (function_name rpc0) = 10"
  obtains r where "client_extract_rpc frame rpc0 = Some r" "return_val r = rop_result f a b"
proof -
  obtain opc x y rv where h: "frame_holds frame mac_client_stub mac_server_stub (rop_name f) opc x y"
      "get32 70 frame = Some rv" "ntohs_int rv = rop_result f a b"
    using assms(1) by (auto simp: is_reply_frame_def)
  show ?thesis by (rule client_extract_ok [OF h(1) _ assms(2) h(2)]) (use that h(3) in auto)
qed

lemma server_reply_ok:
  assumes "is_request 2 f (low16 a) (low16 b) m"
  obtains m' where "server_reply m = Some m'" "is_reply f a b m'"
  using assms that
  by (cases f) (auto simp: is_request_def is_reply_def server_reply_def wf_msg_def Let_def
    low16_add low16_diff bytes_of_def)

end
