(* ===== verification/RpcCorrect.thy ===== *)
theory RpcCorrect
  imports RpcSystem
begin

text \<open>
  Correctness of the endlab system.  Only one process can move at a time apart from the start
  of an iteration and the client's input: a request travels through twelve phases, described
  by \<open>at_phase\<close>, and every step of every process leads from a phase to a phase.
\<close>

section \<open>Where each process can be\<close>

definition client_wait :: "rop \<Rightarrow> u32 \<Rightarrow> u32 \<Rightarrow> rpc_prog" where
  "client_wait f a b = Call (Msgrcv 28 4) (\<lambda>r. if rc r = -1 then Exit 1 else
     Call (Printf (rop_fmt f) [a, b, return_val (msg (rmsg r))]) (\<lambda>_. Ret ()))"

definition client_choose :: "mymsg \<Rightarrow> u32 \<Rightarrow> u32 \<Rightarrow> u32 \<Rightarrow> rpc_prog" where
  "client_choose m opt a b =
     (if opt = 1 then add m a b else if opt = 2 then subtract m a b
      else Call (Printf ''Invalid option'' []) (\<lambda>_. Ret ()))"

text \<open>
  A client with no request under way: \<open>w\<close> bounds the steps its pending call costs the system,
  and \<open>F input\<close> are the lines it still owes when \<open>input\<close> is left to read.
\<close>

inductive client_free :: "nat \<Rightarrow> (u32 list \<Rightarrow> line list) \<Rightarrow> rpc_prog \<Rightarrow> bool" where
  "client_free 0 answers (Ret ())"
| "wf_msg m \<Longrightarrow> client_free 0 answers (client_body m)"
| "wf_msg m \<Longrightarrow> client_free 0 (\<lambda>xs. answers (opt # xs))
     (Call Scanf (\<lambda>a. Call Scanf (\<lambda>b. client_choose m opt (rint a) (rint b))))"
| "wf_msg m \<Longrightarrow> client_free 0 (\<lambda>xs. answers (opt # a # xs))
     (Call Scanf (\<lambda>b. client_choose m opt a (rint b)))"
| "is_request 1 f (htons_int a) (htons_int b) m \<Longrightarrow> client_free 26 (\<lambda>xs. rop_line f a b # answers xs)
     (Call (Msgsnd m 28) (\<lambda>r. if rc r = -1 then Exit 1 else client_wait f a b))"
| "client_free 2 (\<lambda>xs. (fmt, args) # answers xs) (Call (Printf fmt args) (\<lambda>_. Ret ()))"

inductive cs_idle :: "rpc_prog \<Rightarrow> bool" where
  "cs_idle (Ret ())"
| "length buff = 65535 \<Longrightarrow> length (function_name rpc0) = 10 \<Longrightarrow> cs_idle (client_stub_body buff rpc0)"

inductive cs_inject :: "rop \<Rightarrow> u32 \<Rightarrow> u32 \<Rightarrow> rpc_prog \<Rightarrow> bool" where
  "is_request_frame f a b frame \<Longrightarrow> length (function_name rpc0) = 10 \<Longrightarrow>
   cs_inject f a b (Call (PcapInject frame) (\<lambda>r. if rc r = -1 then Exit 1 else client_stub_reply m rpc0))"

inductive cs_waiting :: "rpc_prog \<Rightarrow> bool" where
  "length (function_name rpc0) = 10 \<Longrightarrow> cs_waiting (client_stub_reply m rpc0)"

inductive cs_answer :: "rop \<Rightarrow> u32 \<Rightarrow> u32 \<Rightarrow> rpc_prog \<Rightarrow> bool" where
  "is_answer f a b m \<Longrightarrow>
   cs_answer f a b (Call (Msgsnd m 28) (\<lambda>r. if rc r = -1 then Exit 1 else Ret ()))"

inductive ss_idle :: "rpc_prog \<Rightarrow> bool" where
  "ss_idle (Ret ())"
| "length buff = 65535 \<Longrightarrow> length (function_name rpc0) = 10 \<Longrightarrow> wf_msg m \<Longrightarrow>
   ss_idle (server_stub_body buff rpc0 m)"

definition ss_wait :: "bytes \<Rightarrow> rpc_prog" where
  "ss_wait buff = Call (Msgrcv 40 3) (\<lambda>r. if rc r = -1 then Exit 1 else
     need (server_frame buff (msg (rmsg r))) (\<lambda>frame.
     Call (PcapInject frame) (\<lambda>r. if rc r = -1 then Exit 1 else Ret ())))"

inductive ss_forward :: "rop \<Rightarrow> u32 \<Rightarrow> u32 \<Rightarrow> rpc_prog \<Rightarrow> bool" where
  "is_request 2 f (low16 a) (low16 b) m \<Longrightarrow> length buff = 65535 \<Longrightarrow>
   ss_forward f a b (Call (Msgsnd m 40) (\<lambda>r. if rc r = -1 then Exit 1 else ss_wait buff))"

inductive ss_waiting :: "rpc_prog \<Rightarrow> bool" where
  "length buff = 65535 \<Longrightarrow> ss_waiting (ss_wait buff)"

inductive ss_inject :: "rop \<Rightarrow> u32 \<Rightarrow> u32 \<Rightarrow> rpc_prog \<Rightarrow> bool" where
  "is_reply_frame f a b frame \<Longrightarrow>
   ss_inject f a b (Call (PcapInject frame) (\<lambda>r. if rc r = -1 then Exit 1 else Ret ()))"

inductive sv_idle :: "rpc_prog \<Rightarrow> bool" where
  "sv_idle (Ret ())"
| "sv_idle server_body"

inductive sv_reply :: "rop \<Rightarrow> u32 \<Rightarrow> u32 \<Rightarrow> rpc_prog \<Rightarrow> bool" where
  "is_reply f a b m \<Longrightarrow>
   sv_reply f a b (Call (Msgsnd m 28) (\<lambda>r. if rc r = -1 then Exit 1 else Ret ()))"

section \<open>The phases\<close>

definition chans :: "kernel \<Rightarrow> queue \<times> bytes list \<times> queue \<times> bytes list" where
  "chans k = (cq k, to_server k, sq k, to_client k)"

definition cs_at :: "nat \<Rightarrow> rop \<Rightarrow> u32 \<Rightarrow> u32 \<Rightarrow> rpc_prog \<Rightarrow> bool" where
  "cs_at i f a b q =
     (if i = 0 \<or> i = 10 then cs_idle q else if i = 1 then cs_inject f a b q
      else if i = 9 then cs_answer f a b q else cs_waiting q)"

definition ss_at :: "nat \<Rightarrow> rop \<Rightarrow> u32 \<Rightarrow> u32 \<Rightarrow> rpc_prog \<Rightarrow> bool" where
  "ss_at i f a b q =
     (if i < 3 \<or> 8 \<le> i then ss_idle q else if i = 3 then ss_forward f a b q
      else if i = 7 then ss_inject f a b q else ss_waiting q)"

definition sv_at :: "nat \<Rightarrow> rop \<Rightarrow> u32 \<Rightarrow> u32 \<Rightarrow> rpc_prog \<Rightarrow> bool" where
  "sv_at i f a b q = (if i = 5 then sv_reply f a b q else sv_idle q)"

inductive chans_at :: "nat \<Rightarrow> rop \<Rightarrow> u32 \<Rightarrow> u32 \<Rightarrow> queue \<times> bytes list \<times> queue \<times> bytes list \<Rightarrow> bool"
  where
  "is_request 1 f (htons_int a) (htons_int b) m \<Longrightarrow> chans_at 0 f a b ([(m, 28)], [], [], [])"
| "is_request_frame f a b fr \<Longrightarrow> chans_at 2 f a b ([], [fr], [], [])"
| "is_request 2 f (low16 a) (low16 b) m \<Longrightarrow> chans_at 4 f a b ([], [], [(m, 40)], [])"
| "is_reply f a b m \<Longrightarrow> chans_at 6 f a b ([], [], [(m, 28)], [])"
| "is_reply_frame f a b fr \<Longrightarrow> chans_at 8 f a b ([], [], [], [fr])"
| "is_answer f a b m \<Longrightarrow> chans_at 10 f a b ([(m, 28)], [], [], [])"
| "i \<in> {1, 3, 5, 7, 9} \<Longrightarrow> chans_at i f a b ([], [], [], [])"

text \<open>The server side prints nothing.\<close>

primrec silent :: "rpc_prog \<Rightarrow> bool" where
  "silent (Ret a) = True"
| "silent (Exit n) = True"
| "silent Ub = True"
| "silent (Call c k) = ((\<forall>fmt args. c \<noteq> Printf fmt args) \<and> (\<forall>r. silent (k r)))"

lemma silent_need [simp]: "silent (need x f) \<longleftrightarrow> (\<forall>v. x = Some v \<longrightarrow> silent (f v))"
  by (cases x) simp_all

lemma silent_server_side [simp]: "silent (server_stub_body buff rpc0 m)" "silent (ss_wait buff)" "silent server_body"
  by (simp_all add: server_stub_body_def ss_wait_def server_body_def split: option.split)

lemma silent_iteration: "iteration ServerStub q \<Longrightarrow> silent q" "iteration Server q \<Longrightarrow> silent q"
  by auto

lemma silent_at: "ss_at i f a b q \<Longrightarrow> silent q" "sv_at i f a b q \<Longrightarrow> silent q"
  by (auto simp: ss_at_def sv_at_def split: if_splits
      elim: ss_idle.cases ss_forward.cases ss_waiting.cases ss_inject.cases sv_idle.cases sv_reply.cases)

text \<open>Such a process leaves the terminal alone.\<close>

lemma quiet_step:
  assumes "(r, k) \<in> set (kernel_step tmo p c kk)" "silent (Call c g)" "c \<noteq> Scanf"
  shows "printed k = printed kk" "stdin k = stdin kk"
  using assms
  by (cases c; auto simp: queue_of_def set_queue_def packets_of_def drop_packet_def capture_def
      split: pid.splits option.splits list.splits if_splits)+

datatype phase = Free nat | Busy nat rop u32 u32 | Lost

text \<open>
  \<open>T\<close> is everything the user should see in the end.  The phase \<open>Lost\<close> is only reached when
  \<open>pcap_next\<close> times out before the reply is there.
\<close>

fun at_phase :: "line list \<Rightarrow> phase \<Rightarrow> rpc_sys \<Rightarrow> bool" where
  "at_phase T (Free w) s \<longleftrightarrow>
     (\<exists>F. client_free w F (procs s Client) \<and> printed (kern s) @ F (stdin (kern s)) = T) \<and>
     cs_idle (procs s ClientStub) \<and> ss_idle (procs s ServerStub) \<and> sv_idle (procs s Server) \<and>
     chans (kern s) = ([], [], [], [])"
| "at_phase T (Busy i f a b) s \<longleftrightarrow> procs s Client = client_wait f a b \<and>
     printed (kern s) @ rop_line f a b # answers (stdin (kern s)) = T \<and>
     cs_at i f a b (procs s ClientStub) \<and> ss_at i f a b (procs s ServerStub) \<and>
     sv_at i f a b (procs s Server) \<and> chans_at i f a b (chans (kern s))"
| "at_phase T Lost s \<longleftrightarrow> (\<exists>f a b. procs s Client = client_wait f a b) \<and>
     cs_idle (procs s ClientStub) \<and> silent (procs s ServerStub) \<and> silent (procs s Server) \<and>
     cq (kern s) = [] \<and> (\<exists>ls. T = printed (kern s) @ ls)"

text \<open>How many steps are left at most, when nothing is lost.\<close>

fun phase_rank :: "phase \<Rightarrow> nat" where
  "phase_rank (Free w) = w"
| "phase_rank (Busy i f a b) = 24 - 2 * i"
| "phase_rank Lost = 0"

definition rank :: "phase \<Rightarrow> kernel \<Rightarrow> nat" where
  "rank ph k = phase_rank ph + 30 * length (stdin k)"

section \<open>One lemma per process\<close>

text \<open>What a process at a given place can do: its only call, and where a response leads.\<close>

lemma answer_rop: "answer 1 a b = rop_line Add a b" "answer 2 a b = rop_line Sub a b"
  by (simp_all add: answer_def rop_line_def)

lemma need_strcpy:
  assumes "wf_msg m" "length n \<le> 9" "0 \<notin> set n"
  shows "\<exists>fn. strcpy (function_name (msg m)) n = Some fn \<and> length fn = 10 \<and> c_str fn = Some n"
  using assms strcpy_name [of "function_name (msg m)" n] unfolding wf_msg_def by blast

lemma client_choose_free:
  assumes m: "wf_msg m"
  shows "\<exists>w \<le> 26. client_free w (\<lambda>xs. answers (opt # a # b # xs)) (client_choose m opt a b)"
proof -
  obtain f1 where f1: "strcpy (function_name (msg m)) (rop_name Add) = Some f1" "length f1 = 10"
      "c_str f1 = Some (rop_name Add)"
    using need_strcpy [OF m, of "rop_name Add"] by (metis length_rop_name(1) rop_name_nonzero)
  obtain f2 where f2: "strcpy (function_name (msg m)) (rop_name Sub) = Some f2" "length f2 = 10"
      "c_str f2 = Some (rop_name Sub)"
    using need_strcpy [OF m, of "rop_name Sub"] by (metis length_rop_name(1) rop_name_nonzero)
  let ?args = "\<lparr>arg1 = htons_int a, arg2 = htons_int b\<rparr>"
  have "add m a b = Call (Msgsnd (m\<lparr>mtype := 1, msg := (msg m)\<lparr>function_name := f1, opcode := htons_int 1,
      arguments := ?args\<rparr>\<rparr>) 28) (\<lambda>r. if rc r = -1 then Exit 1 else client_wait Add a b)"
    unfolding add_def client_wait_def using f1 by (simp cong: if_cong)
  then have "client_free 26 (\<lambda>xs. rop_line Add a b # answers xs) (add m a b)"
    using f1 by (auto simp: is_request_def wf_msg_def intro: client_free.intros(5))
  moreover have "subtract m a b = Call (Msgsnd (m\<lparr>mtype := 1, msg := (msg m)\<lparr>function_name := f2, opcode := htons_int 1,
      arguments := ?args\<rparr>\<rparr>) 28) (\<lambda>r. if rc r = -1 then Exit 1 else client_wait Sub a b)"
    unfolding subtract_def client_wait_def using f2 by (simp cong: if_cong)
  then have "client_free 26 (\<lambda>xs. rop_line Sub a b # answers xs) (subtract m a b)"
    using f2 by (auto simp: is_request_def wf_msg_def intro: client_free.intros(5))
  moreover have "client_free 2 (\<lambda>xs. (''Invalid option'', []) # answers xs)
      (Call (Printf ''Invalid option'' []) (\<lambda>_. Ret ()))"
    by (rule client_free.intros(6))
  ultimately show ?thesis
    by (intro exI [of _ "if opt = 1 \<or> opt = 2 then 26 else 2"])
       (auto simp: client_choose_def answer_def [of opt] rop_line_def)
qed

lemma client_free_scan_answers:
  "wf_msg m \<Longrightarrow> \<exists>w \<le> 26. \<exists>F. client_free w F
     (Call Scanf (\<lambda>a. Call Scanf (\<lambda>b. client_choose m (rint r) (rint a) (rint b)))) \<and> F xs = answers (rint r # xs)"
  "wf_msg m \<Longrightarrow> \<exists>w \<le> 26. \<exists>F. client_free w F
     (Call Scanf (\<lambda>b. client_choose m opt (rint r) (rint b))) \<and> F xs = answers (opt # rint r # xs)"
  "wf_msg m \<Longrightarrow> \<exists>w \<le> 26. \<exists>F. client_free w F (client_choose m opt a (rint r)) \<and>
     F xs = answer opt a (rint r) # answers xs"
proof -
  assume m: "wf_msg m"
  from client_free.intros(3) [OF m, of "rint r"] show "\<exists>w \<le> 26. \<exists>F. client_free w F
     (Call Scanf (\<lambda>a. Call Scanf (\<lambda>b. client_choose m (rint r) (rint a) (rint b)))) \<and> F xs = answers (rint r # xs)"
    by (intro exI [of _ 0] conjI exI) auto
  from client_free.intros(4) [OF m, of opt "rint r"] show "\<exists>w \<le> 26. \<exists>F. client_free w F
     (Call Scanf (\<lambda>b. client_choose m opt (rint r) (rint b))) \<and> F xs = answers (opt # rint r # xs)"
    by (intro exI [of _ 0] conjI exI) auto
  from client_choose_free [OF m, of opt a "rint r"] obtain w where w: "w \<le> 26"
      "client_free w (\<lambda>xs. answers (opt # a # rint r # xs)) (client_choose m opt a (rint r))" by blast
  then show "\<exists>w \<le> 26. \<exists>F. client_free w F (client_choose m opt a (rint r)) \<and>
     F xs = answer opt a (rint r) # answers xs"
    by (intro exI [of _ w] conjI exI [of _ "\<lambda>xs. answers (opt # a # rint r # xs)"]) auto
qed

lemma client_free_call:
  assumes "client_free w F (Call c g)"
  shows "(c = Scanf \<and> F [] = [] \<and>
      (\<forall>r xs. \<exists>w' \<le> 26. \<exists>F'. client_free w' F' (g r) \<and> F' xs = F (rint r # xs))) \<or>
    (\<exists>f a b m. c = Msgsnd m 28 \<and> is_request 1 f (htons_int a) (htons_int b) m \<and> w = 26 \<and>
      F = (\<lambda>xs. rop_line f a b # answers xs) \<and> g ok = client_wait f a b) \<or>
    (\<exists>fmt args. c = Printf fmt args \<and> w = 2 \<and> F = (\<lambda>xs. (fmt, args) # answers xs) \<and> g ok = Ret ())"
  using assms
  by cases (auto simp: client_body_def client_choose_def [symmetric] ok_def client_free_scan_answers)

lemma client_wait_call:
  "client_wait f a b = Call c g \<Longrightarrow> c = Msgrcv 28 4 \<and>
     (\<forall>m. is_answer f a b m \<longrightarrow> client_free 2 (\<lambda>xs. rop_line f a b # answers xs) (g (ok\<lparr>rmsg := m\<rparr>)))"
  by (auto simp: client_wait_def ok_def is_answer_def rop_line_def intro: client_free.intros(6))

lemma cs_idle_call:
  assumes "cs_idle (Call c g)"
  shows "c = Msgrcv 28 1 \<and> (\<forall>f a b m. is_request 1 f (htons_int a) (htons_int b) m \<longrightarrow>
    cs_inject f a b (g (ok\<lparr>rmsg := m\<rparr>)))"
  using assms
proof cases
  case (2 buff rpc0)
  have "cs_inject f a b (g (ok\<lparr>rmsg := m\<rparr>))" if m: "is_request 1 f (htons_int a) (htons_int b) m" for f a b m
  proof -
    obtain frame where "client_frame buff (msg m) = Some frame" "is_request_frame f a b frame"
      using request_frame_ok [OF m 2(2)] .
    then show ?thesis
      using 2 cs_inject.intros [of f a b frame rpc0 m]
      by (simp add: client_stub_body_def ok_def cong: if_cong)
  qed
  with 2 show ?thesis by (simp add: client_stub_body_def)
qed

lemma cs_inject_call:
  "cs_inject f a b (Call c g) \<Longrightarrow> \<exists>frame. c = PcapInject frame \<and> is_request_frame f a b frame \<and> cs_waiting (g ok)"
  by (auto elim!: cs_inject.cases simp: ok_def intro: cs_waiting.intros)

lemma cs_waiting_call:
  assumes "cs_waiting (Call c g)"
  shows "c = PcapNext \<and> g ok = Ret () \<and>
    (\<forall>f a b fr. is_reply_frame f a b fr \<longrightarrow> cs_answer f a b (g (ok\<lparr>rpkt := Some fr\<rparr>)))"
  using assms
proof cases
  case (1 rpc0 m)
  have "cs_answer f a b (g (ok\<lparr>rpkt := Some fr\<rparr>))" if fr: "is_reply_frame f a b fr" for f a b fr
  proof -
    obtain r where "client_extract_rpc fr rpc0 = Some r" "return_val r = rop_result f a b"
      using reply_extract [OF fr 1(2)] .
    then show ?thesis
      using 1 by (auto simp: client_stub_reply_def ok_def is_answer_def intro!: cs_answer.intros)
  qed
  with 1 show ?thesis by (simp add: client_stub_reply_def ok_def)
qed

lemma cs_answer_call:
  "cs_answer f a b (Call c g) \<Longrightarrow> \<exists>m. c = Msgsnd m 28 \<and> is_answer f a b m \<and> g ok = Ret ()"
  by (auto elim!: cs_answer.cases simp: ok_def)

lemma ss_idle_call:
  assumes "ss_idle (Call c g)"
  shows "c = PcapNext \<and> g ok = Ret () \<and>
    (\<forall>f a b fr. is_request_frame f a b fr \<longrightarrow> ss_forward f a b (g (ok\<lparr>rpkt := Some fr\<rparr>)))"
  using assms
proof cases
  case (2 buff rpc0 m)
  have "ss_forward f a b (g (ok\<lparr>rpkt := Some fr\<rparr>))" if fr: "is_request_frame f a b fr" for f a b fr
  proof -
    obtain r where r: "server_extract_rpc fr rpc0 = Some r" "length (function_name r) = 10"
        "c_str (function_name r) = Some (rop_name f)" "arguments r = \<lparr>arg1 = low16 a, arg2 = low16 b\<rparr>"
      using request_extract [OF fr 2(3)] .
    obtain fn where fn: "strcpy (function_name (msg m)) (rop_name f) = Some fn" "length fn = 10"
        "c_str fn = Some (rop_name f)"
      using need_strcpy [OF 2(4), of "rop_name f"] by auto
    let ?m = "m\<lparr>mtype := 2, msg := (msg m)\<lparr>function_name := fn, opcode := opcode r, arguments := arguments r\<rparr>\<rparr>"
    have "is_request 2 f (low16 a) (low16 b) ?m" using r fn by (simp add: is_request_def wf_msg_def)
    then show ?thesis
      using 2 r fn ss_forward.intros [of f a b ?m buff, unfolded ss_wait_def]
      by (simp add: server_stub_body_def ok_def)
  qed
  with 2 show ?thesis by (simp add: server_stub_body_def ok_def)
qed

lemma ss_forward_call:
  "ss_forward f a b (Call c g) \<Longrightarrow>
   \<exists>m. c = Msgsnd m 40 \<and> is_request 2 f (low16 a) (low16 b) m \<and> ss_waiting (g ok)"
  by (auto elim!: ss_forward.cases simp: ok_def intro: ss_waiting.intros)

lemma ss_waiting_call:
  assumes "ss_waiting (Call c g)"
  shows "c = Msgrcv 40 3 \<and> (\<forall>f a b m. is_reply f a b m \<longrightarrow> ss_inject f a b (g (ok\<lparr>rmsg := m\<rparr>)))"
  using assms
proof cases
  case (1 buff)
  have "ss_inject f a b (g (ok\<lparr>rmsg := m\<rparr>))" if m: "is_reply f a b m" for f a b m
  proof -
    obtain frame where "server_frame buff (msg m) = Some frame" "is_reply_frame f a b frame"
      using reply_frame_ok [OF m 1(2)] .
    then show ?thesis using 1 by (auto simp: ss_wait_def ok_def intro!: ss_inject.intros)
  qed
  with 1 show ?thesis by (simp add: ss_wait_def)
qed

lemma ss_inject_call:
  "ss_inject f a b (Call c g) \<Longrightarrow> \<exists>frame. c = PcapInject frame \<and> is_reply_frame f a b frame \<and> g ok = Ret ()"
  by (auto elim!: ss_inject.cases simp: ok_def)

lemma sv_idle_call:
  assumes "sv_idle (Call c g)"
  shows "c = Msgrcv 40 2 \<and> (\<forall>f a b m. is_request 2 f (low16 a) (low16 b) m \<longrightarrow> sv_reply f a b (g (ok\<lparr>rmsg := m\<rparr>)))"
  using assms
proof cases
  case 2
  have "sv_reply f a b (g (ok\<lparr>rmsg := m\<rparr>))" if m: "is_request 2 f (low16 a) (low16 b) m" for f a b m
  proof -
    obtain m' where "server_reply m = Some m'" "is_reply f a b m'" using server_reply_ok [OF m] .
    then show ?thesis using 2 by (auto simp: server_body_def ok_def intro!: sv_reply.intros)
  qed
  with 2 show ?thesis by (simp add: server_body_def)
qed

lemma sv_reply_call:
  "sv_reply f a b (Call c g) \<Longrightarrow> \<exists>m. c = Msgsnd m 28 \<and> is_reply f a b m \<and> g ok = Ret ()"
  by (auto elim!: sv_reply.cases simp: ok_def)

section \<open>Every step keeps the invariant\<close>

inductive_simps places_Ret [simp]:
  "cs_inject f a b (Ret ())" "cs_answer f a b (Ret ())"
  "ss_forward f a b (Ret ())" "ss_inject f a b (Ret ())" "sv_reply f a b (Ret ())"

lemma places_wait_Ret [simp]: "\<not> cs_waiting (Ret ())" "\<not> ss_waiting (Ret ())" "client_wait f a b \<noteq> Ret ()" "Ret () \<noteq> client_wait f a b"
  by (auto elim!: cs_waiting.cases ss_waiting.cases simp: client_stub_reply_def ss_wait_def client_wait_def)

lemma idle_Ret [simp]: "cs_idle (Ret ())" "ss_idle (Ret ())" "sv_idle (Ret ())"
  by (auto intro: cs_idle.intros ss_idle.intros sv_idle.intros)

lemma client_free_RetD: "client_free w F (Ret ()) \<Longrightarrow> w = 0 \<and> F = answers"
  by (auto elim: client_free.cases simp: client_body_def)

lemma iteration_idle:
  "iteration Client q \<Longrightarrow> client_free 0 answers q" "iteration ClientStub q \<Longrightarrow> cs_idle q"
  "iteration ServerStub q \<Longrightarrow> ss_idle q" "iteration Server q \<Longrightarrow> sv_idle q"
  by (auto intro: client_free.intros cs_idle.intros ss_idle.intros sv_idle.intros)

lemma iteration_at:
  "iteration ClientStub q \<Longrightarrow> cs_at i f a b (Ret ()) \<Longrightarrow> cs_at i f a b q"
  "iteration ServerStub q \<Longrightarrow> ss_at i f a b (Ret ()) \<Longrightarrow> ss_at i f a b q"
  "iteration Server q \<Longrightarrow> sv_at i f a b (Ret ()) \<Longrightarrow> sv_at i f a b q"
  by (auto simp: cs_at_def ss_at_def sv_at_def simp del: iteration.simps
      dest: iteration_idle split: if_splits)

lemma loop_keeps_phase:
  assumes "at_phase T ph s" "procs s p = Ret ()" "iteration p q"
  shows "at_phase T ph (s\<lparr>procs := (procs s)(p := q)\<rparr>)"
proof (cases ph)
  case (Free w)
  then show ?thesis using assms iteration_idle [of q] client_free_RetD [of w]
    by (cases p) (auto simp del: iteration.simps)
next
  case (Busy i f a b)
  then show ?thesis using assms iteration_idle [of q] iteration_at [of q]
    by (cases p) (simp_all del: iteration.simps)
next
  case Lost
  then show ?thesis using assms iteration_idle(2) [of q]
    by (cases p) (auto simp del: iteration.simps simp: silent_iteration)
qed

text \<open>What a step leads to: a phase, of a lower rank as long as nothing is lost.\<close>

definition next_sys :: "rpc_sys \<Rightarrow> pid \<Rightarrow> kernel \<Rightarrow> rpc_prog \<Rightarrow> rpc_sys" where
  "next_sys s p k q = s\<lparr>kern := k, procs := (procs s)(p := q)\<rparr>"

lemma next_sys_simps [simp]:
  "kern (next_sys s p k q) = k" "procs (next_sys s p k q) = (procs s)(p := q)"
  by (simp_all add: next_sys_def)

definition step_ok :: "bool \<Rightarrow> line list \<Rightarrow> phase \<Rightarrow> rpc_sys \<Rightarrow> pid \<Rightarrow> kernel \<Rightarrow> rpc_prog \<Rightarrow> bool" where
  "step_ok tmo T ph s p k q \<longleftrightarrow> (\<exists>ph'. at_phase T ph' (next_sys s p k q) \<and>
     (tmo \<or> ph' \<noteq> Lost \<and> rank ph' k + 2 \<le> rank ph (kern s)))"

lemma step_okI:
  "at_phase T ph' (next_sys s p k q) \<Longrightarrow> tmo \<or> ph' \<noteq> Lost \<and> rank ph' k + 2 \<le> rank ph (kern s) \<Longrightarrow>
   step_ok tmo T ph s p k q"
  by (auto simp: step_ok_def)

lemmas chan_defs = chans_def queue_of_def set_queue_def packets_of_def drop_packet_def

lemmas at_defs = cs_at_def ss_at_def sv_at_def

text \<open>
  One lemma per process and phase.  Where a process has nothing to do in a phase, its call
  blocks, so that no response is there.
\<close>

lemma client_step_Free:
  assumes "at_phase T (Free w) s" "procs s Client = Call c g" "(r, k) \<in> set (kernel_step tmo Client c (kern s))"
  shows "step_ok tmo T (Free w) s Client k (g r)"
proof -
  obtain F where F: "client_free w F (Call c g)" "printed (kern s) @ F (stdin (kern s)) = T"
    using assms(1,2) by auto
  from client_free_call [OF F(1)] consider
      (scan) "c = Scanf" "\<forall>r xs. \<exists>w' \<le> 26. \<exists>F'. client_free w' F' (g r) \<and> F' xs = F (rint r # xs)"
    | (send) f a b m where "c = Msgsnd m 28" "is_request 1 f (htons_int a) (htons_int b) m" "w = 26"
        "F = (\<lambda>xs. rop_line f a b # answers xs)" "g ok = client_wait f a b"
    | (print) fmt args where "c = Printf fmt args" "w = 2" "F = (\<lambda>xs. (fmt, args) # answers xs)" "g ok = Ret ()"
    by blast
  then show ?thesis
  proof cases
    case scan
    then obtain x xs where x: "stdin (kern s) = x # xs" "r = ok\<lparr>rint := x\<rparr>" "k = (kern s)\<lparr>stdin := xs\<rparr>"
      using assms(3) by (cases "stdin (kern s)") auto
    obtain w' F' where "w' \<le> 26" "client_free w' F' (g r)" "F' xs = F (rint r # xs)"
      using scan(2) by blast
    with x F(2) assms(1,2) show ?thesis
      by (intro step_okI [of T "Free w'"]) (auto simp: chans_def rank_def)
  next
    case send
    with F(2) assms show ?thesis
      by (intro step_okI [of T "Busy 0 f a b"])
         (auto simp: chan_defs at_defs rank_def intro: chans_at.intros)
  next
    case print
    with F(2) assms show ?thesis
      by (intro step_okI [of T "Free 0"]) (auto simp: chans_def rank_def intro: client_free.intros)
  qed
qed

lemma client_step_Busy:
  assumes "at_phase T (Busy i f a b) s" "procs s Client = Call c g"
    and "(r, k) \<in> set (kernel_step tmo Client c (kern s))"
  shows "step_ok tmo T (Busy i f a b) s Client k (g r)"
proof -
  have "client_wait f a b = Call c g" using assms(1,2) by simp
  from client_wait_call [OF this] have c: "c = Msgrcv 28 4" and g: "\<And>m. is_answer f a b m \<Longrightarrow>
      client_free 2 (\<lambda>xs. rop_line f a b # answers xs) (g (ok\<lparr>rmsg := m\<rparr>))" by auto
  have "chans_at i f a b (chans (kern s))" using assms(1) by simp
  then obtain m where "i = 10" "is_answer f a b m" "chans (kern s) = ([(m, 28)], [], [], [])"
    using assms(3) c
    by cases (auto simp: chan_defs is_request_def split: if_splits option.splits)
  moreover from this have k: "r = ok\<lparr>rmsg := m\<rparr>" "k = (kern s)\<lparr>cq := []\<rparr>"
    using assms(3) c by (auto simp: chan_defs is_answer_def)
  ultimately show ?thesis
    using assms(1) g [of m] by (intro step_okI [of T "Free 2"]) (auto simp: chans_def at_defs rank_def)
qed

lemma client_step_Lost:
  "at_phase T Lost s \<Longrightarrow> procs s Client = Call c g \<Longrightarrow> kernel_step tmo Client c (kern s) = []"
  by (auto simp: queue_of_def dest!: client_wait_call [OF sym])

lemma cs_step_Free:
  "at_phase T (Free w) s \<Longrightarrow> procs s ClientStub = Call c g \<Longrightarrow> kernel_step tmo ClientStub c (kern s) = []"
  using cs_idle_call [of c g] by (auto simp: chan_defs)

lemma cs_step_Lost:
  "at_phase T Lost s \<Longrightarrow> procs s ClientStub = Call c g \<Longrightarrow> kernel_step tmo ClientStub c (kern s) = []"
  using cs_idle_call [of c g] by (auto simp: queue_of_def)

lemma cs_step_Busy:
  assumes "at_phase T (Busy i f a b) s" "procs s ClientStub = Call c g"
    and "(r, k) \<in> set (kernel_step tmo ClientStub c (kern s))"
  shows "step_ok tmo T (Busy i f a b) s ClientStub k (g r)"
proof -
  have ch: "chans_at i f a b (chans (kern s))" and cs: "cs_at i f a b (Call c g)"
    using assms(1,2) by simp_all
  consider "i = 0 \<or> i = 10" | "i = 1" | "i = 9" | "i \<noteq> 0" "i \<noteq> 10" "i \<noteq> 1" "i \<noteq> 9" by blast
  then show ?thesis
  proof cases
    case 1
    then have c: "c = Msgrcv 28 1" using cs cs_idle_call [of c g] by (auto simp: cs_at_def)
    with ch assms(3) 1 obtain m where m: "i = 0" "is_request 1 f (htons_int a) (htons_int b) m"
        "r = ok\<lparr>rmsg := m\<rparr>" "k = (kern s)\<lparr>cq := []\<rparr>" "chans (kern s) = ([(m, 28)], [], [], [])"
      by cases (auto simp: chan_defs is_answer_def is_request_def split: if_splits)
    then show ?thesis
      using assms(1) cs cs_idle_call [of c g]
      by (intro step_okI [of T "Busy 1 f a b"]) (auto simp: chans_def at_defs rank_def intro: chans_at.intros)
  next
    case 2
    then obtain fr where c: "c = PcapInject fr" "is_request_frame f a b fr" "cs_waiting (g ok)"
      using cs cs_inject_call [of f a b c g] by (auto simp: cs_at_def)
    then have "peek 6 6 fr = Some mac_client_stub" by (auto simp: is_request_frame_def frame_holds_def)
    then have k: "r = ok" "k = (kern s)\<lparr>to_server := to_server (kern s) @ [fr]\<rparr>"
      using assms(3) c by (auto simp: capture_def mac_client_stub_def mac_server_stub_def)
    have "chans (kern s) = ([], [], [], [])" using ch 2 by (auto elim: chans_at.cases)
    then show ?thesis
      using assms(1) c k 2
      by (intro step_okI [of T "Busy 2 f a b"]) (auto simp: chans_def at_defs rank_def intro: chans_at.intros)
  next
    case 3
    then obtain m where c: "c = Msgsnd m 28" "is_answer f a b m" "g ok = Ret ()"
      using cs cs_answer_call [of f a b c g] by (auto simp: cs_at_def)
    have "chans (kern s) = ([], [], [], [])" using ch 3 by (auto elim: chans_at.cases)
    then show ?thesis
      using assms c 3
      by (intro step_okI [of T "Busy 10 f a b"]) (auto simp: chan_defs at_defs rank_def intro: chans_at.intros)
  next
    case 4
    then have w: "c = PcapNext" "g ok = Ret ()"
        "\<And>fr. is_reply_frame f a b fr \<Longrightarrow> cs_answer f a b (g (ok\<lparr>rpkt := Some fr\<rparr>))"
      using cs cs_waiting_call [of c g] by (auto simp: cs_at_def)
    show ?thesis
    proof (cases "to_client (kern s) = []")
      case True
      then have "tmo" "r = ok" "k = kern s"
        using assms(3) w(1) by (auto simp: packets_of_def split: if_splits)
      moreover have "cq (kern s) = []" using ch 4 by cases (auto simp: chans_def)
      ultimately show ?thesis
        using assms(1) w silent_at [of i f a b]
        by (intro step_okI [of T Lost]) auto
    next
      case False
      with ch assms(3) w(1) obtain fr where fr: "i = 8" "is_reply_frame f a b fr" "r = ok\<lparr>rpkt := Some fr\<rparr>"
          "k = (kern s)\<lparr>to_client := []\<rparr>" "chans (kern s) = ([], [], [], [fr])"
        by cases (auto simp: chan_defs)
      then show ?thesis
        using assms(1) w
        by (intro step_okI [of T "Busy 9 f a b"]) (auto simp: chans_def at_defs rank_def intro: chans_at.intros)
    qed
  qed
qed

text \<open>The server stub may time out whenever it has no packet: it stays idle.\<close>

lemma ss_idle_step:
  assumes "ss_idle (Call c g)" "to_server kk = []" "(r, k) \<in> set (kernel_step tmo ServerStub c kk)"
  shows "tmo \<and> k = kk \<and> g r = Ret ()"
  using assms ss_idle_call [OF assms(1)] by (auto simp: packets_of_def split: if_splits)

lemma ss_step_Free:
  assumes "at_phase T (Free w) s" "procs s ServerStub = Call c g"
    and "(r, k) \<in> set (kernel_step tmo ServerStub c (kern s))"
  shows "step_ok tmo T (Free w) s ServerStub k (g r)"
proof -
  have "ss_idle (Call c g)" "to_server (kern s) = []" using assms(1,2) by (auto simp: chans_def)
  then have "tmo \<and> k = kern s \<and> g r = Ret ()" using assms(3) by (rule ss_idle_step)
  then show ?thesis using assms(1) by (intro step_okI [of T "Free w"]) auto
qed

lemma ss_step_Busy:
  assumes "at_phase T (Busy i f a b) s" "procs s ServerStub = Call c g"
    and "(r, k) \<in> set (kernel_step tmo ServerStub c (kern s))"
  shows "step_ok tmo T (Busy i f a b) s ServerStub k (g r)"
proof -
  have ch: "chans_at i f a b (chans (kern s))" and ss: "ss_at i f a b (Call c g)"
    using assms(1,2) by simp_all
  consider "i < 3 \<or> 8 \<le> i" | "i = 3" | "i = 7" | "i = 4 \<or> i = 5 \<or> i = 6" by linarith
  then show ?thesis
  proof cases
    case 1
    then have idle: "ss_idle (Call c g)" using ss by (auto simp: ss_at_def)
    then have w: "c = PcapNext" "\<And>fr. is_request_frame f a b fr \<Longrightarrow> ss_forward f a b (g (ok\<lparr>rpkt := Some fr\<rparr>))"
      using ss_idle_call [of c g] by auto
    show ?thesis
    proof (cases "to_server (kern s) = []")
      case True
      have "tmo \<and> k = kern s \<and> g r = Ret ()" using ss_idle_step [OF idle True assms(3)] .
      then show ?thesis using assms(1) 1 by (intro step_okI [of T "Busy i f a b"]) (auto simp: at_defs)
    next
      case False
      with ch assms(3) w(1) obtain fr where fr: "i = 2" "is_request_frame f a b fr" "r = ok\<lparr>rpkt := Some fr\<rparr>"
          "k = (kern s)\<lparr>to_server := []\<rparr>" "chans (kern s) = ([], [fr], [], [])"
        by cases (auto simp: chan_defs)
      then show ?thesis
        using assms(1) w
        by (intro step_okI [of T "Busy 3 f a b"]) (auto simp: chans_def at_defs rank_def intro: chans_at.intros)
    qed
  next
    case 2
    then obtain m where c: "c = Msgsnd m 40" "is_request 2 f (low16 a) (low16 b) m" "ss_waiting (g ok)"
      using ss ss_forward_call [of f a b c g] by (auto simp: ss_at_def)
    have "chans (kern s) = ([], [], [], [])" using ch 2 by (auto elim: chans_at.cases)
    then show ?thesis
      using assms c 2
      by (intro step_okI [of T "Busy 4 f a b"]) (auto simp: chan_defs at_defs rank_def intro: chans_at.intros)
  next
    case 3
    then obtain fr where c: "c = PcapInject fr" "is_reply_frame f a b fr" "g ok = Ret ()"
      using ss ss_inject_call [of f a b c g] by (auto simp: ss_at_def)
    then have "peek 6 6 fr = Some mac_server_stub" by (auto simp: is_reply_frame_def frame_holds_def)
    then have k: "r = ok" "k = (kern s)\<lparr>to_client := to_client (kern s) @ [fr]\<rparr>"
      using assms(3) c by (auto simp: capture_def mac_client_stub_def mac_server_stub_def)
    have "chans (kern s) = ([], [], [], [])" using ch 3 by (auto elim: chans_at.cases)
    then show ?thesis
      using assms(1) c k 3
      by (intro step_okI [of T "Busy 8 f a b"]) (auto simp: chans_def at_defs rank_def intro: chans_at.intros)
  next
    case 4
    then have w: "c = Msgrcv 40 3" "\<And>m. is_reply f a b m \<Longrightarrow> ss_inject f a b (g (ok\<lparr>rmsg := m\<rparr>))"
      using ss ss_waiting_call [of c g] by (auto simp: ss_at_def)
    with ch assms(3) obtain m where m: "i = 6" "is_reply f a b m" "r = ok\<lparr>rmsg := m\<rparr>"
        "k = (kern s)\<lparr>sq := []\<rparr>" "chans (kern s) = ([], [], [(m, 28)], [])"
      by cases (auto simp: chan_defs is_reply_def is_request_def split: if_splits)
    then show ?thesis
      using assms(1) w
      by (intro step_okI [of T "Busy 7 f a b"]) (auto simp: chans_def at_defs rank_def intro: chans_at.intros)
  qed
qed

lemma sv_step_Free:
  "at_phase T (Free w) s \<Longrightarrow> procs s Server = Call c g \<Longrightarrow> kernel_step tmo Server c (kern s) = []"
  using sv_idle_call [of c g] by (auto simp: chan_defs)

lemma sv_step_Busy:
  assumes "at_phase T (Busy i f a b) s" "procs s Server = Call c g"
    and "(r, k) \<in> set (kernel_step tmo Server c (kern s))"
  shows "step_ok tmo T (Busy i f a b) s Server k (g r)"
proof -
  have ch: "chans_at i f a b (chans (kern s))" and sv: "sv_at i f a b (Call c g)"
    using assms(1,2) by simp_all
  show ?thesis
  proof (cases "i = 5")
    case True
    then obtain m where c: "c = Msgsnd m 28" "is_reply f a b m" "g ok = Ret ()"
      using sv sv_reply_call [of f a b c g] by (auto simp: sv_at_def)
    have "chans (kern s) = ([], [], [], [])" using ch True by (auto elim: chans_at.cases)
    then show ?thesis
      using assms c True
      by (intro step_okI [of T "Busy 6 f a b"]) (auto simp: chan_defs at_defs rank_def intro: chans_at.intros)
  next
    case False
    then have w: "c = Msgrcv 40 2" "\<And>m. is_request 2 f (low16 a) (low16 b) m \<Longrightarrow> sv_reply f a b (g (ok\<lparr>rmsg := m\<rparr>))"
      using sv sv_idle_call [of c g] by (auto simp: sv_at_def)
    with ch assms(3) obtain m where m: "i = 4" "is_request 2 f (low16 a) (low16 b) m" "r = ok\<lparr>rmsg := m\<rparr>"
        "k = (kern s)\<lparr>sq := []\<rparr>" "chans (kern s) = ([], [], [(m, 40)], [])"
      by cases (auto simp: chan_defs is_reply_def is_request_def split: if_splits)
    then show ?thesis
      using assms(1) w
      by (intro step_okI [of T "Busy 5 f a b"]) (auto simp: chans_def at_defs rank_def intro: chans_at.intros)
  qed
qed

lemma lost_step:
  assumes "at_phase T Lost s" "procs s p = Call c g" "(r, k) \<in> set (kernel_step True p c (kern s))"
  shows "at_phase T Lost (next_sys s p k (g r)) \<and> p \<noteq> Client \<and> printed k = printed (kern s)"
proof -
  have p: "p = ServerStub \<or> p = Server"
    using assms client_step_Lost [OF assms(1)] cs_step_Lost [OF assms(1)] by (cases p) auto
  then have q: "silent (Call c g)" using assms(1,2) by auto
  have "cq k = cq (kern s) \<and> printed k = printed (kern s)"
    using p q assms(3)
    by (cases c) (auto simp: queue_of_def set_queue_def packets_of_def drop_packet_def capture_def
        split: option.splits list.splits if_splits)
  then show ?thesis using assms(1) p q by auto
qed

lemma call_step_ok:
  assumes "at_phase T ph s" "ph = Lost \<longrightarrow> tmo" "procs s p = Call c g"
    and "(r, k) \<in> set (kernel_step tmo p c (kern s))"
  shows "step_ok tmo T ph s p k (g r)"
proof (cases ph)
  case (Free w)
  with assms show ?thesis
    using client_step_Free cs_step_Free ss_step_Free sv_step_Free by (cases p) fastforce+
next
  case (Busy i f a b)
  with assms show ?thesis
    by (cases p) (blast intro: client_step_Busy cs_step_Busy ss_step_Busy sv_step_Busy)+
next
  case Lost
  with assms have tmo by simp
  with Lost assms lost_step [of T s p c g r k] show ?thesis by (intro step_okI [of T Lost]) auto
qed

definition rpc_inv :: "bool \<Rightarrow> line list \<Rightarrow> rpc_sys \<Rightarrow> bool" where
  "rpc_inv tmo T s \<longleftrightarrow> (\<exists>ph. at_phase T ph s \<and> (ph = Lost \<longrightarrow> tmo))"

lemma rpc_step_inv: "rpc_step tmo s s' \<Longrightarrow> rpc_inv tmo T s \<Longrightarrow> rpc_inv tmo T s'"
proof (induction rule: rpc_step.induct)
  case (call s p c f r k)
  then obtain ph where "at_phase T ph s" "ph = Lost \<longrightarrow> tmo" by (auto simp: rpc_inv_def)
  from call_step_ok [OF this call(1,2)] show ?case
    by (auto simp: step_ok_def rpc_inv_def next_sys_def)
next
  case (loop s p q)
  then show ?case using loop_keeps_phase unfolding rpc_inv_def by blast
qed

lemma at_phase_init: "at_phase (answers input) (Free 0) (rpc_init input)"
  by (auto simp: rpc_init_def chans_def intro: client_free.intros)

lemma rpc_reach_inv: "rpc_reach tmo input s \<Longrightarrow> rpc_inv tmo (answers input) s"
proof (induction rule: rpc_reach.induct)
  case init
  show ?case using at_phase_init unfolding rpc_inv_def by blast
qed (rule rpc_step_inv)

section \<open>Runs end\<close>

text \<open>The processes at the end of an iteration: each can still take one loop step.\<close>

definition rets :: "rpc_sys \<Rightarrow> nat" where
  "rets s = (\<Sum>p \<in> {Client, ClientStub, ServerStub, Server}. if procs s p = Ret () then 1 else 0)"

lemma rets_upd:
  "rets (s\<lparr>kern := k, procs := (procs s)(p := q)\<rparr>) + (if procs s p = Ret () then 1 else 0) =
   rets s + (if q = Ret () then 1 else 0)"
  by (cases p) (simp_all add: rets_def)

lemma rpc_step_rank:
  assumes "rpc_step False s s'" "at_phase T ph s" "ph \<noteq> Lost"
  obtains ph' where "at_phase T ph' s'" "ph' \<noteq> Lost"
    "rank ph' (kern s') + rets s' < rank ph (kern s) + rets s"
  using assms(1)
proof cases
  case (call p c f r k)
  obtain ph' where ph': "at_phase T ph' s'" "ph' \<noteq> Lost" "rank ph' k + 2 \<le> rank ph (kern s)"
    using call_step_ok [OF assms(2) _ call(2,3)] assms(3) call(1) by (auto simp: step_ok_def next_sys_def)
  have "rets s' \<le> rets s + 1" using rets_upd [where s = s and k = k and p = p and q = "f r"] call(1,2) by (simp split: if_splits)
  with ph' show ?thesis by (intro that [of ph']) (simp_all add: call(1))
next
  case (loop p q)
  have "q \<noteq> Ret ()" using loop(3)
    by (cases p) (auto simp: client_body_def client_stub_body_def server_stub_body_def server_body_def)
  then have "rets s' < rets s" using rets_upd [where s = s and k = "kern s" and p = p and q = q] loop by simp
  with loop loop_keeps_phase [OF assms(2) loop(2,3)] assms(3) show ?thesis
    by (intro that [of ph]) (simp_all add: rank_def)
qed

lemma rpc_run_bound:
  "(rpc_step False ^^ n) s s' \<Longrightarrow> at_phase T ph s \<Longrightarrow> ph \<noteq> Lost \<Longrightarrow> n \<le> rank ph (kern s) + rets s"
proof (induction n arbitrary: s ph)
  case (Suc n)
  obtain t where "rpc_step False s t" "(rpc_step False ^^ n) t s'" using relpowp_Suc_D2 [OF Suc(2)] by blast
  moreover obtain ph' where "at_phase T ph' t" "ph' \<noteq> Lost" "rank ph' (kern t) + rets t < rank ph (kern s) + rets s"
    using rpc_step_rank [OF calculation(1) Suc(3,4)] .
  ultimately show ?case using Suc.IH [of t ph'] by linarith
qed simp

lemma rpc_finishes:
  assumes "rpc_reach False input s" "at_phase T ph s" "ph \<noteq> Lost"
  shows "\<exists>s'. rpc_reach False input s' \<and> \<not> (\<exists>t. rpc_step False s' t)"
  using assms
proof (induction "rank ph (kern s) + rets s" arbitrary: s ph rule: less_induct)
  case less
  show ?case
  proof (cases "\<exists>t. rpc_step False s t")
    case True
    then obtain t where t: "rpc_step False s t" ..
    obtain ph' where "at_phase T ph' t" "ph' \<noteq> Lost" "rank ph' (kern t) + rets t < rank ph (kern s) + rets s"
      using rpc_step_rank [OF t less.prems(2,3)] .
    with less.hyps [of ph' t] rpc_reach.step [OF less.prems(1) t] show ?thesis by blast
  next
    case False
    with less.prems(1) show ?thesis by blast
  qed
qed

section \<open>A system that cannot move has answered everything\<close>

lemma iteration_exists: "\<exists>q. iteration p q"
proof (cases p)
  case Client
  have "wf_msg (some_msg\<lparr>msg := (msg some_msg)\<lparr>function_name := replicate 10 0\<rparr>\<rparr>)" by (simp add: wf_msg_def)
  then show ?thesis using Client by auto
next
  case ClientStub
  have "length (function_name ((msg some_msg)\<lparr>function_name := replicate 10 0\<rparr>)) = 10" by simp
  moreover have "length (replicate 65535 (0 :: u8)) = 65535" by (rule length_replicate)
  ultimately show ?thesis unfolding ClientStub iteration.simps by blast
next
  case ServerStub
  have "length (function_name ((msg some_msg)\<lparr>function_name := replicate 10 0\<rparr>)) = 10" by simp
  moreover have "length (replicate 65535 (0 :: u8)) = 65535" by (rule length_replicate)
  moreover have "wf_msg (some_msg\<lparr>msg := (msg some_msg)\<lparr>function_name := replicate 10 0\<rparr>\<rparr>)" by (simp add: wf_msg_def)
  ultimately show ?thesis unfolding ServerStub iteration.simps by blast
qed auto

definition stuck :: "bool \<Rightarrow> rpc_sys \<Rightarrow> bool" where
  "stuck tmo s \<longleftrightarrow> \<not> (\<exists>t. rpc_step tmo s t)"

lemma stuck_no_Ret: "stuck tmo s \<Longrightarrow> procs s p \<noteq> Ret ()"
  using iteration_exists [of p] by (auto simp: stuck_def intro: rpc_step.loop)

lemma stuck_blocked: "stuck tmo s \<Longrightarrow> procs s p = Call c g \<Longrightarrow> kernel_step tmo p c (kern s) = []"
  by (cases "kernel_step tmo p c (kern s)")
     (auto simp: stuck_def dest: rpc_step.call [of s p c g _ _ tmo])

text \<open>At its place, a process that has not finished its iteration waits in a call.\<close>

definition calls :: "rpc_prog \<Rightarrow> bool" where
  "calls q \<longleftrightarrow> (\<exists>c g. q = Call c g)"

lemma places_call:
  "cs_idle q \<Longrightarrow> q \<noteq> Ret () \<Longrightarrow> calls q" "ss_idle q \<Longrightarrow> q \<noteq> Ret () \<Longrightarrow> calls q" "sv_idle q \<Longrightarrow> q \<noteq> Ret () \<Longrightarrow> calls q"
  "client_free w F q \<Longrightarrow> q \<noteq> Ret () \<Longrightarrow> calls q"
  "cs_inject f a b q \<Longrightarrow> calls q" "cs_waiting q \<Longrightarrow> calls q" "cs_answer f a b q \<Longrightarrow> calls q"
  "ss_forward f a b q \<Longrightarrow> calls q" "ss_waiting q \<Longrightarrow> calls q" "ss_inject f a b q \<Longrightarrow> calls q"
  "sv_reply f a b q \<Longrightarrow> calls q" "calls (client_wait f a b)"
  by (auto simp: calls_def client_body_def client_stub_body_def client_stub_reply_def server_stub_body_def
      server_body_def ss_wait_def client_wait_def elim!: cs_idle.cases ss_idle.cases sv_idle.cases
      client_free.cases cs_inject.cases cs_waiting.cases cs_answer.cases ss_forward.cases
      ss_waiting.cases ss_inject.cases sv_reply.cases)

lemma at_call:
  "cs_at i f a b q \<Longrightarrow> q \<noteq> Ret () \<Longrightarrow> calls q" "ss_at i f a b q \<Longrightarrow> q \<noteq> Ret () \<Longrightarrow> calls q"
  "sv_at i f a b q \<Longrightarrow> q \<noteq> Ret () \<Longrightarrow> calls q"
  by (auto simp: at_defs intro: places_call split: if_splits)

lemma Busy_not_stuck: "at_phase T (Busy i f a b) s \<Longrightarrow> \<not> stuck False s"
proof
  assume at: "at_phase T (Busy i f a b) s" and stuck: "stuck False s"
  have "\<exists>c g. procs s p = Call c g" for p
    using at at_call(1) [of i f a b "procs s ClientStub"] at_call(2) [of i f a b "procs s ServerStub"]
      at_call(3) [of i f a b "procs s Server"] places_call(12) [of f a b] stuck_no_Ret [OF stuck, of p]
    unfolding calls_def [symmetric] by (cases p) simp_all
  then obtain c g where cg: "\<And>p. procs s p = Call (c p) (g p)" by metis
  have block: "kernel_step False p (c p) (kern s) = []" for p using stuck_blocked [OF stuck cg] .
  have cl: "client_wait f a b = Call (c Client) (g Client)" and cs: "cs_at i f a b (Call (c ClientStub) (g ClientStub))"
    and ss: "ss_at i f a b (Call (c ServerStub) (g ServerStub))" and sv: "sv_at i f a b (Call (c Server) (g Server))"
    and ch: "chans_at i f a b (chans (kern s))"
    using at by (simp_all flip: cg)
  note calls = client_wait_call [OF cl] cs_idle_call [of "c ClientStub" "g ClientStub"]
    cs_inject_call [of f a b "c ClientStub" "g ClientStub"] cs_waiting_call [of "c ClientStub" "g ClientStub"]
    cs_answer_call [of f a b "c ClientStub" "g ClientStub"] ss_idle_call [of "c ServerStub" "g ServerStub"]
    ss_forward_call [of f a b "c ServerStub" "g ServerStub"] ss_waiting_call [of "c ServerStub" "g ServerStub"]
    ss_inject_call [of f a b "c ServerStub" "g ServerStub"] sv_idle_call [of "c Server" "g Server"]
    sv_reply_call [of f a b "c Server" "g Server"]
  from ch show False
  proof cases
    case (7)
    then show False using cs ss sv calls block [of ClientStub] block [of ServerStub] block [of Server]
      by (auto simp: at_defs)
  qed (use cs ss sv calls block [of Client] block [of ClientStub] block [of ServerStub] block [of Server]
      in \<open>auto simp: at_defs chan_defs is_request_def is_reply_def is_answer_def\<close>)
qed

lemma Free_stuck:
  assumes at: "at_phase T (Free w) s" and stuck: "stuck tmo s"
  shows "printed (kern s) = T"
proof -
  obtain F where F: "client_free w F (procs s Client)" "printed (kern s) @ F (stdin (kern s)) = T"
    using at by auto
  obtain c g where c: "procs s Client = Call c g"
    using places_call(4) [OF F(1) stuck_no_Ret [OF stuck]] by (auto simp: calls_def)
  have "kernel_step tmo Client c (kern s) = []" using stuck_blocked [OF stuck c] .
  with client_free_call [of w F c g] F(1) c have "stdin (kern s) = []" "F [] = []"
    by (auto split: list.splits)
  with F(2) show ?thesis by simp
qed

section \<open>A lost reply\<close>

lemma call_reach:
  "rpc_reach tmo input s \<Longrightarrow> procs s p = Call c g \<Longrightarrow> (r, k) \<in> set (kernel_step tmo p c (kern s)) \<Longrightarrow>
   rpc_reach tmo input (next_sys s p k (g r))"
  unfolding next_sys_def by (rule rpc_reach.step [OF _ rpc_step.call])

lemma Lost_forever:
  assumes "(rpc_step True)\<^sup>*\<^sup>* s s'" "at_phase T Lost s"
  shows "at_phase T Lost s' \<and> printed (kern s') = printed (kern s) \<and> procs s' Client = procs s Client"
  using assms(1)
proof (induction rule: rtranclp_induct)
  case (step t u)
  from step(2) show ?case
  proof cases
    case (call p c f r k)
    with step.IH lost_step [of T t p c f r k] show ?thesis
      by (auto simp: next_sys_def simp del: at_phase.simps)
  next
    case (loop p q)
    have "p \<noteq> Client" using loop(2) step.IH by auto
    with loop step.IH loop_keeps_phase [of T Lost t p q] show ?thesis
      by (auto simp del: at_phase.simps)
  qed
qed (use assms(2) in simp)

text \<open>A request on its way can be lost: the client's stub stops waiting before the reply is there.\<close>

lemma Busy_loses:
  assumes "rpc_reach True input s" "at_phase T (Busy 0 f a b) s" "procs s ClientStub = Ret ()"
  shows "\<exists>s'. rpc_reach True input s' \<and> at_phase T Lost s' \<and> printed (kern s') = printed (kern s)"
proof -
  have "chans_at 0 f a b (chans (kern s))" using assms(2) by simp
  then obtain m where m: "is_request 1 f (htons_int a) (htons_int b) m" "mtype m = 1" "chans (kern s) = ([(m, 28)], [], [], [])"
    by cases (auto simp: is_request_def)
  obtain q where q: "iteration ClientStub q" using iteration_exists by blast
  then obtain g where g: "q = Call (Msgrcv 28 1) g" by (auto simp: client_stub_body_def)
  have inj: "cs_inject f a b (g (ok\<lparr>rmsg := m\<rparr>))"
    using cs_idle_call [of "Msgrcv 28 1" g] iteration_idle(2) [OF q] m(1) g by blast
  obtain c h where h: "g (ok\<lparr>rmsg := m\<rparr>) = Call c h" using places_call(5) [OF inj] by (auto simp: calls_def)
  then obtain fr where fr: "c = PcapInject fr" "cs_waiting (h ok)" "peek 6 6 fr = Some mac_client_stub"
    using cs_inject_call [of f a b c h] inj by (auto simp: is_request_frame_def frame_holds_def)
  obtain c' h' where h': "h ok = Call c' h'" using places_call(6) [OF fr(2)] by (auto simp: calls_def)
  then have c': "c' = PcapNext" "h' ok = Ret ()" using cs_waiting_call [of c' h'] fr(2) by auto
  define k1 where "k1 = (kern s)\<lparr>cq := []\<rparr>"
  define k2 where "k2 = capture fr k1"
  define s1 where "s1 = s\<lparr>procs := (procs s)(ClientStub := q)\<rparr>"
  define s2 where "s2 = next_sys s1 ClientStub k1 (g (ok\<lparr>rmsg := m\<rparr>))"
  define s3 where "s3 = next_sys s2 ClientStub k2 (h ok)"
  define s4 where "s4 = next_sys s3 ClientStub k2 (h' ok)"
  have k1: "cq k1 = []" "to_client k1 = []" "printed k1 = printed (kern s)"
    using m(3) by (simp_all add: k1_def chans_def)
  have k2: "cq k2 = []" "to_client k2 = []" "printed k2 = printed (kern s)"
    using fr(3) by (simp_all add: k2_def capture_def k1 mac_client_stub_def mac_server_stub_def)
  have "rpc_reach True input s1"
    unfolding s1_def by (rule rpc_reach.step [OF assms(1) rpc_step.loop [OF assms(3) q]])
  then have "rpc_reach True input s2" unfolding s2_def
    by (rule call_reach [of _ _ _ _ "Msgrcv 28 1"])
       (use m in \<open>simp_all add: s1_def g k1_def chans_def queue_of_def set_queue_def\<close>)
  then have "rpc_reach True input s3" unfolding s3_def
    by (rule call_reach [of _ _ _ _ c]) (simp_all add: s2_def h fr(1) k2_def)
  then have "rpc_reach True input s4" unfolding s4_def
    by (rule call_reach [of _ _ _ _ PcapNext]) (simp_all add: s3_def h' c' packets_of_def k2)
  moreover have "procs s4 = (procs s)(ClientStub := Ret ())" "kern s4 = k2"
    by (simp_all add: s4_def s3_def s2_def s1_def c')
  then have "at_phase T Lost s4" using assms(2) silent_at [of 0 f a b] by (auto simp: k2)
  ultimately show ?thesis using \<open>kern s4 = k2\<close> k2(3) by (intro exI [of _ s4] conjI) simp_all
qed

text \<open>The client's side up to the request: three numbers read, the request sent.\<close>

lemma client_sends:
  "\<exists>s f a b. rpc_reach tmo (1 # x # y # xs) s \<and> at_phase (answers (1 # x # y # xs)) (Busy 0 f a b) s \<and>
     procs s ClientStub = Ret () \<and> printed (kern s) = []"
proof -
  define input where "input = 1 # x # y # xs"
  obtain m where m: "wf_msg m" using iteration_exists [of Client] by auto
  define s1 where "s1 = (rpc_init input)\<lparr>procs := (\<lambda>_. Ret ())(Client := client_body m)\<rparr>"
  have k: "kern (rpc_init input) = \<lparr>cq = [], sq = [], to_server = [], to_client = [], stdin = input, printed = []\<rparr>"
    by (simp add: rpc_init_def)
  have s1: "rpc_reach tmo input s1"
    using rpc_reach.step [OF rpc_reach.init rpc_step.loop, of input Client "client_body m" tmo] m
    by (auto simp: s1_def rpc_init_def)
  define G where "G = (\<lambda>opt :: rpc_resp. Call Scanf (\<lambda>a. Call Scanf (\<lambda>b. client_choose m (rint opt) (rint a) (rint b))))"
  have G: "client_body m = Call Scanf G" by (simp add: client_body_def G_def client_choose_def)
  define s2 where "s2 = next_sys s1 Client ((kern s1)\<lparr>stdin := x # y # xs\<rparr>)
    (Call Scanf (\<lambda>a. Call Scanf (\<lambda>b. client_choose m 1 (rint a) (rint b))))"
  have "rpc_reach tmo input (next_sys s1 Client ((kern s1)\<lparr>stdin := x # y # xs\<rparr>) (G (ok\<lparr>rint := 1\<rparr>)))"
    by (rule call_reach [OF s1, of _ Scanf]) (simp_all add: s1_def rpc_init_def input_def G)
  then have "rpc_reach tmo input s2" by (simp add: s2_def G_def)
  define s3 where "s3 = next_sys s2 Client ((kern s2)\<lparr>stdin := y # xs\<rparr>)
    (Call Scanf (\<lambda>b. client_choose m 1 x (rint b)))"
  have "rpc_reach tmo input (next_sys s2 Client ((kern s2)\<lparr>stdin := y # xs\<rparr>)
      ((\<lambda>a. Call Scanf (\<lambda>b. client_choose m 1 (rint a) (rint b))) (ok\<lparr>rint := x\<rparr>)))"
    by (rule call_reach [OF \<open>rpc_reach tmo input s2\<close>, of _ Scanf]) (simp_all add: s2_def)
  then have "rpc_reach tmo input s3" by (simp add: s3_def)
  define s4 where "s4 = next_sys s3 Client ((kern s3)\<lparr>stdin := xs\<rparr>) (client_choose m 1 x y)"
  have "rpc_reach tmo input (next_sys s3 Client ((kern s3)\<lparr>stdin := xs\<rparr>)
      ((\<lambda>b. client_choose m 1 x (rint b)) (ok\<lparr>rint := y\<rparr>)))"
    by (rule call_reach [OF \<open>rpc_reach tmo input s3\<close>, of _ Scanf]) (simp_all add: s3_def)
  then have s4: "rpc_reach tmo input s4" by (simp add: s4_def)
  obtain w F where F: "client_free w F (client_choose m 1 x y)" "F = (\<lambda>xs. answers (1 # x # y # xs))"
    using client_choose_free [OF m, of 1 x y] by blast
  obtain fn where "strcpy (function_name (msg m)) (bytes_of ''add'') = Some fn"
    using need_strcpy [OF m length_rop_name(1) rop_name_nonzero, of Add] by auto
  then obtain c g where c: "client_choose m 1 x y = Call c g" "c \<noteq> Scanf" "\<And>fmt args. c \<noteq> Printf fmt args"
    by (simp add: client_choose_def add_def)
  with client_free_call [of w F c g] F(1) c obtain f a b m' where
    r: "c = Msgsnd m' 28" "is_request 1 f (htons_int a) (htons_int b) m'" "F = (\<lambda>xs. rop_line f a b # answers xs)"
      "g ok = client_wait f a b" by auto
  define s5 where "s5 = next_sys s4 Client (set_queue Client (cq (kern s4) @ [(m', 28)]) (kern s4)) (g ok)"
  have s5: "rpc_reach tmo input s5"
    unfolding s5_def by (rule call_reach [OF s4, of _ c]) (simp_all add: c(1) r(1) s4_def queue_of_def)
  have "rop_line f a b # answers xs = answers input" using F(2) r(3) by (metis input_def)
  then have "at_phase (answers input) (Busy 0 f a b) s5" "procs s5 ClientStub = Ret ()" "printed (kern s5) = []"
    using r by (auto simp: s5_def s4_def s3_def s2_def s1_def k chan_defs at_defs intro: chans_at.intros)
  with s5 show ?thesis unfolding input_def by blast
qed

section \<open>Well-typed\<close>






section \<open>Properties\<close>

text \<open>
  C1. Whatever the operands typed and however the four processes are scheduled, and also when
  \<open>pcap_next\<close> times out, the client has printed a prefix of the lines it should: the results of
  the requests in the order typed, each the sum or difference cut to 16 bits.
\<close>

theorem rpc_prints_prefix:
  assumes "rpc_reach tmo input s"
  shows "\<exists>rest. answers input = printed (kern s) @ rest"
proof -
  obtain ph where "at_phase (answers input) ph s" using rpc_reach_inv [OF assms] by (auto simp: rpc_inv_def)
  then show ?thesis by (cases ph) (auto simp: eq_commute [of "answers input"])
qed

text \<open>
  C3. A run in which every frame arrives before the read timeout ends: it has at most 30 steps
  for each number typed and four more, so no scheduling loops or livelocks.
\<close>

theorem rpc_run_ends:
  assumes "(rpc_step False ^^ n) (rpc_init input) s"
  shows "n \<le> 30 * length input + 4"
proof -
  have "n \<le> rank (Free 0) (kern (rpc_init input)) + rets (rpc_init input)"
    using rpc_run_bound [OF assms at_phase_init] by simp
  then show ?thesis by (simp add: rank_def rets_def rpc_init_def)
qed

text \<open>
  C2. When every frame arrives before the read timeout of \<open>pcap_next\<close>, there is no deadlock: when
  no process can move any more, every complete triple typed has been answered, with its result.
  With the timeouts a deadlock is possible, as the last property of this theory shows.
\<close>

theorem rpc_stuck_answered:
  assumes "rpc_reach False input s" "\<not> (\<exists>t. rpc_step False s t)"
  shows "printed (kern s) = answers input"
proof -
  obtain ph where ph: "at_phase (answers input) ph s" "ph \<noteq> Lost"
    using rpc_reach_inv [OF assms(1)] by (auto simp: rpc_inv_def)
  have st: "stuck False s" using assms(2) by (simp add: stuck_def)
  show ?thesis
  proof (cases ph)
    case (Free w)
    with ph(1) st show ?thesis by (simp add: Free_stuck del: at_phase.simps)
  next
    case Busy
    with ph(1) st show ?thesis using Busy_not_stuck by blast
  qed (use ph(2) in simp)
qed


text \<open>
  C5. The read timeout of \<open>pcap_next\<close> breaks the service: whatever addition is asked for first,
  there is a run after which the client waits for a reply of type 4 for ever and nothing is
  printed again, whatever the four processes do.
\<close>

theorem rpc_lost_reply_blocks:
  "\<exists>s. rpc_reach True (1 # x # y # xs) s \<and>
     (\<forall>s'. (rpc_step True)\<^sup>*\<^sup>* s s' \<longrightarrow> printed (kern s') = [] \<and> procs s' Client = procs s Client)"
proof -
  obtain s f a b where s: "rpc_reach True (1 # x # y # xs) s" "at_phase (answers (1 # x # y # xs)) (Busy 0 f a b) s"
    "procs s ClientStub = Ret ()" "printed (kern s) = []"
    using client_sends [of True x y xs] by (elim exE conjE) (rule that)
  obtain s' where s': "rpc_reach True (1 # x # y # xs) s'"
    "at_phase (answers (1 # x # y # xs)) Lost s'" "printed (kern s') = []"
    using Busy_loses [OF s(1-3)] unfolding s(4) by blast
  have "\<forall>t. (rpc_step True)\<^sup>*\<^sup>* s' t \<longrightarrow> printed (kern t) = [] \<and> procs t Client = procs s' Client"
    using Lost_forever [OF _ s'(2)] unfolding s'(3) by blast
  with s'(1) show ?thesis by blast
qed

section \<open>Witnesses\<close>

theorem rpc_prints_prefix_witness:
  "\<exists>s. rpc_reach False [1, 2, 3] s \<and> (\<exists>rest. answers [1, 2, 3] = printed (kern s) @ rest)"
  using rpc_prints_prefix [of False "[1, 2, 3]" "rpc_init [1, 2, 3]"] by (blast intro: rpc_reach.init)

theorem rpc_run_ends_witness:
  "\<exists>s. (rpc_step False ^^ 1) (rpc_init [1]) s \<and> 1 \<le> 30 * length [1 :: u32] + 4"
proof -
  let ?s = "(rpc_init [1])\<lparr>procs := (procs (rpc_init [1]))(Server := server_body)\<rparr>"
  have "rpc_step False (rpc_init [1]) ?s" by (rule rpc_step.loop) (simp_all add: rpc_init_def)
  then have "(rpc_step False ^^ 1) (rpc_init [1]) ?s" by (simp only: relpowp_1)
  with rpc_run_ends [of 1 "[1]" ?s] show ?thesis by blast
qed

text \<open>The whole conversation of one addition: 70000 + 2 is printed as 4466.\<close>

theorem rpc_stuck_answered_witness:
  "\<exists>s. rpc_reach False [1, 70000, 2] s \<and> \<not> (\<exists>t. rpc_step False s t) \<and>
     printed (kern s) = [(''%d + %d = %d'', [70000, 2, 4466])]"
proof -
  have "low16 70002 = (4466 :: u32)"
    by (rule word_unat_eq_iff [THEN iffD2]) (simp add: unat_low16)
  then have "answers [1, 70000, 2] = [(''%d + %d = %d'', [70000, 2, 4466])]" by (simp add: answer_def)
  moreover obtain s where "rpc_reach False [1, 70000, 2] s" "\<not> (\<exists>t. rpc_step False s t)"
    using rpc_finishes [OF rpc_reach.init at_phase_init] by blast
  ultimately show ?thesis using rpc_stuck_answered by metis
qed


theorem rpc_lost_reply_blocks_witness:
  "\<exists>s. rpc_reach True [1, 2, 3] s \<and>
     (\<forall>s'. (rpc_step True)\<^sup>*\<^sup>* s s' \<longrightarrow> printed (kern s') = [] \<and> procs s' Client = procs s Client)"
  using rpc_lost_reply_blocks [of 2 3 "[]"] by simp

end
