(* ===== verification/RpcStart.thy ===== *)
theory RpcStart
  imports Unix
begin

text \<open>
  How the four processes of endlab start: the message queue from the path of a source file, and
  for the stubs the capture on the loopback device with a filter for the frames of the other stub.
  After that each repeats the loop body that RpcSystem models.
\<close>

definition queue_start :: "string \<Rightarrow> int sys" where
  "queue_start path =
     Call (Ftok path) (\<lambda>r.
     if res r = -1 then handle_error
     else Call Msgget (\<lambda>r.
     if res r = -1 then handle_error else Ret (res r)))"

definition client_start :: "int sys" where "client_start = queue_start ''client.c''"
definition server_start :: "int sys" where "server_start = queue_start ''server.c''"

text \<open>A null handle is 0.  Only the opening is checked.\<close>

definition capture_start :: "bytes \<Rightarrow> int sys" where
  "capture_start filter_exp =
     Call (PcapOpen (bytes_of ''lo'')) (\<lambda>r. let handle = res r in
     if handle = 0 then handle_error
     else Call (PcapLookupnet (bytes_of ''lo'')) (\<lambda>_.
     Call (PcapCompile filter_exp) (\<lambda>_.
     Call PcapSetfilter (\<lambda>_.
     Call PcapImmediate (\<lambda>_. Ret handle)))))"

definition client_stub_start :: "(int \<times> int) sys" where
  "client_stub_start =
     bind (queue_start ''client.c'') (\<lambda>msqid.
     bind (capture_start (bytes_of ''ether src 07:08:09:10:11:12'')) (\<lambda>handle. Ret (msqid, handle)))"

definition server_stub_start :: "(int \<times> int) sys" where
  "server_stub_start =
     bind (queue_start ''server.c'') (\<lambda>msqid.
     bind (capture_start (bytes_of ''ether src 01:02:03:04:05:06'')) (\<lambda>handle. Ret (msqid, handle)))"

text \<open>A stub reaches its loop exactly with a queue and an open capture; everything else exits
  with 1, and the calls that set up the filter cannot stop it.\<close>

lemma queue_start_outcome: "execs (queue_start path) tr out \<Longrightarrow> out = Exited 1 \<or> (\<exists>q. out = Done q \<and> q \<noteq> -1)"
  by (auto simp: queue_start_def execs_Call handle_error_def split: if_splits)

lemma capture_start_outcome: "execs (capture_start f) tr out \<Longrightarrow> out = Exited 1 \<or> (\<exists>h. out = Done h \<and> h \<noteq> 0)"
  by (auto simp: capture_start_def execs_Call handle_error_def Let_def split: if_splits)

lemma stub_start_outcome:
  assumes "execs client_stub_start tr out \<or> execs server_stub_start tr out"
  shows "out = Exited 1 \<or> (\<exists>q h. out = Done (q, h) \<and> q \<noteq> -1 \<and> h \<noteq> 0)"
  using assms queue_start_outcome capture_start_outcome
  unfolding client_stub_start_def server_stub_start_def execs_bind by fastforce

end
