(* ===== verification/ArpResolver.thy ===== *)
theory ArpResolver
  imports Unix ArpFrame
begin

text \<open>
  The ARP resolver of ARP/request_reply: arp_reply.c, which sends one forged ARP reply, and
  arp_request.c (identical to ARP/my/get_mac.c but for a debug line), which sends a who-has
  request and reads packets until a reply comes.  Functions that are the same in all three
  files are modelled once.

  C functions that store through a pointer return the value stored, \<^term>\<open>None\<close> when they
  return before storing.  An \<open>ifreq\<close> answered by \<open>ioctl\<close> is the union the kernel filled, a
  \<open>struct sockaddr\<close> (family at 0, port at 2, address at 4) or the interface index.
\<close>

section \<open>Reading addresses\<close>

definition int_ip4 :: "bytes \<Rightarrow> (int \<times> bytes option) option" where
  "int_ip4 addr =
     (case get16 0 addr of None \<Rightarrow> None
      | Some family \<Rightarrow>
          if family = 2 then map_option (\<lambda>ip. (0, Some ip)) (peek 4 4 addr) else Some (1, None))"

text \<open>\<open>inet_ntoa\<close> returns a static buffer, never NULL: the branch -2 is dead.\<close>

definition format_ip4 :: "bytes \<Rightarrow> bytes \<Rightarrow> (int \<times> bytes) option" where
  "format_ip4 addr out =
     (case get16 0 addr of None \<Rightarrow> None
      | Some family \<Rightarrow>
          if family = 2 then
            (case peek 4 4 addr of None \<Rightarrow> None
             | Some ip \<Rightarrow> map_option (\<lambda>out'. (0, out')) (strcpy out (inet_ntoa ip)))
          else Some (-1, out))"

section \<open>The interface\<close>

abbreviation (input) "SIOCGIFADDR \<equiv> 0x8915 :: int"
abbreviation (input) "SIOCGIFHWADDR \<equiv> 0x8927 :: int"
abbreviation (input) "SIOCGIFINDEX \<equiv> 0x8933 :: int"

text \<open>The union of an \<open>ifreq\<close> is 24 bytes; what the kernel did not fill never matters.\<close>

definition ifru :: "resp \<Rightarrow> bytes" where
  "ifru r = take 24 (data r @ replicate 24 0)"

definition get_if_ip4 :: "int \<Rightarrow> bytes \<Rightarrow> (int \<times> bytes option) sys" where
  "get_if_ip4 fd ifname =
     (if 15 < length ifname then Ret (-1, None)
      else Call (Ioctl fd SIOCGIFADDR ifname) (\<lambda>r.
        if res r = -1 then Ret (-1, None)
        else need (int_ip4 (ifru r)) (\<lambda>(e, ip). if e \<noteq> 0 then Ret (-1, ip) else Ret (0, ip))))"

record if_info =
  if_ip :: "bytes option"
  if_mac :: bytes
  if_index :: int

text \<open>The label \<open>out\<close>: the temporary socket is closed when it was opened.\<close>

definition if_out :: "int \<Rightarrow> 'a \<Rightarrow> 'a sys" where
  "if_out sd v = (if sd > 0 then Call (CloseFd sd) (\<lambda>_. Ret v) else Ret v)"

definition get_if_info :: "bytes \<Rightarrow> (int \<times> if_info option) sys" where
  "get_if_info ifname =
     Call (Socket AF_PACKET SOCK_RAW 0x0608) (\<lambda>r. let sd = res r in
     if sd \<le> 0 then if_out sd (-1, None)
     else if 15 < length ifname then if_out sd (-1, None)
     else Call (Ioctl sd SIOCGIFINDEX ifname) (\<lambda>r.
     if res r = -1 then if_out sd (-1, None)
     else need (get32 0 (ifru r)) (\<lambda>index.
     Call (Print ''interface index is %d'' [D (sint index)]) (\<lambda>_.
     Call (Ioctl sd SIOCGIFHWADDR ifname) (\<lambda>r.
     if res r = -1 then if_out sd (-1, None)
     else need (peek 2 6 (ifru r)) (\<lambda>mac.
     bind (get_if_ip4 sd ifname) (\<lambda>(e, ip).
     if e \<noteq> 0 then if_out sd (-1, None)
     else if_out sd (0, Some \<lparr>if_ip = ip, if_mac = mac, if_index = sint index\<rparr>))))))))"

text \<open>\<open>bind_arp\<close> stores the descriptor before it knows whether it can use it.\<close>

definition bind_arp :: "int \<Rightarrow> (int \<times> int) sys" where
  "bind_arp ifindex =
     Call (Socket AF_PACKET SOCK_RAW 0x0608) (\<lambda>r. let fd = res r in
     if fd < 1 then (if fd > 0 then Call (CloseFd fd) (\<lambda>_. Ret (-1, fd)) else Ret (-1, fd))
     else Call (Bind fd (AddrLink 0 ifindex 0 0 0 (replicate 8 0))) (\<lambda>r.
     if res r < 0 then (if fd > 0 then Call (CloseFd fd) (\<lambda>_. Ret (-1, fd)) else Ret (-1, fd))
     else Ret (0, fd)))"

section \<open>Packets\<close>

text \<open>\<open>struct arp_header\<close> follows the 14 bytes of the Ethernet header.\<close>

definition arp_frame :: "bytes \<Rightarrow> bytes \<Rightarrow> u16 \<Rightarrow> bytes \<Rightarrow> bytes \<Rightarrow> bytes \<Rightarrow> bytes option" where
  "arp_frame h_dest src_mac opcode target_mac sender_ip target_ip =
     poke_all [(0, h_dest), (32, target_mac), (6, src_mac), (22, src_mac),
       (12, le16 (htons 0x0806)), (14, le16 (htons 1)), (16, le16 (htons 0x0800)), (18, [6]), (19, [4]),
       (20, le16 (htons opcode)), (28, sender_ip), (38, target_ip)] (replicate 60 0)"

text \<open>\<open>sll_addr\<close> gets the source address; its last two bytes are zero.\<close>

definition arp_dest :: "int \<Rightarrow> bytes \<Rightarrow> sockaddr" where
  "arp_dest ifindex src_mac = AddrLink (htons 0x0806) ifindex (htons 1) 1 6 (src_mac @ [0, 0])"

text \<open>arp_reply.c: the reply names fixed addresses; the parameter \<open>dst_ip\<close> is overwritten.\<close>

definition gateway_mac :: bytes where
  "gateway_mac = [0x00, 0x0c, 0x29, 0x28, 0x5a, 0x79]"

definition send_arp_reply :: "int \<Rightarrow> int \<Rightarrow> bytes \<Rightarrow> bytes \<Rightarrow> int sys" where
  "send_arp_reply fd ifindex src_mac dst_ip =
     need (arp_frame gateway_mac src_mac 2 gateway_mac (le32 (htonl 0xac1e8b64)) (le32 (htonl 0xac1e8806))) (\<lambda>buffer.
     Call (Sendto fd (take 42 buffer) (arp_dest ifindex src_mac)) (\<lambda>r.
     if res r = -1 then Ret (-1) else Ret 0))"

text \<open>arp_request.c: a broadcast request.\<close>

definition send_arp_request :: "int \<Rightarrow> int \<Rightarrow> bytes \<Rightarrow> bytes \<Rightarrow> bytes \<Rightarrow> int sys" where
  "send_arp_request fd ifindex src_mac src_ip dst_ip =
     need (arp_frame (replicate 6 0xff) src_mac 1 (replicate 6 0) src_ip dst_ip) (\<lambda>buffer.
     Call (Sendto fd (take 42 buffer) (arp_dest ifindex src_mac)) (\<lambda>r.
     if res r = -1 then Ret (-1) else Ret 0))"

text \<open>\<open>buffer\<close> is uninitialised: a short packet leaves old bytes behind it.  The length received
  is not looked at.\<close>

definition read_arp :: "bytes \<Rightarrow> int \<Rightarrow> int sys" where
  "read_arp buffer fd =
     Call (Recvfrom fd 60) (\<lambda>r.
     if res r = -1 then Ret (-1)
     else need (poke 0 (data r) buffer) (\<lambda>buffer.
     need (get16 12 buffer) (\<lambda>proto.
     if ntohs proto \<noteq> 0x0806 then Ret (-1)
     else need (get16 20 buffer) (\<lambda>opcode.
     if ntohs opcode \<noteq> 2 then Ret (-1)
     else need (peek 28 4 buffer) (\<lambda>ip.
     need (peek 22 6 buffer) (\<lambda>mac.
     Call (Print ''Sender IP: %s'' [S (inet_ntoa ip)]) (\<lambda>_.
     Call (Print ''Sender MAC: %02X:%02X:%02X:%02X:%02X:%02X'' (map (\<lambda>b. D (uint b)) mac)) (\<lambda>_.
     Ret 0))))))))"

section \<open>test_arping and main\<close>

text \<open>\<open>dst\<close> is \<open>inet_addr(ip)\<close>.  \<open>arp_fd\<close> is uninitialised until \<open>bind_arp\<close> stores it, and the
  label \<open>out\<close> closes it unless it is 0.\<close>

definition arping_out :: "int \<Rightarrow> int \<Rightarrow> int sys" where
  "arping_out arp_fd ret = (if arp_fd \<noteq> 0 then Call (CloseFd arp_fd) (\<lambda>_. Ret ret) else Ret ret)"

definition test_arping_reply :: "int \<Rightarrow> bytes \<Rightarrow> bytes \<Rightarrow> int sys" where
  "test_arping_reply arp_fd ifname dst =
     (if dst = [0, 0, 0, 0] \<or> dst = [255, 255, 255, 255] then Ret 1
      else bind (get_if_info ifname) (\<lambda>(e, info).
        if e \<noteq> 0 then arping_out arp_fd (-1)
        else need info (\<lambda>info.
        bind (bind_arp (if_index info)) (\<lambda>(e, arp_fd).
        if e \<noteq> 0 then arping_out arp_fd (-1)
        else bind (send_arp_reply arp_fd (if_index info) (if_mac info) dst) (\<lambda>e.
        if e \<noteq> 0 then arping_out arp_fd (-1) else arping_out arp_fd 0)))))"

text \<open>arp_request.c reads until \<open>read_arp\<close> returns 0: \<open>n\<close> bounds the iterations, \<open>garbage i\<close> is
  what the buffer of call \<open>i\<close> holds.  \<^term>\<open>Ret None\<close>: still reading.\<close>

primrec read_until :: "nat \<Rightarrow> (nat \<Rightarrow> bytes) \<Rightarrow> int \<Rightarrow> unit option sys" where
  "read_until 0 garbage fd = Ret None"
| "read_until (Suc n) garbage fd =
     bind (read_arp (garbage n) fd) (\<lambda>r. if r = 0 then Ret (Some ()) else read_until n garbage fd)"

definition test_arping_request :: "nat \<Rightarrow> (nat \<Rightarrow> bytes) \<Rightarrow> int \<Rightarrow> bytes \<Rightarrow> bytes \<Rightarrow> int option sys" where
  "test_arping_request n garbage arp_fd ifname dst =
     (if dst = [0, 0, 0, 0] \<or> dst = [255, 255, 255, 255] then Ret (Some 1)
      else bind (get_if_info ifname) (\<lambda>(e, info).
        if e \<noteq> 0 then bind (arping_out arp_fd (-1)) (Ret \<circ> Some)
        else need info (\<lambda>info. need (if_ip info) (\<lambda>src.
        bind (bind_arp (if_index info)) (\<lambda>(e, arp_fd).
        if e \<noteq> 0 then bind (arping_out arp_fd (-1)) (Ret \<circ> Some)
        else bind (send_arp_request arp_fd (if_index info) (if_mac info) src dst) (\<lambda>e.
        if e \<noteq> 0 then bind (arping_out arp_fd (-1)) (Ret \<circ> Some)
        else bind (read_until n garbage arp_fd) (\<lambda>done.
        case done of None \<Rightarrow> Ret None | Some _ \<Rightarrow> bind (arping_out arp_fd 0) (Ret \<circ> Some))))))))"

definition main_arp_reply :: "(bytes \<Rightarrow> bytes) \<Rightarrow> int \<Rightarrow> bytes list \<Rightarrow> int sys" where
  "main_arp_reply inet_addr arp_fd argv =
     (if length argv \<noteq> 3 then Call (Print ''Usage: %s <INTERFACE> <DEST_IP>'' []) (\<lambda>_. Ret 1)
      else test_arping_reply arp_fd (argv ! 1) (inet_addr (argv ! 2)))"

section \<open>No descriptor is leaked below test_arping\<close>

lemma length_ifru [simp]: "length (ifru r) = 24"
  by (simp add: ifru_def)

lemma ifru_reads:
  "get32 0 (ifru r) = Some (rd32 (ifru r ! 0) (ifru r ! 1) (ifru r ! 2) (ifru r ! 3))"
  "peek 2 6 (ifru r) = Some (take 6 (drop 2 (ifru r)))"
  "int_ip4 (ifru r) = Some (if rd16 (ifru r ! 0) (ifru r ! 1) = 2 then (0, Some (take 4 (drop 4 (ifru r)))) else (1, None))"
  by (simp_all add: get32_def peek_def int_ip4_def get16_def numeral_2_eq_2)

lemma fdwp_if_out:
  "(if sd > 0 then sd \<in> held \<and> Q (Done v) (held - {sd}) else Q (Done v) held) \<Longrightarrow> fdwp E (if_out sd v) Q held"
  by (auto simp: if_out_def intro: fdwp_close_ret)

lemma fdwp_get_if_ip4:
  "fdwp E (f (-1, None)) Q held \<Longrightarrow> (\<And>ip. fdwp E (f (0, Some ip)) Q held) \<Longrightarrow>
   fdwp E (bind (get_if_ip4 fd ifname) f) Q held"
  by (auto simp: get_if_ip4_def ifru_reads)

text \<open>
  The temporary socket of \<open>get_if_info\<close> is closed on every path, and the path that succeeds has
  an address.
\<close>

lemma get_if_info_fds:
  "0 \<notin> held \<Longrightarrow> fdwp E (get_if_info ifname)
     (\<lambda>out held'. held' = held \<and> (\<exists>e info. out = Done (e, info) \<and> (e = -1 \<and> info = None \<or>
        e = 0 \<and> (\<exists>i. info = Some i \<and> if_ip i \<noteq> None \<and> length (if_mac i) = 6)))) held"
  by (auto simp: get_if_info_def Let_def ifru_reads intro!: fdwp_if_out fdwp_get_if_ip4)

lemma bind_arp_fds:
  "0 \<notin> held \<Longrightarrow> fdwp E (bind_arp ifindex)
     (\<lambda>out held'. \<exists>a. out = Done a \<and> (if fst a = 0 then 0 < snd a \<and> snd a \<notin> held \<and> held' = insert (snd a) held
        else fst a = -1 \<and> held' = held)) held"
  by (auto simp: bind_arp_def Let_def intro!: fdwp_close_ret) (rule exI [of _ "-1"], simp)

text \<open>Both are used through their contracts.\<close>

interpretation if_info: temporary E "get_if_info ifname" for E ifname
  by unfold_locales (rule fdwp_mono [OF get_if_info_fds], auto)

interpretation arp_port: opener E "bind_arp ifindex" "\<lambda>a. if fst a = 0 then Some (snd a) else None" for E ifindex
  by unfold_locales (rule fdwp_mono [OF bind_arp_fds], auto split: if_splits)

lemma fdwp_arping_out:
  "(if arp_fd \<noteq> 0 then arp_fd \<in> held \<and> Q (Done v) (held - {arp_fd}) else Q (Done v) held) \<Longrightarrow>
   fdwp E (arping_out arp_fd v) Q held"
  by (auto simp: arping_out_def intro: fdwp_close_ret split: if_splits)

lemma fdwp_send_arp_reply:
  "length src_mac = 6 \<Longrightarrow> fdwp E (f (-1)) Q held \<Longrightarrow> fdwp E (f 0) Q held \<Longrightarrow>
   fdwp E (bind (send_arp_reply fd ifindex src_mac dst) f) Q held"
  by (simp add: send_arp_reply_def arp_frame_def gateway_mac_def buf_simps)

text \<open>All executions of \<open>test_arping\<close>, up to the label \<open>out\<close>.\<close>

lemma get_if_info_result:
  assumes "execs (get_if_info ifname) tr out"
  shows "out = Done (-1, None) \<or> (\<exists>i. out = Done (0, Some i) \<and> length (if_mac i) = 6)"
proof -
  have "wp (\<lambda>_ _. True) (get_if_info ifname)
      (\<lambda>_ out. out = Done (-1, None) \<or> (\<exists>i. out = Done (0, Some i) \<and> length (if_mac i) = 6)) []"
    by (auto simp: get_if_info_def get_if_ip4_def if_out_def Let_def ifru_reads)
  from wp_execsI [OF this assms] show ?thesis by auto
qed

lemma bind_arp_runs:
  assumes "execs (bind_arp i) tr out"
  obtains (socket) r where "tr = [(Socket AF_PACKET SOCK_RAW 0x0608, r)]" "res r \<le> 0" "out = Done (-1, res r)"
  | (failed) r a r' r'' where "tr = [(Socket AF_PACKET SOCK_RAW 0x0608, r), (Bind (res r) a, r'), (CloseFd (res r), r'')]"
      "0 < res r" "res r' < 0" "out = Done (-1, res r)"
  | (bound) r a r' where "tr = [(Socket AF_PACKET SOCK_RAW 0x0608, r), (Bind (res r) a, r')]"
      "0 < res r" "0 \<le> res r'" "out = Done (0, res r)"
  using assms by (auto simp: bind_arp_def execs_Call Let_def split: if_splits)

lemma arping_out_runs: "execs (arping_out arp_fd v) tr out \<longleftrightarrow>
  out = Done v \<and> (if arp_fd = 0 then tr = [] else \<exists>r. tr = [(CloseFd arp_fd, r)])"
  by (auto simp: arping_out_def execs_Call)

lemma send_arp_reply_runs:
  assumes "length src_mac = 6" "execs (send_arp_reply fd ifindex src_mac dst) tr out"
  shows "\<exists>f d r e. tr = [(Sendto fd f d, r)] \<and> out = Done e"
  using assms by (auto simp: send_arp_reply_def arp_frame_def gateway_mac_def buf_simps execs_Call split: if_splits)

lemma test_arping_runs:
  assumes "execs (test_arping_reply arp_fd ifname dst) tr out" "tr \<noteq> []"
  obtains (info) tr1 tr2 where "tr = tr1 @ tr2" "execs (get_if_info ifname) tr1 (Done (-1, None))"
      "execs (arping_out arp_fd (-1)) tr2 out"
  | (port) tr1 tr2 tr3 i fd where "tr = tr1 @ tr2 @ tr3" "execs (get_if_info ifname) tr1 (Done (0, Some i))"
      "execs (bind_arp (if_index i)) tr2 (Done (-1, fd))" "execs (arping_out fd (-1)) tr3 out"
  | (sent) tr1 tr2 tr3 i fd f d r v where "tr = tr1 @ tr2 @ (Sendto fd f d, r) # tr3" "execs (get_if_info ifname) tr1 (Done (0, Some i))"
      "execs (bind_arp (if_index i)) tr2 (Done (0, fd))" "execs (arping_out fd v) tr3 out"
proof -
  let ?p = "\<lambda>i. bind (bind_arp (if_index i)) (\<lambda>(e, arp_fd).
        if e \<noteq> 0 then arping_out arp_fd (-1)
        else bind (send_arp_reply arp_fd (if_index i) (if_mac i) dst) (\<lambda>e.
        if e \<noteq> 0 then arping_out arp_fd (-1) else arping_out arp_fd 0))"
  have "\<not> (dst = [0, 0, 0, 0] \<or> dst = [255, 255, 255, 255])" using assms by (auto simp: test_arping_reply_def)
  then have e: "execs (bind (get_if_info ifname) (\<lambda>(e, info). if e \<noteq> 0 then arping_out arp_fd (-1) else need info ?p)) tr out"
    using assms(1) by (simp only: test_arping_reply_def if_False)
  obtain e info tr1 tr2 where 1: "tr = tr1 @ tr2" "execs (get_if_info ifname) tr1 (Done (e, info))"
      "execs (if e \<noteq> 0 then arping_out arp_fd (-1) else need info ?p) tr2 out"
  proof -
    have "\<not> execs (get_if_info ifname) tr Undefined" "\<not> execs (get_if_info ifname) tr (Exited n)" for n
      using get_if_info_result [of ifname tr Undefined] get_if_info_result [of ifname tr "Exited n"] by auto
    with e show ?thesis using that by (auto simp: execs_bind)
  qed
  from get_if_info_result [OF 1(2)] show ?thesis
  proof (elim disjE exE conjE)
    assume "Done (e, info) = Done (-1, None)"
    with 1 show ?thesis using info [of tr1 tr2] by simp
  next
    fix i assume i: "Done (e, info) = Done (0, Some i)" "length (if_mac i) = 6"
    then have "execs (?p i) tr2 out" using 1(3) by simp
    then obtain a fd ta tb where 2: "tr2 = ta @ tb" "execs (bind_arp (if_index i)) ta (Done (a, fd))"
        "execs (if a \<noteq> 0 then arping_out fd (-1) else bind (send_arp_reply fd (if_index i) (if_mac i) dst) (\<lambda>e.
          if e \<noteq> 0 then arping_out fd (-1) else arping_out fd 0)) tb out"
      unfolding execs_bind [of "bind_arp _"] by (auto elim: bind_arp_runs)
    have "a = -1 \<or> a = 0" using 2(2) by (auto elim: bind_arp_runs)
    then show ?thesis
    proof
      assume "a = -1"
      with 1 2 i show ?thesis using port [of tr1 ta tb i fd] by simp
    next
      assume a: "a = 0"
      then obtain tc td e' where 3: "tb = tc @ td" "execs (send_arp_reply fd (if_index i) (if_mac i) dst) tc (Done e')"
          "execs (if e' \<noteq> 0 then arping_out fd (-1) else arping_out fd 0) td out"
      proof -
        have "\<not> execs (send_arp_reply fd (if_index i) (if_mac i) dst) tb Undefined"
          "\<not> execs (send_arp_reply fd (if_index i) (if_mac i) dst) tb (Exited n)" for n
          using send_arp_reply_runs [OF i(2), of fd "if_index i" dst tb] by auto
        with a 2(3) show ?thesis using that by (auto simp: execs_bind)
      qed
      obtain f d r where "tc = [(Sendto fd f d, r)]" using send_arp_reply_runs [OF i(2) 3(2)] by blast
      with 1 2 3 a i show ?thesis using sent [of tr1 ta fd f d r td i "if e' \<noteq> 0 then -1 else 0"] by (simp split: if_splits)
    qed
  qed
qed

lemma get_if_info_no_bind: "execs (get_if_info ifname) tr out \<Longrightarrow> (Bind fd a, r) \<notin> set tr"
proof -
  assume e: "execs (get_if_info ifname) tr out"
  have "only (\<lambda>c. \<forall>fd a. c \<noteq> Bind fd a) (get_if_info ifname)"
    by (auto simp: get_if_info_def get_if_ip4_def if_out_def Let_def ifru_reads)
  from only_execs [OF e this] show ?thesis by auto
qed

section \<open>Frames\<close>

lemma arp_frame_ok:
  assumes "length h_dest = 6" "length src_mac = 6" "length target_mac = 6" "length sender_ip = 4" "length target_ip = 4"
  obtains buffer where "arp_frame h_dest src_mac opcode target_mac sender_ip target_ip = Some buffer"
    "length (take 42 buffer) = 42" "peek 0 6 (take 42 buffer) = Some h_dest" "peek 6 6 (take 42 buffer) = Some src_mac"
    "is_arp (take 42 buffer) opcode src_mac sender_ip target_mac target_ip"
proof -
  define b where "b = wr 38 target_ip (wr 28 sender_ip (wr 20 (le16 (htons opcode)) (wr 19 [4] (wr 18 [6]
    (wr 16 (le16 (htons 0x0800)) (wr 14 (le16 (htons 1)) (wr 12 (le16 (htons 0x0806)) (wr 22 src_mac (wr 6 src_mac
    (wr 32 target_mac (wr 0 h_dest (replicate 60 0))))))))))))"
  have "arp_frame h_dest src_mac opcode target_mac sender_ip target_ip = Some b"
    using assms by (simp add: arp_frame_def b_def buf_simps)
  moreover have len: "length b = 60" by (simp add: b_def)
  moreover have p: "peek off n (take 42 b) = peek off n b" if "off + n \<le> 42" for off n
    using that len by (intro peek_take) simp_all
  have "peek 0 6 (take 42 b) = Some h_dest" "peek 6 6 (take 42 b) = Some src_mac"
    using assms by (simp_all add: p) (simp_all add: b_def buf_simps)
  moreover have "is_arp (take 42 b) opcode src_mac sender_ip target_mac target_ip"
    unfolding is_arp_def using assms
    by (intro conjI get16I; simp add: p) (simp_all add: b_def buf_simps)
  ultimately show ?thesis by (intro that [of b]) simp_all
qed

text \<open>What \<open>read_arp\<close> does with a frame.\<close>

lemma read_arp_frame:
  assumes "is_arp frame opcode mac ip tmac tip" "length frame \<le> 60" "length buffer = 60"
    and "execs (read_arp buffer fd) tr out" "\<forall>(c, r) \<in> set tr. c = Recvfrom fd 60 \<longrightarrow> res r \<noteq> -1 \<and> data r = frame"
  shows "\<exists>r r1 r2. if opcode = 2 then out = Done 0 \<and> tr = [(Recvfrom fd 60, r),
      (Print ''Sender IP: %s'' [S (inet_ntoa ip)], r1),
      (Print ''Sender MAC: %02X:%02X:%02X:%02X:%02X:%02X'' (map (\<lambda>b. D (uint b)) mac), r2)]
    else out = Done (-1) \<and> tr = [(Recvfrom fd 60, r)]"
proof -
  have "poke 0 frame buffer = Some (wr 0 frame buffer)" using assms(2,3) by (simp add: poke_wr)
  moreover have "is_arp (wr 0 frame buffer) opcode mac ip tmac tip"
    using is_arp_over [OF assms(1)] assms(2,3) by simp
  ultimately show ?thesis
    using assms(4,5) by (auto simp: read_arp_def execs_Call is_arp_def split: if_splits)
qed

section \<open>The request loop\<close>

definition main_arp_request :: "(bytes \<Rightarrow> bytes) \<Rightarrow> nat \<Rightarrow> (nat \<Rightarrow> bytes) \<Rightarrow> int \<Rightarrow> bytes list \<Rightarrow> int option sys" where
  "main_arp_request inet_addr n garbage arp_fd argv =
     (if length argv \<noteq> 3 then Call (Print ''Usage: %s <INTERFACE> <DEST_IP>'' []) (\<lambda>_. Ret (Some 1))
      else test_arping_request n garbage arp_fd (argv ! 1) (inet_addr (argv ! 2)))"

text \<open>One iteration per packet: the loop ends exactly with the first ARP reply received.\<close>

definition arp_reply_in :: "bytes \<Rightarrow> bytes \<Rightarrow> bool" where
  "arp_reply_in buffer pkt \<longleftrightarrow> get16 12 (wr 0 pkt buffer) = Some (htons 0x0806) \<and> get16 20 (wr 0 pkt buffer) = Some (htons 2)"

definition reads_of :: "trace \<Rightarrow> resp list" where
  "reads_of tr = map snd (filter (\<lambda>(c, r). \<exists>fd n. c = Recvfrom fd n) tr)"

lemma reads_of_simps [simp]:
  "reads_of [] = []" "reads_of ((Recvfrom fd n, r) # tr) = r # reads_of tr"
  "reads_of ((Print f l, r) # tr) = reads_of tr" "reads_of (tr @ tr') = reads_of tr @ reads_of tr'"
  by (simp_all add: reads_of_def)

lemma read_arp_cases:
  assumes "execs (read_arp buffer fd) tr out" "length buffer = 60" "\<forall>r \<in> set (reads_of tr). length (data r) \<le> 60"
  obtains r where "reads_of tr = [r]"
    "out = Done (if res r \<noteq> -1 \<and> arp_reply_in buffer (data r) then 0 else -1)"
proof -
  obtain r tr' where tr: "tr = (Recvfrom fd 60, r) # tr'" using assms(1) by (auto simp: read_arp_def execs_Call)
  with assms(3) have l: "length (data r) \<le> 60" by simp
  let ?b = "wr 0 (data r) buffer"
  have b: "poke 0 (data r) buffer = Some ?b" "length ?b = 60" using l assms(2) by (simp_all add: poke_wr)
  then obtain proto opc ip mac where "get16 12 ?b = Some proto" "get16 20 ?b = Some opc" "peek 28 4 ?b = Some ip"
    "peek 22 6 ?b = Some mac" by (auto simp: get16_def peek_def)
  moreover have "ntohs x = y \<longleftrightarrow> x = htons y" for x y by auto
  ultimately have "reads_of tr = [r]" "out = Done (if res r \<noteq> -1 \<and> arp_reply_in buffer (data r) then 0 else -1)"
    using assms(1) b tr by (auto simp: read_arp_def execs_Call arp_reply_in_def split: if_splits)
  then show ?thesis by (rule that)
qed

lemma read_until_reads:
  assumes "execs (read_until n garbage fd) tr out" "\<And>i. length (garbage i) = 60"
    and "\<forall>r \<in> set (reads_of tr). length (data r) \<le> 60"
  shows "(out = Done None \<and> length (reads_of tr) = n \<and>
      (\<forall>i < n. \<not> (res (reads_of tr ! i) \<noteq> -1 \<and> arp_reply_in (garbage (n - 1 - i)) (data (reads_of tr ! i))))) \<or>
    (\<exists>k < n. out = Done (Some ()) \<and> length (reads_of tr) = Suc k \<and>
      (\<forall>i \<le> k. (res (reads_of tr ! i) \<noteq> -1 \<and> arp_reply_in (garbage (n - 1 - i)) (data (reads_of tr ! i))) \<longleftrightarrow> i = k))"
  using assms(1,3)
proof (induction n arbitrary: tr)
  case (Suc n)
  have "read_arp (garbage n) fd \<noteq> Ub" "\<And>x. read_arp (garbage n) fd \<noteq> Exit x" by (simp_all add: read_arp_def)
  obtain a tr1 tr2 where tr: "tr = tr1 @ tr2" "execs (read_arp (garbage n) fd) tr1 (Done a)"
      "execs (if a = 0 then Ret (Some ()) else read_until n garbage fd) tr2 out"
    using Suc.prems(1) Suc.prems(2) unfolding read_until.simps execs_bind
    by (auto elim: read_arp_cases [OF _ assms(2)])
  obtain r where r: "reads_of tr1 = [r]" "a = (if res r \<noteq> -1 \<and> arp_reply_in (garbage n) (data r) then 0 else -1)"
    using read_arp_cases [OF tr(2) assms(2)] Suc.prems(2) tr(1) by auto
  show ?case
  proof (cases "a = 0")
    case True
    then have "tr2 = []" "out = Done (Some ())" using tr(3) by auto
    then show ?thesis using r True tr(1) by (intro disjI2 exI [of _ 0]) (auto split: if_splits)
  next
    case False
    then have e: "execs (read_until n garbage fd) tr2 out" using tr(3) by simp
    have nr: "\<not> (res r \<noteq> -1 \<and> arp_reply_in (garbage n) (data r))" using False r(2) by auto
    have rs: "reads_of tr = r # reads_of tr2" using r(1) tr(1) by simp
    from Suc.IH [OF e] Suc.prems(2) rs
    consider "out = Done None" "length (reads_of tr2) = n"
        "\<forall>i < n. \<not> (res (reads_of tr2 ! i) \<noteq> -1 \<and> arp_reply_in (garbage (n - 1 - i)) (data (reads_of tr2 ! i)))"
      | k where "k < n" "out = Done (Some ())" "length (reads_of tr2) = Suc k"
        "\<forall>i \<le> k. (res (reads_of tr2 ! i) \<noteq> -1 \<and> arp_reply_in (garbage (n - 1 - i)) (data (reads_of tr2 ! i))) \<longleftrightarrow> i = k"
      by auto
    then show ?thesis
    proof cases
      case 1
      then show ?thesis using nr rs by (intro disjI1) (auto simp: less_Suc_eq_0_disj)
    next
      case 2
      have "(res (reads_of tr ! i) \<noteq> -1 \<and> arp_reply_in (garbage (Suc n - 1 - i)) (data (reads_of tr ! i))) \<longleftrightarrow> i = Suc k"
        if "i \<le> Suc k" for i
      proof (cases i)
        case 0
        then show ?thesis using nr rs by simp
      next
        case (Suc j)
        then show ?thesis using 2(4) [rule_format, of j] that rs by simp
      qed
      then show ?thesis using 2(1-3) rs by (intro disjI2 exI [of _ "Suc k"]) simp
    qed
  qed
qed simp

lemma get_if_info_balanced_run: "execs (get_if_info ifname) tr out \<Longrightarrow> fresh_fds {} tr \<Longrightarrow> fds_from {} tr = Some {}"
  using fdwp_sound [OF get_if_info_fds [of "{}" any]] by fastforce

text \<open>The descriptors of the three kinds of run of \<open>test_arping\<close>.\<close>

lemma one_info:
  assumes "execs (get_if_info ifname) tr1 (Done (0, Some i))"
  shows "\<not> (\<exists>tr1' tr2' e info. tr1 @ tr2 = tr1' @ tr2' \<and> execs (get_if_info ifname) tr1' (Done (e, info)) \<and> e \<noteq> 0)"
  using execs_prefix [OF assms] by fastforce

lemma info_first:
  "execs (get_if_info ifname) tr1 (Done v) \<Longrightarrow> fresh_fds {} (tr1 @ tr2) \<Longrightarrow>
   fds_from {} (tr1 @ tr2) = fds_from {} tr2 \<and> fresh_fds {} tr2"
  using get_if_info_balanced_run [of ifname tr1 "Done v"] by (auto simp: fresh_fds_append fds_from_append)

lemma no_info_fds:
  assumes "execs (get_if_info ifname) tr1 (Done v)" "execs (arping_out arp_fd (-1)) tr2 out" "fresh_fds {} (tr1 @ tr2)"
  shows "(\<exists>n. out = Done n) \<and> (fds_from {} (tr1 @ tr2) = Some {} \<longleftrightarrow> arp_fd = 0) \<and>
    \<not> (\<exists>fd a r. (Bind fd a, r) \<in> set (tr1 @ tr2) \<and> 0 \<le> res r)"
  using assms(2) get_if_info_no_bind [OF assms(1)] info_first [OF assms(1,3)]
  by (auto simp: arping_out_runs split: if_splits)

lemma failed_port_fds:
  assumes "execs (get_if_info ifname) tr1 (Done v)" "execs (bind_arp j) tr2 (Done (-1, fd))" "execs (arping_out fd (-1)) tr3 out"
    and "fresh_fds {} (tr1 @ tr2 @ tr3)"
  shows "(\<exists>n. out = Done n) \<and> fds_from {} (tr1 @ tr2 @ tr3) \<noteq> Some {} \<and>
    \<not> (\<exists>fd a r. (Bind fd a, r) \<in> set (tr1 @ tr2 @ tr3) \<and> 0 \<le> res r)"
proof -
  note n = get_if_info_no_bind [OF assms(1)]
  note f = info_first [OF assms(1,4)]
  from assms(2) show ?thesis
  proof (cases rule: bind_arp_runs)
    case (socket r)
    then have "res r < 0" "fd = res r" using f by (auto simp: fresh_fd_def)
    with socket f n assms(3) show ?thesis by (auto simp: fds_from_append arping_out_runs)
  next
    case (failed r a r' r'')
    then show ?thesis using f n assms(3) by (auto simp: fds_from_append arping_out_runs)
  qed simp
qed

lemma sent_fds:
  assumes "execs (get_if_info ifname) tr1 (Done v)" "execs (bind_arp j) tr2 (Done (0, fd))" "execs (arping_out fd w) tr3 out"
    and "fresh_fds {} (tr1 @ tr2 @ (Sendto fd f d, r) # tr3)"
  shows "(\<exists>n. out = Done n) \<and> fds_from {} (tr1 @ tr2 @ (Sendto fd f d, r) # tr3) = Some {} \<and>
    (\<exists>fd' a r'. (Bind fd' a, r') \<in> set (tr1 @ tr2 @ (Sendto fd f d, r) # tr3) \<and> 0 \<le> res r')"
proof -
  from assms(2) obtain s b r' where t: "tr2 = [(Socket AF_PACKET SOCK_RAW 0x0608, s), (Bind (res s) b, r')]" "0 \<le> res r'" "0 < res s" "fd = res s"
    by (cases rule: bind_arp_runs) auto
  then show ?thesis using info_first [OF assms(1,4)] assms(3) by (auto simp: fds_from_append arping_out_runs)
qed

section \<open>Properties\<close>

text \<open>
  C11. \<open>get_if_info\<close> returns on every answer of the kernel, leaves no descriptor open and closes
  only its own; when it reports success the caller gets an address and six bytes of MAC.
\<close>

theorem get_if_info_balanced:
  assumes "execs (get_if_info ifname) tr out" "fresh_fds {} tr"
  shows "fds_from {} tr = Some {} \<and>
    (\<exists>e info. out = Done (e, info) \<and> (e = -1 \<and> info = None \<or>
       e = 0 \<and> (\<exists>i. info = Some i \<and> if_ip i \<noteq> None \<and> length (if_mac i) = 6)))"
  using fdwp_sound [OF get_if_info_fds [of "{}" any] assms] by fastforce

text \<open>
  C12. The error path of \<open>test_arping\<close> is wrong: in every execution in which \<open>bind\<close> fails on a
  descriptor, that descriptor is closed twice, by \<open>bind_arp\<close> and, as the very next call, by
  \<open>test_arping\<close>, which then reports the error.
\<close>

theorem test_arping_closes_twice:
  assumes "execs (test_arping_reply arp_fd ifname dst) tr out" "(Bind fd a, r) \<in> set tr" "res r < 0"
  shows "\<exists>tr' r1 r2. tr = tr' @ [(Bind fd a, r), (CloseFd fd, r1), (CloseFd fd, r2)] \<and> out = Done (-1)"
proof -
  have "tr \<noteq> []" using assms(2) by auto
  from assms(1) this show ?thesis
  proof (cases rule: test_arping_runs)
    case (info tr1 tr2)
    then show ?thesis using assms(2) get_if_info_no_bind [OF info(2)] by (auto simp: arping_out_runs split: if_splits)
  next
    case (port tr1 tr2 tr3 i fd')
    note n = get_if_info_no_bind [OF port(2)]
    from port(3) show ?thesis
    proof (cases rule: bind_arp_runs)
      case (socket r0)
      then show ?thesis using assms(2) port n by (auto simp: arping_out_runs split: if_splits)
    next
      case (failed r0 b r' r'')
      then obtain rc where "tr3 = [(CloseFd fd', rc)]" "out = Done (-1)" using port(4) by (auto simp: arping_out_runs)
      with failed port assms(2) n show ?thesis by (intro exI [of _ "tr1 @ [(Socket AF_PACKET SOCK_RAW 0x0608, r0)]"]) auto
    qed simp
  next
    case (sent tr1 tr2 tr3 i fd' f d r0 v)
    note n = get_if_info_no_bind [OF sent(2)]
    from sent(3) obtain s b r' where "tr2 = [(Socket AF_PACKET SOCK_RAW 0x0608, s), (Bind (res s) b, r')]" "0 \<le> res r'"
      by (cases rule: bind_arp_runs) auto
    with assms(2,3) sent n show ?thesis by (auto simp: arping_out_runs split: if_splits)
  qed
qed

text \<open>
  C13. Exactly when \<open>test_arping\<close> closes every descriptor it opened, once, and no other: when it
  refuses the address, when \<open>bind\<close> succeeds (whatever \<open>sendto\<close> does then), or when \<open>get_if_info\<close>
  fails and the uninitialised \<open>arp_fd\<close> happens to be 0.  Otherwise it closes the uninitialised
  descriptor, the -1 of a failed \<open>socket\<close> or one it has closed.  It returns in every case.
\<close>

theorem test_arping_balanced:
  assumes "execs (test_arping_reply arp_fd ifname dst) tr out" "fresh_fds {} tr"
  shows "(\<exists>n. out = Done n) \<and> (fds_from {} tr = Some {} \<longleftrightarrow>
    tr = [] \<or> (\<exists>fd a r. (Bind fd a, r) \<in> set tr \<and> 0 \<le> res r) \<or>
    arp_fd = 0 \<and> (\<exists>tr1 tr2 e info. tr = tr1 @ tr2 \<and> execs (get_if_info ifname) tr1 (Done (e, info)) \<and> e \<noteq> 0))"
proof (cases "tr = []")
  case True
  then have "out = Done 1"
    using assms(1) by (auto simp: test_arping_reply_def get_if_info_def execs_Call split: if_splits)
  with True show ?thesis by simp
next
  case False
  from assms(1) False show ?thesis
  proof (cases rule: test_arping_runs)
    case (info tr1 tr2)
    have "\<exists>tr1 tr2 e info. tr = tr1 @ tr2 \<and> execs (get_if_info ifname) tr1 (Done (e, info)) \<and> e \<noteq> 0"
      using info(1,2) by (intro exI [of _ tr1] exI [of _ tr2] exI [of _ "-1"] exI [of _ None]) simp
    with False no_info_fds [OF info(2,3), folded info(1)] assms(2) show ?thesis by blast
  next
    case (port tr1 tr2 tr3 i fd)
    from failed_port_fds [OF port(2-4), folded port(1)] one_info [OF port(2), of "tr2 @ tr3", folded port(1)] assms(2) False
    show ?thesis by blast
  next
    case (sent tr1 tr2 tr3 i fd f d r v)
    from sent_fds [OF sent(2-4), of f d r, folded sent(1)] assms(2) show ?thesis by blast
  qed
qed

text \<open>
  C14. The reply arp_reply.c sends is understood by \<open>read_arp\<close> of arp_request.c, whatever its
  buffer held before: it returns 0 after printing the sender's addresses of the frame.
\<close>

theorem arp_reply_understood:
  assumes "length src_mac = 6" "length buffer = 60"
    and "execs (send_arp_reply fd ifindex src_mac dst) [(Sendto fd frame dest, r)] (Done 0)"
    and "execs (read_arp buffer fd') tr out" "\<forall>(c, r) \<in> set tr. c = Recvfrom fd' 60 \<longrightarrow> res r \<noteq> -1 \<and> data r = frame"
  shows "\<exists>r r1 r2. out = Done 0 \<and> tr = [(Recvfrom fd' 60, r),
      (Print ''Sender IP: %s'' [S (inet_ntoa (le32 (htonl 0xac1e8b64)))], r1),
      (Print ''Sender MAC: %02X:%02X:%02X:%02X:%02X:%02X'' (map (\<lambda>b. D (uint b)) src_mac), r2)]"
proof -
  obtain b where b: "arp_frame gateway_mac src_mac 2 gateway_mac (le32 (htonl 0xac1e8b64)) (le32 (htonl 0xac1e8806)) = Some b"
    "length (take 42 b) = 42" "is_arp (take 42 b) 2 src_mac (le32 (htonl 0xac1e8b64)) gateway_mac (le32 (htonl 0xac1e8806))"
    by (rule arp_frame_ok [of gateway_mac src_mac gateway_mac "le32 (htonl 0xac1e8b64)" "le32 (htonl 0xac1e8806)" 2])
       (use assms(1) in \<open>simp_all add: gateway_mac_def\<close>)
  then have "frame = take 42 b" using assms(3) by (auto simp: send_arp_reply_def execs_Call)
  with b(2,3) read_arp_frame [OF _ _ assms(2,4), of frame 2] assms(5) show ?thesis by fastforce
qed

text \<open>
  C15. The loop of arp_request.c stops with the first packet that is an ARP reply, not before
  and not after: errors of \<open>recvfrom\<close>, other protocols and requests (also those that look like
  replies in another buffer) are skipped.  It returns as soon as such a packet comes.
\<close>

theorem read_until_first_reply:
  assumes "execs (read_until n garbage fd) tr out" "\<And>i. length (garbage i) = 60"
    and "\<forall>r \<in> set (reads_of tr). length (data r) \<le> 60"
  shows "(out = Done None \<and> length (reads_of tr) = n \<and>
      (\<forall>i < n. \<not> (res (reads_of tr ! i) \<noteq> -1 \<and> arp_reply_in (garbage (n - 1 - i)) (data (reads_of tr ! i))))) \<or>
    (\<exists>k < n. out = Done (Some ()) \<and> length (reads_of tr) = Suc k \<and>
      (\<forall>i \<le> k. (res (reads_of tr ! i) \<noteq> -1 \<and> arp_reply_in (garbage (n - 1 - i)) (data (reads_of tr ! i))) \<longleftrightarrow> i = k))"
  by (rule read_until_reads [OF assms])

section \<open>Witnesses\<close>

text \<open>The answers of a kernel where everything succeeds.\<close>

abbreviation (input) "good_socket \<equiv> answered\<lparr>res := 3\<rparr>"
abbreviation (input) "good_addr \<equiv> answered\<lparr>data := [2, 0, 0, 0, 10, 0, 0, 1]\<rparr>"

lemma good_addr: "int_ip4 (ifru good_addr) = Some (0, Some [10, 0, 0, 1])"
proof -
  have "unat (rd16 2 0) = 2" by (simp add: unat_rd16)
  then have "rd16 2 0 = 2" by (intro word_unat_eq_iff [THEN iffD2]) simp
  then show ?thesis unfolding ifru_reads by (simp add: ifru_def answered_def)
qed

lemmas arping_run = test_arping_reply_def get_if_info_def bind_arp_def get_if_ip4_def if_out_def arping_out_def
  send_arp_reply_def arp_frame_def gateway_mac_def Let_def ifru_reads(1,2) fresh_fd_def answered_def buf_simps

theorem get_if_info_balanced_witness:
  "\<exists>tr info. execs (get_if_info [101, 116, 104]) tr (Done (0, Some info)) \<and> fds_from {} tr = Some {}"
proof -
  obtain tr info where "run (get_if_info [101, 116, 104])
      [good_socket, answered, answered, answered, good_addr, answered] = Some (tr, Done (0, Some info))" "fresh_fds {} tr"
    using good_addr by (simp add: arping_run)
  with get_if_info_balanced run_execs show ?thesis by blast
qed

theorem test_arping_closes_twice_witness:
  "\<exists>tr tr' r1 r2 a r. execs (test_arping_reply 7 [101, 116, 104] [10, 0, 0, 2]) tr (Done (-1)) \<and>
     tr = tr' @ [(Bind 3 a, r), (CloseFd 3, r1), (CloseFd 3, r2)]"
proof -
  obtain tr a where r: "run (test_arping_reply 7 [101, 116, 104] [10, 0, 0, 2])
      [good_socket, answered, answered, answered, good_addr, answered, good_socket, answered\<lparr>res := -1\<rparr>, answered, answered] =
        Some (tr, Done (-1))" "(Bind 3 a, answered\<lparr>res := -1\<rparr>) \<in> set tr"
    using good_addr by (simp add: arping_run)
  have "res (answered\<lparr>res := -1\<rparr>) < 0" by simp
  from test_arping_closes_twice [OF run_execs [OF r(1)] r(2) this] run_execs [OF r(1)] show ?thesis by blast
qed

text \<open>\<open>sendto\<close> fails; the uninitialised descriptor is 7.\<close>

theorem test_arping_balanced_witness:
  "\<exists>tr. execs (test_arping_reply 7 [101, 116, 104] [10, 0, 0, 2]) tr (Done (-1)) \<and> tr \<noteq> [] \<and> fds_from {} tr = Some {}"
proof -
  obtain tr a where r: "run (test_arping_reply 7 [101, 116, 104] [10, 0, 0, 2])
      [good_socket, answered, answered, answered, good_addr, answered, good_socket, answered,
       answered\<lparr>res := -1\<rparr>, answered] = Some (tr, Done (-1))" "fresh_fds {} tr" "tr \<noteq> []" "(Bind 3 a, answered) \<in> set tr"
    using good_addr by (simp add: arping_run)
  have "0 \<le> res answered" by (simp add: answered_def)
  with r(4) test_arping_balanced [OF run_execs [OF r(1)] r(2)] have "fds_from {} tr = Some {}" by blast
  with r(3) run_execs [OF r(1)] show ?thesis by blast
qed

theorem arp_reply_understood_witness:
  "\<exists>frame tr r. execs (send_arp_reply 4 1 [2, 0, 0, 0, 0, 1] [10, 0, 0, 2]) [(Sendto 4 frame (arp_dest 1 [2, 0, 0, 0, 0, 1]), r)] (Done 0) \<and>
     execs (read_arp (replicate 60 7) 5) tr (Done 0)"
proof -
  obtain b where b: "arp_frame gateway_mac [2, 0, 0, 0, 0, 1] 2 gateway_mac (le32 (htonl 0xac1e8b64)) (le32 (htonl 0xac1e8806)) = Some b"
    "length (take 42 b) = 42" "is_arp (take 42 b) 2 [2, 0, 0, 0, 0, 1] (le32 (htonl 0xac1e8b64)) gateway_mac (le32 (htonl 0xac1e8806))"
    by (rule arp_frame_ok [of gateway_mac "[2, 0, 0, 0, 0, 1]" gateway_mac "le32 (htonl 0xac1e8b64)" "le32 (htonl 0xac1e8806)" 2])
       (simp_all add: gateway_mac_def)
  let ?f = "take 42 b" and ?g = "replicate 60 (7 :: u8)"
  have s: "execs (send_arp_reply 4 1 [2, 0, 0, 0, 0, 1] [10, 0, 0, 2]) [(Sendto 4 ?f (arp_dest 1 [2, 0, 0, 0, 0, 1]), answered)] (Done 0)"
    using b(1) by (simp add: send_arp_reply_def execs_Call answered_def)
  have "poke 0 ?f ?g = Some (wr 0 ?f ?g)" "is_arp (wr 0 ?f ?g) 2 [2, 0, 0, 0, 0, 1] (le32 (htonl 0xac1e8b64)) gateway_mac (le32 (htonl 0xac1e8806))"
    using is_arp_over [OF b(3), of ?g] b(2) by (simp_all add: poke_wr)
  then obtain tr out where t: "run (read_arp ?g 5) [answered\<lparr>res := 42, data := ?f\<rparr>, answered, answered] = Some (tr, out)"
      "\<forall>(c, r) \<in> set tr. c = Recvfrom 5 60 \<longrightarrow> res r \<noteq> -1 \<and> data r = ?f"
    by (simp add: read_arp_def is_arp_def answered_def del: take_replicate)
  have "out = Done 0"
    using arp_reply_understood [OF _ _ s run_execs [OF t(1)] t(2)] by simp
  with s run_execs [OF t(1)] show ?thesis by blast
qed

theorem read_until_first_reply_witness:
  "\<exists>r. execs (read_until 1 (\<lambda>_. replicate 60 0) 5) [(Recvfrom 5 60, r)] (Done None) \<and>
     \<not> (res r \<noteq> -1 \<and> arp_reply_in (replicate 60 0) (data r))"
proof -
  let ?r = "answered\<lparr>res := -1\<rparr>"
  have e: "execs (read_until 1 (\<lambda>_. replicate 60 0) 5) [(Recvfrom 5 60, ?r)] (Done None)"
    by (simp add: read_arp_def execs_Call)
  show ?thesis using e read_until_first_reply [OF e] by (intro exI [of _ ?r]) (simp add: answered_def)
qed

end
