(* ===== verification/Sniffer.thy ===== *)
theory Sniffer
  imports Unix "HOL-Library.Monad_Syntax"
begin

text \<open>
  The packet sniffers packet_sniffing/pcap/packet_sniff.c and packet_sniffing/raw_sockets/
  packet_sniff.c.  Both count packets by protocol and write a description and a hex dump to a
  log; the functions below are the same in the two files.  The log is the list of \<open>fprintf\<close>
  calls, a format with its arguments.  A packet is a list of bytes together with the size the
  functions are told; reading behind the bytes is \<^term>\<open>None\<close>.
\<close>

type_synonym log = "(string \<times> arg list) list"

definition nl :: string where "nl = [CHR 0x0A]"

definition Du8 :: "u8 \<Rightarrow> arg" where "Du8 x = D (uint x)"
definition Du16 :: "u16 \<Rightarrow> arg" where "Du16 x = D (uint x)"
definition Du32 :: "u32 \<Rightarrow> arg" where "Du32 x = D (uint x)"

definition ntohl :: "u32 \<Rightarrow> u32" where "ntohl x = htonl x"

section \<open>PrintData\<close>

definition ascii :: "u8 \<Rightarrow> string \<times> arg list" where
  "ascii b = (if 32 \<le> unat b \<and> unat b \<le> 128 then (''%c'', [Du8 b]) else (''.'', []))"

definition gap :: "string \<times> arg list" where "gap = (''         '', [])"

text \<open>Iteration \<open>i\<close> of the loop over the \<open>Size\<close> bytes of \<open>d\<close>.\<close>

definition PrintData_step :: "bytes \<Rightarrow> nat \<Rightarrow> nat \<Rightarrow> log" where
  "PrintData_step d Size i =
     (if i \<noteq> 0 \<and> i mod 16 = 0 then gap # map (\<lambda>j. ascii (d ! j)) [i - 16..<i] @ [(nl, [])] else []) @
     (if i mod 16 = 0 then [(''   '', [])] else []) @
     [('' %02X'', [Du8 (d ! i)])] @
     (if i = Size - 1 then replicate (15 - i mod 16) (''   '', []) @ gap #
        map (\<lambda>j. ascii (d ! j)) [i - i mod 16..<Suc i] @ [(nl, [])] else [])"

definition PrintData :: "bytes \<Rightarrow> nat \<Rightarrow> int \<Rightarrow> log option" where
  "PrintData mem off Size =
     (if Size \<le> 0 then Some []
      else map_option (\<lambda>d. concat (map (PrintData_step d (nat Size)) [0..<nat Size])) (peek off (nat Size) mem))"

section \<open>Headers\<close>

definition mac_args :: "bytes \<Rightarrow> arg list" where
  "mac_args m = map Du8 m"

definition print_ethernet_header :: "bytes \<Rightarrow> log option" where
  "print_ethernet_header Buffer = do {
     dst \<leftarrow> peek 0 6 Buffer;
     src \<leftarrow> peek 6 6 Buffer;
     proto \<leftarrow> get16 12 Buffer;
     Some [(nl, []), (''Ethernet Header'', []),
       (''   |-Destination Address : %.2X-%.2X-%.2X-%.2X-%.2X-%.2X '', mac_args dst),
       (''   |-Source Address      : %.2X-%.2X-%.2X-%.2X-%.2X-%.2X '', mac_args src),
       (''   |-Protocol            : %u '', [Du16 proto])] }"

definition ihl :: "u8 \<Rightarrow> nat" where "ihl b = unat b mod 16"
definition high_nibble :: "u8 \<Rightarrow> nat" where "high_nibble b = unat b div 16"

definition print_ip_header :: "bytes \<Rightarrow> log option" where
  "print_ip_header Buffer = do {
     eth \<leftarrow> print_ethernet_header Buffer;
     vhl \<leftarrow> get8 14 Buffer;
     tos \<leftarrow> get8 15 Buffer;
     tot_len \<leftarrow> get16 16 Buffer;
     ident \<leftarrow> get16 18 Buffer;
     ttl \<leftarrow> get8 22 Buffer;
     protocol \<leftarrow> get8 23 Buffer;
     check \<leftarrow> get16 24 Buffer;
     saddr \<leftarrow> peek 26 4 Buffer;
     daddr \<leftarrow> peek 30 4 Buffer;
     Some (eth @ [(nl, []), (''IP Header'', []),
       (''   |-IP Version        : %d'', [D (int (high_nibble vhl))]),
       (''   |-IP Header Length  : %d DWORDS or %d Bytes'', [D (int (ihl vhl)), D (int (ihl vhl * 4))]),
       (''   |-Type Of Service   : %d'', [Du8 tos]),
       (''   |-IP Total Length   : %d  Bytes(Size of Packet)'', [Du16 (ntohs tot_len)]),
       (''   |-Identification    : %d'', [Du16 (ntohs ident)]),
       (''   |-TTL      : %d'', [Du8 ttl]),
       (''   |-Protocol : %d'', [Du8 protocol]),
       (''   |-Checksum : %d'', [Du16 (ntohs check)]),
       (''   |-Source IP        : %s'', [S (inet_ntoa saddr)]),
       (''   |-Destination IP   : %s'', [S (inet_ntoa daddr)])]) }"

definition flag :: "nat \<Rightarrow> u8 \<Rightarrow> arg" where "flag n b = D (if bit b n then 1 else 0)"

text \<open>The three packet printers.  The dumps of the headers start at the Ethernet header and at
  \<open>Buffer + iphdrlen\<close>, 14 bytes before the headers they are named after.\<close>

definition print_tcp_packet :: "bytes \<Rightarrow> int \<Rightarrow> log option" where
  "print_tcp_packet Buffer Size = do {
     vhl \<leftarrow> get8 14 Buffer;
     let iphdrlen = ihl vhl * 4;
     let tcph = iphdrlen + 14;
     off \<leftarrow> get8 (tcph + 12) Buffer;
     let doff = high_nibble off;
     let header_size = 14 + iphdrlen + doff * 4;
     ip \<leftarrow> print_ip_header Buffer;
     source \<leftarrow> get16 tcph Buffer;
     dest \<leftarrow> get16 (tcph + 2) Buffer;
     seq \<leftarrow> get32 (tcph + 4) Buffer;
     ack_seq \<leftarrow> get32 (tcph + 8) Buffer;
     tflags \<leftarrow> get8 (tcph + 13) Buffer;
     window \<leftarrow> get16 (tcph + 14) Buffer;
     check \<leftarrow> get16 (tcph + 16) Buffer;
     urg_ptr \<leftarrow> get16 (tcph + 18) Buffer;
     dump_ip \<leftarrow> PrintData Buffer 0 (int iphdrlen);
     dump_tcp \<leftarrow> PrintData Buffer iphdrlen (int (doff * 4));
     dump_data \<leftarrow> PrintData Buffer header_size (Size - int header_size);
     Some ([(''***********************TCP Packet*************************'', [])] @ ip @
       [(nl, []), (''TCP Header'', []),
        (''   |-Source Port      : %u'', [Du16 (ntohs source)]),
        (''   |-Destination Port : %u'', [Du16 (ntohs dest)]),
        (''   |-Sequence Number    : %u'', [Du32 (ntohl seq)]),
        (''   |-Acknowledge Number : %u'', [Du32 (ntohl ack_seq)]),
        (''   |-Header Length      : %d DWORDS or %d BYTES'', [D (int doff), D (int (doff * 4))]),
        (''   |-Urgent Flag          : %d'', [flag 5 tflags]),
        (''   |-Acknowledgement Flag : %d'', [flag 4 tflags]),
        (''   |-Push Flag            : %d'', [flag 3 tflags]),
        (''   |-Reset Flag           : %d'', [flag 2 tflags]),
        (''   |-Synchronise Flag     : %d'', [flag 1 tflags]),
        (''   |-Finish Flag          : %d'', [flag 0 tflags]),
        (''   |-Window         : %d'', [Du16 (ntohs window)]),
        (''   |-Checksum       : %d'', [Du16 (ntohs check)]),
        (''   |-Urgent Pointer : %d'', [Du16 urg_ptr]),
        (nl, []), (''                        DATA Dump                         '', []), (nl, []),
        (''IP Header'', [])] @ dump_ip @ [(''TCP Header'', [])] @ dump_tcp @ [(''Data Payload'', [])] @ dump_data @
       [(''###########################################################'', [])]) }"

text \<open>\<open>sizeof udph\<close> and \<open>sizeof icmph\<close> are the sizes of pointers; both are 8, as are the headers.\<close>

definition print_udp_packet :: "bytes \<Rightarrow> int \<Rightarrow> log option" where
  "print_udp_packet Buffer Size = do {
     vhl \<leftarrow> get8 14 Buffer;
     let iphdrlen = ihl vhl * 4;
     let udph = iphdrlen + 14;
     let header_size = 14 + iphdrlen + 8;
     ip \<leftarrow> print_ip_header Buffer;
     source \<leftarrow> get16 udph Buffer;
     dest \<leftarrow> get16 (udph + 2) Buffer;
     len \<leftarrow> get16 (udph + 4) Buffer;
     check \<leftarrow> get16 (udph + 6) Buffer;
     dump_ip \<leftarrow> PrintData Buffer 0 (int iphdrlen);
     dump_udp \<leftarrow> PrintData Buffer iphdrlen 8;
     dump_data \<leftarrow> PrintData Buffer header_size (Size - int header_size);
     Some ([(''***********************UDP Packet*************************'', [])] @ ip @
       [(''UDP Header'', []),
        (''   |-Source Port      : %d'', [Du16 (ntohs source)]),
        (''   |-Destination Port : %d'', [Du16 (ntohs dest)]),
        (''   |-UDP Length       : %d'', [Du16 (ntohs len)]),
        (''   |-UDP Checksum     : %d'', [Du16 (ntohs check)]),
        (nl, []), (''IP Header'', [])] @ dump_ip @ [(''UDP Header'', [])] @ dump_udp @ [(''Data Payload'', [])] @
       dump_data @ [(''###########################################################'', [])]) }"

definition print_icmp_packet :: "bytes \<Rightarrow> int \<Rightarrow> log option" where
  "print_icmp_packet Buffer Size = do {
     vhl \<leftarrow> get8 14 Buffer;
     let iphdrlen = ihl vhl * 4;
     let icmph = iphdrlen + 14;
     let header_size = 14 + iphdrlen + 8;
     ip \<leftarrow> print_ip_header Buffer;
     type \<leftarrow> get8 icmph Buffer;
     code \<leftarrow> get8 (icmph + 1) Buffer;
     checksum \<leftarrow> get16 (icmph + 2) Buffer;
     dump_ip \<leftarrow> PrintData Buffer 0 (int iphdrlen);
     dump_icmp \<leftarrow> PrintData Buffer iphdrlen 8;
     dump_data \<leftarrow> PrintData Buffer header_size (Size - int header_size);
     Some ([(''***********************ICMP Packet*************************'', [])] @ ip @
       [(nl, []), (''ICMP Header'', []), (''   |-Type : %d'', [Du8 type])] @
       (if type = 11 then [(''  (TTL Expired)'', [])]
        else if type = 0 then [(''  (ICMP Echo Reply)'', [])] else []) @
       [(''   |-Code : %d'', [Du8 code]), (''   |-Checksum : %d'', [Du16 (ntohs checksum)]),
        (nl, []), (''IP Header'', [])] @ dump_ip @ [(''UDP Header'', [])] @ dump_icmp @ [(''Data Payload'', [])] @
       dump_data @ [(''###########################################################'', [])]) }"

section \<open>Counting\<close>

text \<open>The counters are \<open>int\<close>: 32 bits, read with \<^const>\<open>sint\<close>.  An increment beyond \<open>2^31 - 1\<close> is
  undefined by the standard; here it wraps, which is what the machine instruction does.\<close>

record counters =
  tcp :: u32
  udp :: u32
  icmp :: u32
  igmp :: u32
  other :: u32
  packets :: u32

text \<open>\<open>process_packet\<close> of the pcap version and \<open>ProcessPacket\<close> of the other: the new counters, what
  goes to the log and the status line.\<close>

definition process_packet :: "counters \<Rightarrow> bytes \<Rightarrow> int \<Rightarrow> (counters \<times> log) option" where
  "process_packet c buffer sz = do {
     protocol \<leftarrow> get8 23 buffer;
     let c = c\<lparr>packets := packets c + 1\<rparr>;
     if protocol = 1 then map_option (Pair (c\<lparr>icmp := icmp c + 1\<rparr>)) (print_icmp_packet buffer sz)
     else if protocol = 2 then Some (c\<lparr>igmp := igmp c + 1\<rparr>, [])
     else if protocol = 6 then map_option (Pair (c\<lparr>tcp := tcp c + 1\<rparr>)) (print_tcp_packet buffer sz)
     else if protocol = 17 then map_option (Pair (c\<lparr>udp := udp c + 1\<rparr>)) (print_udp_packet buffer sz)
     else Some (c\<lparr>other := other c + 1\<rparr>, []) }"

text \<open>\<open>pcap_loop\<close> with the callback: a packet is the bytes captured and the length it had on the
  wire, which is what the callback passes on.\<close>

fun sniff_pcap :: "counters \<Rightarrow> (bytes \<times> int) list \<Rightarrow> (counters \<times> log) option" where
  "sniff_pcap c [] = Some (c, [])"
| "sniff_pcap c ((packet, len) # ps) = do {
     (c, l) \<leftarrow> process_packet c packet len;
     (c, ls) \<leftarrow> sniff_pcap c ps;
     Some (c, l @ ls) }"

text \<open>The loop of the raw-socket version: every packet is received into the same buffer of 65536
  bytes, over what was there.\<close>

fun sniff_raw :: "counters \<Rightarrow> bytes \<Rightarrow> bytes list \<Rightarrow> (counters \<times> log) option" where
  "sniff_raw c buffer [] = Some (c, [])"
| "sniff_raw c buffer (packet # ps) = do {
     buffer \<leftarrow> poke 0 packet buffer;
     (c, l) \<leftarrow> process_packet c buffer (int (length packet));
     (c, ls) \<leftarrow> sniff_raw c buffer ps;
     Some (c, l @ ls) }"

text \<open>The log file may not have been opened: the programs say so and go on, and the first
  \<open>fprintf\<close> to it is undefined.\<close>

definition logged :: "bool \<Rightarrow> (counters \<times> log) option \<Rightarrow> counters option" where
  "logged opened x = Option.bind x (\<lambda>(c, l). if opened \<or> l = [] then Some c else None)"

definition status :: "counters \<Rightarrow> call" where
  "status c = Print ''TCP : %d   UDP : %d   ICMP : %d   IGMP : %d   Others : %d   Total : %d''
     [D (sint (tcp c)), D (sint (udp c)), D (sint (icmp c)), D (sint (igmp c)), D (sint (other c)), D (sint (packets c))]"

definition no_packets :: counters where
  "no_packets = \<lparr>tcp = 0, udp = 0, icmp = 0, igmp = 0, other = 0, packets = 0\<rparr>"

definition ETH_P_ALL :: int where "ETH_P_ALL = 0x0300"

primrec raw_loop :: "nat \<Rightarrow> bool \<Rightarrow> int \<Rightarrow> bytes \<Rightarrow> counters \<Rightarrow> int option sys" where
  "raw_loop 0 opened sock buffer c = Ret None"
| "raw_loop (Suc n) opened sock buffer c =
     Call (Recvfrom sock 65536) (\<lambda>r.
     if res r < 0 then Call (Print ''Recvfrom error , failed to get packets'' []) (\<lambda>_. Ret (Some 1))
     else need (poke 0 (data r) buffer) (\<lambda>buffer.
       need (logged opened (process_packet c buffer (int (length (data r))))) (\<lambda>c.
       Call (status c) (\<lambda>_. raw_loop n opened sock buffer c))))"

definition main_raw_sniffer :: "nat \<Rightarrow> bytes \<Rightarrow> int option sys" where
  "main_raw_sniffer n heap =
     Call (OpenFile ''log.txt'') (\<lambda>logfile.
     Interaction.bind (if res logfile < 0 then Call (Print ''Unable to create log.txt file.'' []) (\<lambda>_. Ret ()) else Ret ()) (\<lambda>_.
     Call (Print ''Starting...'' []) (\<lambda>_.
     Call (Socket AF_PACKET SOCK_RAW ETH_P_ALL) (\<lambda>r.
     if res r < 0 then Ret (Some 1)
     else raw_loop n (0 \<le> res logfile) (res r) heap no_packets))))"

text \<open>main of the pcap version.  \<open>devs\<close> has 100 rows of 100 bytes, uninitialised, and is filled
  from row 1; the menu number is not checked.  \<open>alldevs\<close> is what \<open>pcap_findalldevs\<close> stored.\<close>

fun list_devices :: "int \<Rightarrow> (bytes \<times> bytes) list \<Rightarrow> bytes list \<Rightarrow> bytes list sys" where
  "list_devices count [] devs = Ret devs"
| "list_devices count ((name, description) # ds) devs =
     Call (Print ''%d. %s - %s'' [D count, S name, S description]) (\<lambda>_.
     need (if count < int (length devs) then strcpy (devs ! nat count) name else None) (\<lambda>row.
     list_devices (count + 1) ds (devs[nat count := row])))"

primrec pcap_loop :: "nat \<Rightarrow> bool \<Rightarrow> counters \<Rightarrow> int option sys" where
  "pcap_loop 0 opened c = Ret None"
| "pcap_loop (Suc n) opened c =
     Call PcapLoop (\<lambda>r. if res r < 0 then Ret (Some 0)
     else need (logged opened (process_packet c (data r) (num r))) (\<lambda>c.
       Call (status c) (\<lambda>_. pcap_loop n opened c)))"

definition main_pcap_sniffer :: "nat \<Rightarrow> (bytes \<times> bytes) list \<Rightarrow> bytes list \<Rightarrow> int option sys" where
  "main_pcap_sniffer n alldevs devs =
     Call (Print ''Finding available devices ... '' []) (\<lambda>_.
     Call PcapFindalldevs (\<lambda>r.
     if res r \<noteq> 0 then Call (Print ''Error finding devices : %s'' [S (data r)]) (\<lambda>_. Exit 1)
     else Call (Print ''Done'' []) (\<lambda>_.
     Call (Print ''Available Devices are :'' []) (\<lambda>_.
     Interaction.bind (list_devices 1 alldevs devs) (\<lambda>devs.
     Call (Print ''Enter the number of the device you want to sniff : '' []) (\<lambda>_.
     Call ScanInt (\<lambda>r.
     need (if 0 \<le> num r \<and> num r < int (length devs) then c_str (devs ! nat (num r)) else None) (\<lambda>devname.
     Call (Print ''Opening device %s for sniffing ... '' [S devname]) (\<lambda>_.
     Call (PcapOpen devname) (\<lambda>r.
     if res r < 0 then Call (Print ''Couldn't open device %s : %s'' [S devname, S (data r)]) (\<lambda>_. Exit 1)
     else Call (Print ''Done'' []) (\<lambda>_.
     Call (OpenFile ''log.txt'') (\<lambda>logfile.
     Interaction.bind (if res logfile < 0 then Call (Print ''Unable to create file.'' []) (\<lambda>_. Ret ()) else Ret ()) (\<lambda>_.
     Call (PcapLookupnet devname) (\<lambda>_.
     Call (PcapCompile (bytes_of ''port 8080'')) (\<lambda>_.
     Call PcapSetfilter (\<lambda>_.
     Call PcapImmediate (\<lambda>_.
     pcap_loop n (0 \<le> res logfile) no_packets)))))))))))))))))"

section \<open>The hex dump is complete\<close>

definition hex_column :: "log \<Rightarrow> log" where
  "hex_column l = filter (\<lambda>e. fst e = '' %02X'') l"

definition text_column :: "log \<Rightarrow> log" where
  "text_column l = filter (\<lambda>e. fst e = ''%c'' \<or> fst e = ''.'') l"

lemma columns_append [simp]:
  "hex_column (a @ b) = hex_column a @ hex_column b" "text_column (a @ b) = text_column a @ text_column b"
  "hex_column [] = []" "text_column [] = []"
  "hex_column (e # l) = (if fst e = '' %02X'' then e # hex_column l else hex_column l)"
  "text_column (e # l) = (if fst e = ''%c'' \<or> fst e = ''.'' then e # text_column l else text_column l)"
  by (simp_all add: hex_column_def text_column_def)

lemma columns_concat: "hex_column (concat ls) = concat (map hex_column ls)" "text_column (concat ls) = concat (map text_column ls)"
  by (induction ls) simp_all

lemma fst_ascii: "fst (ascii b) \<noteq> '' %02X''" "fst (ascii b) = ''%c'' \<or> fst (ascii b) = ''.''"
  by (simp_all add: ascii_def)

lemma columns_ascii [simp]:
  "hex_column (map (\<lambda>j. ascii (d ! j)) js) = []" "text_column (map (\<lambda>j. ascii (d ! j)) js) = map (\<lambda>j. ascii (d ! j)) js"
  by (induction js) (simp_all add: fst_ascii)

lemma columns_pad [simp]:
  "hex_column (replicate n (''   '', [])) = []" "text_column (replicate n (''   '', [])) = []"
  by (induction n) simp_all

lemma nl_not [simp]: "nl \<noteq> '' %02X''" "nl \<noteq> ''%c''" "nl \<noteq> ''.''"
  by (simp_all add: nl_def)

lemma hex_step: "hex_column (PrintData_step d n i) = [('' %02X'', [Du8 (d ! i)])]"
  by (simp add: PrintData_step_def gap_def fst_ascii)

lemma text_step: "text_column (PrintData_step d n i) =
  (if i \<noteq> 0 \<and> i mod 16 = 0 then map (\<lambda>j. ascii (d ! j)) [i - 16..<i] else []) @
  (if i = n - 1 then map (\<lambda>j. ascii (d ! j)) [i - i mod 16..<Suc i] else [])"
  by (simp add: PrintData_step_def gap_def fst_ascii)

text \<open>Before the last iteration the lines finished so far are in the text column.\<close>

lemma line_start:
  assumes "0 < k"
  shows "k mod 16 = 0 \<Longrightarrow> 16 * ((k - 1) div 16) = k - 16 \<and> 16 \<le> (k :: nat)"
    and "k mod 16 \<noteq> 0 \<Longrightarrow> 16 * ((k - 1) div 16) = k - k mod 16"
proof -
  assume "k mod 16 = 0"
  then obtain q where q: "k = 16 * q" by auto
  with assms obtain p where "q = Suc p" by (cases q) auto
  then have "k - 1 = 16 * p + 15" using q by simp
  then show "16 * ((k - 1) div 16) = k - 16 \<and> 16 \<le> k" using q \<open>q = Suc p\<close> by simp
next
  assume r: "k mod 16 \<noteq> 0"
  define q where "q = k div 16"
  have k: "k = 16 * q + k mod 16" by (simp add: q_def)
  then have "k - 1 = 16 * q + (k mod 16 - 1)" using r by linarith
  moreover have "k mod 16 - 1 < 16" using mod_less_divisor [of 16 k] by linarith
  ultimately have "(k - 1) div 16 = q" by simp
  then show "16 * ((k - 1) div 16) = k - k mod 16" using k by linarith
qed

lemma upt_split: "m \<le> k \<Longrightarrow> [0..<m] @ [m..<k] = [0..<k]"
  using upt_add_eq_append [of 0 m "k - m"] by simp

lemma map_upt_split: "m \<le> k \<Longrightarrow> map f [0..<m] @ map f [m..<k] = map f [0..<k]"
  by (simp only: map_append [symmetric] upt_split)

lemma text_prefix:
  "k \<le> n - 1 \<Longrightarrow> 0 < k \<Longrightarrow> concat (map (\<lambda>i. text_column (PrintData_step d n i)) [0..<k]) =
   map (\<lambda>j. ascii (d ! j)) [0..<16 * ((k - 1) div 16)]"
proof (induction k)
  case (Suc k)
  show ?case
  proof (cases "k = 0")
    case True
    then show ?thesis using Suc.prems by (simp add: text_step)
  next
    case False
    then have k: "0 < k" by simp
    with Suc have IH: "concat (map (\<lambda>i. text_column (PrintData_step d n i)) [0..<k]) =
      map (\<lambda>j. ascii (d ! j)) [0..<16 * ((k - 1) div 16)]" by simp
    have last: "text_column (PrintData_step d n k) = (if k mod 16 = 0 then map (\<lambda>j. ascii (d ! j)) [k - 16..<k] else [])"
      using Suc.prems False by (simp add: text_step)
    show ?thesis
    proof (cases "k mod 16 = 0")
      case True
      then have "16 * (k div 16) = k" by auto
      with IH last line_start(1) [OF k True] True show ?thesis by (simp add: map_upt_split)
    next
      case no: False
      then have "16 * (k div 16) = k - k mod 16" by (simp add: minus_mod_eq_mult_div)
      with IH last line_start(2) [OF k no] no show ?thesis by simp
    qed
  qed
qed simp

lemma text_all:
  assumes "0 < n"
  shows "concat (map (\<lambda>i. text_column (PrintData_step d n i)) [0..<n]) = map (\<lambda>j. ascii (d ! j)) [0..<n]"
proof (cases "n = 1")
  case True
  then show ?thesis by (simp add: text_step)
next
  case False
  then obtain k where n: "n = Suc k" and k: "0 < k" using assms by (cases n) auto
  have pre: "concat (map (\<lambda>i. text_column (PrintData_step d n i)) [0..<k]) =
      map (\<lambda>j. ascii (d ! j)) [0..<16 * ((k - 1) div 16)]"
    using n k by (intro text_prefix) simp_all
  show ?thesis
  proof (cases "k mod 16 = 0")
    case True
    have "text_column (PrintData_step d n k) = map (\<lambda>j. ascii (d ! j)) [k - 16..<k] @ map (\<lambda>j. ascii (d ! j)) [k..<Suc k]"
      using True k n by (simp add: text_step)
    with pre line_start(1) [OF k True] have "concat (map (\<lambda>i. text_column (PrintData_step d n i)) [0..<n]) =
      (map (\<lambda>j. ascii (d ! j)) [0..<k - 16] @ map (\<lambda>j. ascii (d ! j)) [k - 16..<k]) @ map (\<lambda>j. ascii (d ! j)) [k..<Suc k]"
      using n by simp
    then show ?thesis by (simp only: map_upt_split diff_le_self n le_Suc_eq order.refl simp_thms)
  next
    case no: False
    have "text_column (PrintData_step d n k) = map (\<lambda>j. ascii (d ! j)) [k - k mod 16..<Suc k]"
      using no n by (simp add: text_step)
    with pre line_start(2) [OF k no] have "concat (map (\<lambda>i. text_column (PrintData_step d n i)) [0..<n]) =
      map (\<lambda>j. ascii (d ! j)) [0..<k - k mod 16] @ map (\<lambda>j. ascii (d ! j)) [k - k mod 16..<Suc k]"
      using n by simp
    also have "\<dots> = map (\<lambda>j. ascii (d ! j)) [0..<Suc k]" by (rule map_upt_split) simp
    finally show ?thesis by (simp only: n)
  qed
qed

lemma map_nth_upt: "length d = n \<Longrightarrow> map (\<lambda>j. f (d ! j)) [0..<n] = map f d"
  by (auto intro!: nth_equalityI)

lemma PrintData_columns:
  assumes "PrintData mem off Size = Some l" "0 < Size"
  shows "hex_column l = map (\<lambda>b. ('' %02X'', [Du8 b])) (take (nat Size) (drop off mem)) \<and>
    text_column l = map ascii (take (nat Size) (drop off mem))"
proof -
  define d where "d = take (nat Size) (drop off mem)"
  have p: "peek off (nat Size) mem = Some d" and l: "l = concat (map (PrintData_step d (nat Size)) [0..<nat Size])"
    using assms by (auto simp: PrintData_def d_def peek_def split: if_splits)
  have len: "length d = nat Size" using p by (rule peek_length)
  have "hex_column l = map (\<lambda>j. ('' %02X'', [Du8 (d ! j)])) [0..<nat Size]"
    by (simp add: l columns_concat comp_def hex_step concat_map_singleton)
  moreover have "text_column l = map (\<lambda>j. ascii (d ! j)) [0..<nat Size]"
    using text_all [of "nat Size" d] assms(2) by (simp add: l columns_concat comp_def)
  ultimately show ?thesis
    using map_nth_upt [OF len, of "\<lambda>b. ('' %02X'', [Du8 b])"] map_nth_upt [OF len, of ascii] by (simp flip: d_def)
qed

section \<open>What the printers read\<close>

lemma PrintData_defined: "PrintData mem off Size \<noteq> None \<longleftrightarrow> Size \<le> 0 \<or> off + nat Size \<le> length mem"
  by (auto simp: PrintData_def peek_def)

lemma get_defined:
  "get8 off b \<noteq> None \<longleftrightarrow> off < length b" "get16 off b \<noteq> None \<longleftrightarrow> off + 2 \<le> length b"
  "get32 off b \<noteq> None \<longleftrightarrow> off + 4 \<le> length b" "peek off n b \<noteq> None \<longleftrightarrow> off + n \<le> length b"
  by (simp_all add: get8_def get16_def get32_def peek_def)

lemma bind_defined: "Option.bind x f \<noteq> None \<longleftrightarrow> x \<noteq> None \<and> f (the x) \<noteq> None"
  by (cases x) auto

lemma print_ip_header_defined: "print_ip_header b \<noteq> None \<longleftrightarrow> 34 \<le> length b"
  by (auto simp: print_ip_header_def print_ethernet_header_def bind_defined get_defined simp del: not_None_eq)

lemma nibbles: "ihl b * 4 \<le> 60" "high_nibble b * 4 \<le> 60"
proof -
  have "unat b mod 16 < 16" by simp
  then show "ihl b * 4 \<le> 60" by (simp add: ihl_def)
  have "unat b div 16 < 16" by (rule less_mult_imp_div_less, rule less_le_trans [OF unat_u8]) simp
  then show "high_nibble b * 4 \<le> 60" by (simp add: high_nibble_def)
qed

lemma nat_int_4 [simp]: "nat (int x * 4) = x * 4"
  by simp

lemma print_tcp_packet_defined:
  assumes "get8 14 b = Some vhl" "get8 (ihl vhl * 4 + 26) b = Some off"
  shows "print_tcp_packet b Size \<noteq> None \<longleftrightarrow> 34 \<le> length b \<and> ihl vhl * 4 + 34 \<le> length b \<and>
    ihl vhl * 4 + high_nibble off * 4 \<le> length b \<and>
    (int (14 + ihl vhl * 4 + high_nibble off * 4) < Size \<longrightarrow> nat Size \<le> length b)"
proof -
  define hl dl where "hl = ihl vhl" and "dl = high_nibble off"
  have o: "get8 (26 + hl * 4) b = Some off" using assms(2) by (simp add: add.commute hl_def)
  have size: "(Size \<le> 14 + int hl * 4 + int dl * 4 \<or> 14 + hl * 4 + dl * 4 + nat (Size - (14 + int hl * 4 + int dl * 4)) \<le> length b)
    \<longleftrightarrow> (14 + int hl * 4 + int dl * 4 < Size \<longrightarrow> nat Size \<le> length b)" by linarith
  show ?thesis
    unfolding print_tcp_packet_def
    using o by (simp add: assms(1) Let_def bind_defined get_defined PrintData_defined print_ip_header_defined size
        flip: hl_def dl_def del: not_None_eq) (simp add: add.commute add.left_commute, linarith)
qed

text \<open>A buffer with room for the largest headers, and a size within it: everything is defined.\<close>

lemma printers_defined:
  assumes "134 \<le> length b" "Size \<le> int (length b)"
  shows "print_tcp_packet b Size \<noteq> None" "print_udp_packet b Size \<noteq> None" "print_icmp_packet b Size \<noteq> None"
proof -
  obtain vhl where v: "get8 14 b = Some vhl" using assms(1) by (auto simp: get8_def)
  have hl: "ihl vhl * 4 \<le> 60" by (rule nibbles)
  obtain off where o: "get8 (ihl vhl * 4 + 26) b = Some off" using assms(1) hl by (auto simp: get8_def)
  have dl: "high_nibble off * 4 \<le> 60" by (rule nibbles)
  show "print_tcp_packet b Size \<noteq> None"
    unfolding print_tcp_packet_defined [OF v o] using assms hl dl by linarith
  have tail: "Size \<le> 22 + int h * 4 \<or> 22 + h * 4 + nat (Size - (22 + int h * 4)) \<le> length b" for h
    using assms(2) by linarith
  show "print_udp_packet b Size \<noteq> None" "print_icmp_packet b Size \<noteq> None"
    unfolding print_udp_packet_def print_icmp_packet_def
    using v hl assms(1) tail [of "ihl vhl"]
    by (simp_all add: Let_def bind_defined get_defined PrintData_defined print_ip_header_defined del: not_None_eq)
qed

lemma process_packet_defined:
  "134 \<le> length b \<Longrightarrow> Size \<le> int (length b) \<Longrightarrow> process_packet c b Size \<noteq> None"
  using printers_defined [of b Size]
  by (auto simp: process_packet_def bind_defined get_defined Let_def simp del: not_None_eq)

text \<open>What the counters should say of the packets in \<open>bs\<close>: how many have one of the protocols \<open>N\<close>.\<close>

definition seen :: "u8 set \<Rightarrow> bytes list \<Rightarrow> nat" where
  "seen N bs = length (filter (\<lambda>b. \<exists>n \<in> N. get8 23 b = Some n) bs)"

definition add_seen :: "counters \<Rightarrow> bytes list \<Rightarrow> counters" where
  "add_seen c bs = \<lparr>tcp = tcp c + of_nat (seen {6} bs), udp = udp c + of_nat (seen {17} bs),
     icmp = icmp c + of_nat (seen {1} bs), igmp = igmp c + of_nat (seen {2} bs),
     other = other c + of_nat (seen (- {1, 2, 6, 17}) bs), packets = packets c + of_nat (length bs)\<rparr>"

lemma seen_simps [simp]:
  "seen N [] = 0" "get8 23 b = Some n \<Longrightarrow> seen N (b # bs) = of_bool (n \<in> N) + seen N bs"
  by (simp_all add: seen_def)

lemma process_packet_counts:
  "process_packet c b Size = Some (c', l) \<Longrightarrow> get8 23 b \<noteq> None \<and> add_seen c' bs = add_seen c (b # bs)"
  by (auto simp: process_packet_def add_seen_def Let_def elim!: bind_SomeE split: if_splits)

lemma seen_all: "\<forall>b \<in> set bs. get8 23 b \<noteq> None \<Longrightarrow>
  seen {6} bs + seen {17} bs + seen {1} bs + seen {2} bs + seen (- {1, 2, 6, 17}) bs = length bs"
  by (induction bs) auto

text \<open>The bytes each packet is read from.\<close>

primrec views :: "('m \<Rightarrow> 'p \<Rightarrow> bytes) \<Rightarrow> ('m \<Rightarrow> 'p \<Rightarrow> 'm) \<Rightarrow> 'm \<Rightarrow> 'p list \<Rightarrow> bytes list" where
  "views view after m [] = []"
| "views view after m (p # ps) = view m p # views view after (after m p) ps"

lemma length_views [simp]: "length (views view after m ps) = length ps"
  by (induction ps arbitrary: m) simp_all

lemma views_fst [simp]: "views (\<lambda>_. fst) after m ps = map fst ps"
  by (induction ps arbitrary: m) simp_all

text \<open>The two sniffers share their laws through a contract of the step between packets.\<close>

lemma sint_of_nat_u32: "n < 2 ^ 31 \<Longrightarrow> sint (of_nat n :: u32) = int n"
  by (simp add: signed_of_nat signed_take_bit_eq_if_positive bit_iff_odd take_bit_int_eq_self)

locale sniffer =
  fixes sniff :: "counters \<Rightarrow> 'm \<Rightarrow> 'p list \<Rightarrow> (counters \<times> log) option"
    and memory :: "'m \<Rightarrow> 'p \<Rightarrow> bytes option" and told :: "'p \<Rightarrow> int" and after :: "'m \<Rightarrow> 'p \<Rightarrow> 'm"
    and view :: "'m \<Rightarrow> 'p \<Rightarrow> bytes"
  assumes sniff_Nil: "sniff c m [] = Some (c, [])"
    and sniff_Cons: "sniff c m (p # ps) = do {
      b \<leftarrow> memory m p;
      (c, l) \<leftarrow> process_packet c b (told p);
      (c, ls) \<leftarrow> sniff c (after m p) ps;
      Some (c, l @ ls) }"
    and memory_view: "memory m p = Some b \<Longrightarrow> b = view m p"
begin

lemma counts: "sniff c m ps = Some (c', l) \<Longrightarrow>
  add_seen c' [] = add_seen c (views view after m ps) \<and> (\<forall>b \<in> set (views view after m ps). get8 23 b \<noteq> None)"
proof (induction ps arbitrary: c m l)
  case (Cons p ps)
  from Cons.prems obtain b c1 l1 l2 where b: "memory m p = Some b" and
      p: "process_packet c b (told p) = Some (c1, l1)" and s: "sniff c1 (after m p) ps = Some (c', l2)"
    by (auto simp: sniff_Cons elim!: bind_SomeE)
  have "b = view m p" by (rule memory_view [OF b])
  with Cons.IH [OF s] process_packet_counts [OF p] show ?case by simp
qed (simp add: sniff_Nil)

text \<open>Below \<open>2^31\<close> packets no counter has wrapped.\<close>

lemma counters_exact:
  assumes "sniff no_packets m ps = Some (c, l)" "length ps < 2 ^ 31"
  shows "sint (packets c) = int (length ps) \<and> sint (tcp c) = int (seen {6} (views view after m ps)) \<and>
    sint (udp c) = int (seen {17} (views view after m ps)) \<and> sint (icmp c) = int (seen {1} (views view after m ps)) \<and>
    sint (igmp c) = int (seen {2} (views view after m ps)) \<and>
    sint (tcp c) + sint (udp c) + sint (icmp c) + sint (igmp c) + sint (other c) = sint (packets c)"
proof -
  let ?v = "views view after m ps"
  have c: "c = add_seen no_packets ?v" using counts [OF assms(1)] by (simp add: add_seen_def)
  have all: "seen {6} ?v + seen {17} ?v + seen {1} ?v + seen {2} ?v + seen (- {1, 2, 6, 17}) ?v = length ps"
    using seen_all counts [OF assms(1)] by (metis length_views)
  have "sint (of_nat n :: u32) = int n" if "n \<le> length ps" for n
    by (rule sint_of_nat_u32) (use that assms(2) in linarith)
  with all show ?thesis unfolding c by (simp add: add_seen_def no_packets_def)
qed

lemma defined:
  assumes "\<And>m p. I m \<Longrightarrow> p \<in> P \<Longrightarrow> I (after m p) \<and>
      (\<exists>b. memory m p = Some b \<and> 134 \<le> length b \<and> told p \<le> int (length b))"
  shows "I m \<Longrightarrow> set ps \<subseteq> P \<Longrightarrow> sniff c m ps \<noteq> None"
proof (induction ps arbitrary: c m)
  case (Cons p ps)
  obtain b where b: "memory m p = Some b" "134 \<le> length b" "told p \<le> int (length b)" "I (after m p)"
    using assms [OF Cons.prems(1)] Cons.prems(2) by auto
  obtain c1 l1 where "process_packet c b (told p) = Some (c1, l1)"
    using process_packet_defined [OF b(2,3)] by fastforce
  moreover obtain c2 l2 where "sniff c1 (after m p) ps = Some (c2, l2)"
    using Cons.IH [OF b(4), of c1] Cons.prems(2) by fastforce
  ultimately show ?case using b(1) by (simp add: sniff_Cons)
qed (simp add: sniff_Nil)

end

interpretation pcap: sniffer "\<lambda>c (_ :: unit) ps. sniff_pcap c ps" "\<lambda>_ p. Some (fst p)" snd "\<lambda>_ _. ()" "\<lambda>_. fst"
  by unfold_locales (auto split: prod.splits)

interpretation rawsock: sniffer sniff_raw "\<lambda>m p. poke 0 p m" "\<lambda>p. int (length p)" "\<lambda>m p. wr 0 p m" "\<lambda>m p. wr 0 p m"
proof unfold_locales
  fix c m p ps
  show "sniff_raw c m (p # ps) = Option.bind (poke 0 p m) (\<lambda>b. Option.bind (process_packet c b (int (length p)))
    (\<lambda>(c, l). Option.bind (sniff_raw c (wr 0 p m) ps) (\<lambda>(c, ls). Some (c, l @ ls))))"
    by (simp add: poke_def)
qed (simp_all add: poke_def split: if_splits)

section \<open>The device menu\<close>

lemma list_devices_undefined:
  assumes "0 \<le> count" "count \<le> int (length devs)" "\<forall>row \<in> set devs. length row = 100"
  shows "(\<exists>tr. execs (list_devices count ds devs) tr Undefined) \<longleftrightarrow>
    \<not> (count + int (length ds) \<le> int (length devs) \<and> (\<forall>(name, _) \<in> set ds. length name < 100))"
  using assms
proof (induction count ds devs rule: list_devices.induct)
  case (2 count name description ds devs)
  show ?case
  proof (cases "count < int (length devs) \<and> length name < 100")
    case True
    then have "nat count < length devs" using 2(2) by linarith
    then have "devs ! nat count \<in> set devs" by (rule nth_mem)
    then have "length name < length (devs ! nat count)" using 2(4) True by simp
    then obtain row where row: "strcpy (devs ! nat count) name = Some row" using strcpy_defined by blast
    have len: "\<forall>r \<in> set (devs[nat count := row]). length r = 100"
      using 2(4) \<open>devs ! nat count \<in> set devs\<close> strcpy_length [OF row] by (auto dest: set_update_subset_insert [THEN subsetD])
    have "(\<exists>tr. execs (list_devices count ((name, description) # ds) devs) tr Undefined) \<longleftrightarrow>
        (\<exists>tr. execs (list_devices (count + 1) ds (devs[nat count := row])) tr Undefined)"
      using True row by (auto simp: execs_Call)
    also have "\<dots> \<longleftrightarrow> \<not> (count + 1 + int (length ds) \<le> int (length devs) \<and> (\<forall>(name, _) \<in> set ds. length name < 100))"
      using 2(1) [of row] len True 2(2) by simp
    finally show ?thesis using True by auto
  next
    case False
    have "strcpy (devs ! nat count) name = None" if "count < int (length devs)"
    proof -
      have "length (devs ! nat count) = 100" using 2(2,4) that by simp
      then show ?thesis using False that by (simp add: strcpy_def poke_def)
    qed
    then have "need (if count < int (length devs) then strcpy (devs ! nat count) name else None) f = Ub" for f :: "bytes \<Rightarrow> bytes list sys"
      by simp
    moreover from this have "\<exists>tr. execs (list_devices count ((name, description) # ds) devs) tr Undefined"
      by (simp add: execs_Call) blast
    ultimately show ?thesis using False by auto
  qed
qed simp

section \<open>Properties\<close>

text \<open>
  C19. The hex dump shows every byte once: the hexadecimal column of \<open>PrintData\<close> is the bytes in
  order, and so is the text column behind the lines, a dot for what cannot be printed.
\<close>

theorem PrintData_complete:
  assumes "PrintData mem off Size = Some l" "0 < Size"
  shows "hex_column l = map (\<lambda>b. ('' %02X'', [Du8 b])) (take (nat Size) (drop off mem)) \<and>
    text_column l = map ascii (take (nat Size) (drop off mem))"
  by (rule PrintData_columns [OF assms])

text \<open>
  C20. The counters count: after fewer than \<open>2^31\<close> packets, from either sniffer, the total is the
  number of packets, every protocol counter the number of packets with its protocol byte (for the
  raw socket the byte in the buffer, which a short packet leaves from an older one), and the five
  add up to the total.
\<close>

theorem sniffers_count:
  assumes "sniff_pcap no_packets ps = Some (c, l) \<and> bs = map fst ps \<or>
    sniff_raw no_packets buffer qs = Some (c, l) \<and> bs = views (\<lambda>m p. wr 0 p m) (\<lambda>m p. wr 0 p m) buffer qs"
    and "length bs < 2 ^ 31"
  shows "sint (packets c) = int (length bs) \<and> sint (tcp c) = int (seen {6} bs) \<and> sint (udp c) = int (seen {17} bs) \<and>
    sint (icmp c) = int (seen {1} bs) \<and> sint (igmp c) = int (seen {2} bs) \<and>
    sint (tcp c) + sint (udp c) + sint (icmp c) + sint (igmp c) + sint (other c) = sint (packets c)"
  using assms(1)
proof (elim disjE conjE)
  assume "sniff_pcap no_packets ps = Some (c, l)" "bs = map fst ps"
  with pcap.counters_exact [of ps c l] assms(2) show ?thesis by simp
next
  assume "sniff_raw no_packets buffer qs = Some (c, l)" "bs = views (\<lambda>m p. wr 0 p m) (\<lambda>m p. wr 0 p m) buffer qs"
  with rawsock.counters_exact [of buffer qs c l] assms(2) show ?thesis by simp
qed

text \<open>
  C21. The raw-socket sniffer never reads outside its 64 KiB buffer, whatever it receives, also
  truncated or malformed packets (it then reads what older packets left there).
\<close>

theorem raw_sniffer_in_bounds:
  assumes "length buffer = 65536" "\<And>p. p \<in> set ps \<Longrightarrow> length p \<le> 65536"
  shows "sniff_raw c buffer ps \<noteq> None"
  by (rule rawsock.defined [where I = "\<lambda>m. length m = 65536" and P = "{p. length p \<le> 65536}"])
     (use assms in \<open>auto simp: poke_def\<close>)

text \<open>
  C22. The pcap sniffer trusts the lengths in the packet and the length on the wire: a TCP packet
  with its fixed headers captured is printed without reading behind the captured bytes exactly
  when the header lengths fit, and the wire length too unless there is no payload.
\<close>

theorem tcp_print_in_bounds_iff:
  assumes "get8 14 b = Some vhl" "get8 (ihl vhl * 4 + 26) b = Some off" "34 \<le> length b" "ihl vhl * 4 + 34 \<le> length b"
  shows "print_tcp_packet b Size \<noteq> None \<longleftrightarrow> ihl vhl * 4 + high_nibble off * 4 \<le> length b \<and>
    (int (14 + ihl vhl * 4 + high_nibble off * 4) < Size \<longrightarrow> nat Size \<le> length b)"
  using print_tcp_packet_defined [OF assms(1,2)] assms(3,4) by blast

text \<open>
  The menu of devices of the pcap sniffer holds 99 entries of 99 characters: filling it is
  undefined exactly when there are more devices than that or one has a longer name.
\<close>

theorem device_menu_overflow_iff:
  assumes "length devs = 100" "\<forall>row \<in> set devs. length row = 100"
  shows "(\<exists>tr. execs (list_devices 1 ds devs) tr Undefined) \<longleftrightarrow>
    99 < length ds \<or> (\<exists>(name, _) \<in> set ds. 100 \<le> length name)"
proof -
  have "1 \<le> int (length devs)" using assms(1) by simp
  then have "(\<exists>tr. execs (list_devices 1 ds devs) tr Undefined) \<longleftrightarrow>
      \<not> (1 + int (length ds) \<le> 100 \<and> (\<forall>(name, _) \<in> set ds. length name < 100))"
    using list_devices_undefined [of 1 devs ds] assms by simp
  also have "\<dots> \<longleftrightarrow> 99 < length ds \<or> (\<exists>(name, _) \<in> set ds. 100 \<le> length name)"
    by (simp add: case_prod_beta not_le not_less)
  finally show ?thesis .
qed

section \<open>Witnesses\<close>

theorem device_menu_overflow_iff_witness:
  "\<exists>tr. execs (list_devices 1 [(replicate 100 97, [])] (replicate 100 (replicate 100 0))) tr Undefined"
proof -
  have l: "length (replicate 100 (replicate 100 (0 :: u8))) = 100" "length (replicate 100 (97 :: u8)) = 100"
    by (rule length_replicate)+
  have "\<forall>row \<in> set (replicate 100 (replicate 100 (0 :: u8))). length row = 100"
    by (rule ballI) (drule in_set_replicate [THEN iffD1], elim conjE, simp only: length_replicate)
  from device_menu_overflow_iff [OF l(1) this, of "[(replicate 100 97, [])]"] l(2) show ?thesis by simp
qed

theorem PrintData_complete_witness:
  "\<exists>l. PrintData [7, 72, 105] 1 2 = Some l \<and> hex_column l = [('' %02X'', [Du8 72]), ('' %02X'', [Du8 105])] \<and>
     text_column l = [(''%c'', [Du8 72]), (''%c'', [Du8 105])]"
proof -
  obtain l where l: "PrintData [7, 72, 105] 1 2 = Some l"
    using PrintData_defined [of "[7, 72, 105]" 1 2] by auto
  with PrintData_complete [OF l] show ?thesis by (simp add: ascii_def)
qed

text \<open>An ARP frame is counted as a packet of another protocol.\<close>

theorem sniffers_count_witness:
  "\<exists>c l. sniff_pcap no_packets [(replicate 42 0, 42)] = Some (c, l) \<and>
     sint (packets c) = 1 \<and> sint (tcp c) = 0 \<and> sint (other c) = 1"
proof -
  let ?c = "no_packets"
  have g: "get8 23 (replicate 42 0) = Some (0 :: u8)" by (simp add: get8_def)
  then obtain c l where s: "sniff_pcap ?c [(replicate 42 0, 42)] = Some (c, l)"
    by (simp add: process_packet_def Let_def)
  with sniffers_count [of "[(replicate 42 0, 42)]" c l "[replicate 42 0]" "[]" "[]"] g show ?thesis by auto
qed

theorem raw_sniffer_in_bounds_witness:
  "sniff_raw no_packets (replicate 65536 0) [[1, 2, 3]] \<noteq> None"
proof -
  let ?c = "no_packets"
  have "length (replicate 65536 (0 :: u8)) = 65536" by (rule length_replicate)
  with raw_sniffer_in_bounds [of "replicate 65536 0" "[[1, 2, 3]]" ?c] show ?thesis by simp
qed

theorem tcp_print_in_bounds_iff_witness:
  "print_tcp_packet (replicate 60 0x50) 1000 = None"
proof -
  have h: "ihl 0x50 = 0" "high_nibble 0x50 = 5" by (simp_all add: ihl_def high_nibble_def)
  have "get8 14 (replicate 60 0x50) = Some (0x50 :: u8)" "get8 (ihl (0x50 :: u8) * 4 + 26) (replicate 60 0x50) = Some (0x50 :: u8)"
    by (simp_all add: get8_def h)
  from tcp_print_in_bounds_iff [OF this, of 1000] show ?thesis by (simp add: h)
qed

end
