(* ===== verification/SocketHelpers.thy ===== *)
theory SocketHelpers
  imports Unix
begin

text \<open>
  The helpers that most socket programs of the repository carry a copy of: listening and
  connecting (\<open>serv_tcp_listen\<close>, \<open>serv_uds_listen\<close>, \<open>cli_uds_conn\<close>, \<open>cli_tcp_connect\<close>), passing a
  descriptor over a Unix-domain socket (\<open>send_fd\<close>, \<open>recv_fd\<close>), \<open>pidof\<close> and \<open>msgq_init\<close>.  Only what
  \<open>perror\<close> prints is left out.
\<close>

definition port_of :: "int \<Rightarrow> u16" where
  "port_of port = htons (word_of_int port)"

definition serv_tcp_listen :: "int \<Rightarrow> int sys" where
  "serv_tcp_listen port =
     Call (Socket AF_INET SOCK_STREAM 0) (\<lambda>r. let fd = res r in
     if fd < 0 then Ret (-1)
     else Call (Setsockopt fd) (\<lambda>r.
     if res r \<noteq> 0 then Ret 1
     else Call (Bind fd (AddrIn (port_of port) localhost)) (\<lambda>r.
     if res r < 0 then Ret (-1)
     else Call (Listen fd 5) (\<lambda>r.
     if res r < 0 then Ret (-1) else Ret fd))))"

text \<open>\<open>sun_path\<close> has 108 bytes; the address carries the path up to its terminator.\<close>

definition sun_path :: "bytes \<Rightarrow> bytes option" where
  "sun_path path = (if length path < 108 then Some path else None)"

definition serv_uds_listen :: "bytes \<Rightarrow> int sys" where
  "serv_uds_listen path =
     Call (Socket AF_UNIX SOCK_STREAM 0) (\<lambda>r. let fd = res r in
     if fd < 0 then Ret (-1)
     else need (sun_path path) (\<lambda>sun.
     Call (Unlink path) (\<lambda>_.
     Call (Bind fd (AddrUn sun)) (\<lambda>r.
     if res r < 0 then Ret (-1)
     else Call (Listen fd 5) (\<lambda>r.
     if res r < 0 then Ret (-1) else Ret fd)))))"

definition cli_uds_conn :: "bytes \<Rightarrow> int sys" where
  "cli_uds_conn path =
     Call (Socket AF_UNIX SOCK_STREAM 0) (\<lambda>r. let fd = res r in
     if fd < 0 then Ret (-1)
     else need (sun_path path) (\<lambda>sun.
     Call (Connect fd (AddrUn sun)) (\<lambda>r.
     if res r < 0 then Ret (-1) else Ret fd)))"

text \<open>\<open>cli_tcp_connect\<close> of v.c does not look at what \<open>connect\<close> returns.\<close>

definition cli_tcp_connect :: "int \<Rightarrow> int sys" where
  "cli_tcp_connect port =
     Call (Socket AF_INET SOCK_STREAM 0) (\<lambda>r. let sfd = res r in
     if sfd < 0 then handle_error
     else Call (Connect sfd (AddrIn (port_of port) localhost)) (\<lambda>_. Ret sfd))"

section \<open>Passing descriptors\<close>

text \<open>\<open>sendmsg\<close> with the byte \<open>'F'\<close> and one descriptor as ancillary data.\<close>

definition fd_mark :: u8 where "fd_mark = 70"

definition send_fd :: "int \<Rightarrow> int \<Rightarrow> int sys" where
  "send_fd socket fd_to_send = Call (SendRights socket [fd_mark] fd_to_send) (\<lambda>r. Ret (res r))"

text \<open>\<open>buf\<close> is the uninitialised byte the message is received into; the room for ancillary data
  is one descriptor.\<close>

definition recv_fd :: "u8 \<Rightarrow> int \<Rightarrow> int sys" where
  "recv_fd buf socket =
     Call (RecvRights socket 1) (\<lambda>r.
     if res r < 0 then Ret (-1)
     else if (case data r of [] \<Rightarrow> buf | b # _ \<Rightarrow> b) \<noteq> fd_mark then Ret (-1)
     else case rights r of [] \<Rightarrow> Ret (-1) | recieved_fd # _ \<Rightarrow> Ret recieved_fd)"

section \<open>pidof and the message queue\<close>

text \<open>\<open>atoi\<close> of an array: defined when the digits end inside it.\<close>

definition atoi_array :: "bytes \<Rightarrow> int option" where
  "atoi_array s =
     (let t = dropWhile is_space s;
          t = (case t of b # t' \<Rightarrow> if b = 43 \<or> b = 45 then t' else t | [] \<Rightarrow> t)
      in if dropWhile is_digit t = [] then None else Some (atoi s))"

lemma dec_stops: "dropWhile is_digit (dec n @ 0 # rest) = 0 # rest"
  using dec_digits [of n] by (simp add: dropWhile_append)

lemma atoi_array_text:
  assumes "is_int i"
  shows "atoi_array (sprintf_d i @ 0 # rest) = Some i"
proof -
  have a: "atoi (sprintf_d i @ 0 # rest) = i" using libc.parse_print [OF assms] .
  have n: "\<not> is_space 45" by (simp add: is_space_def)
  show ?thesis
  proof (cases "i < 0")
    case True
    then show ?thesis using a n by (simp add: atoi_array_def sprintf_d_def dec_stops Let_def)
  next
    case False
    obtain b bs where d: "dec (nat i) = b # bs" "is_digit b" using dec_Cons by blast
    have "dropWhile is_digit (b # bs @ 0 # rest) = 0 # rest" using dec_stops [of "nat i" rest] d by simp
    with False a d digit_not_space [OF d(2)] show ?thesis by (auto simp: atoi_array_def sprintf_d_def Let_def)
  qed
qed

text \<open>\<open>buf\<close> has 100 bytes and so has \<open>s\<close>, uninitialised, into which up to 1000 are read.  A
  stream that cannot be opened is a null pointer that \<open>fileno\<close> follows.\<close>

definition pidof :: "bytes \<Rightarrow> bytes \<Rightarrow> int sys" where
  "pidof s name =
     need (strcpy (replicate 100 0) (bytes_of ''pidof '' @ name)) (\<lambda>buf.
     need (c_str buf) (\<lambda>cmd.
     Call (Popen cmd) (\<lambda>r. let fd = res r in
     if fd < 0 then Ub
     else Call (ReadFd fd 1000) (\<lambda>r.
     need (poke 0 (data r) s) (\<lambda>s. need (atoi_array s) Ret)))))"

definition msgq_init :: "string \<Rightarrow> int sys" where
  "msgq_init msgq_path =
     Call (Ftok msgq_path) (\<lambda>r.
     if res r < 0 then handle_error
     else Call Msgget (\<lambda>r.
     if res r < 0 then handle_error else Ret (res r)))"

section \<open>poll and strcmp\<close>

definition readable :: "resp \<Rightarrow> nat \<Rightarrow> bool" where
  "readable r i = (case drop i (flags r) of [] \<Rightarrow> False | revents # _ \<Rightarrow> bit revents 0)"

text \<open>\<open>strcmp(s, t) == 0\<close> on two arrays: undefined when it runs off one of them.\<close>

fun strcmp_eq :: "bytes \<Rightarrow> bytes \<Rightarrow> bool option" where
  "strcmp_eq (a # s) (b # t) = (if a \<noteq> b then Some False else if a = 0 then Some True else strcmp_eq s t)"
| "strcmp_eq s t = None"

lemma strcmp_eq_c_str: "c_str s = Some a \<Longrightarrow> c_str t = Some b \<Longrightarrow> strcmp_eq s t = Some (a = b)"
  by (induction s t arbitrary: a b rule: strcmp_eq.induct) (auto split: if_splits)

section \<open>The contracts\<close>

text \<open>
  With every call after \<open>socket\<close> successful the helpers meet the contract of an opener.  On a
  failure they return without closing the socket, so they meet it under that assumption only.
\<close>

definition socket_works :: "call \<Rightarrow> resp \<Rightarrow> bool" where
  "socket_works c r \<longleftrightarrow> (case c of Setsockopt _ \<Rightarrow> res r = 0 | Bind _ _ \<Rightarrow> res r = 0 | Listen _ _ \<Rightarrow> res r = 0
     | Connect _ _ \<Rightarrow> res r = 0 | _ \<Rightarrow> True)"

definition fd_result :: "int \<Rightarrow> int option" where
  "fd_result v = (if v < 0 then None else Some v)"

lemmas helper_defs = serv_tcp_listen_def serv_uds_listen_def cli_uds_conn_def Let_def

interpretation tcp: opener socket_works "serv_tcp_listen port" fd_result
  by unfold_locales (auto simp: helper_defs socket_works_def fd_result_def)

locale uds_path =
  fixes path :: bytes
  assumes fits: "length path < 108"
begin

lemma sun_path [simp]: "sun_path path = Some path"
  using fits by (simp add: sun_path_def)

end

sublocale uds_path \<subseteq> listening: opener socket_works "serv_uds_listen path" fd_result
  by unfold_locales (auto simp: helper_defs socket_works_def fd_result_def)

sublocale uds_path \<subseteq> connecting: opener socket_works "cli_uds_conn path" fd_result
  by unfold_locales (auto simp: helper_defs socket_works_def fd_result_def)

text \<open>The paths of the programs.\<close>

interpretation mysocket: uds_path "bytes_of ''mysocket''"
  by unfold_locales simp

interpretation gate1: uds_path "bytes_of ''g1.uds''"
  by unfold_locales simp

interpretation gate2: uds_path "bytes_of ''g2.uds''"
  by unfold_locales simp

interpretation gate3: uds_path "bytes_of ''g3.uds''"
  by unfold_locales simp

text \<open>
  Passing a descriptor: one message goes out, and a message of that form coming in is understood
  as the number the kernel gave the descriptor here; anything else is a failure.
\<close>

locale fd_passing =
  fixes send :: "int \<Rightarrow> int \<Rightarrow> int sys" and receive :: "int \<Rightarrow> int sys" and mark :: u8
  assumes sends: "execs (send socket fd) tr out \<longleftrightarrow> (\<exists>r. tr = [(SendRights socket [mark] fd, r)] \<and> out = Done (res r))"
    and receives: "execs (receive socket) tr out \<Longrightarrow> \<exists>r. tr = [(RecvRights socket 1, r)] \<and>
      (out = Done (-1) \<or> (\<exists>fd rest. 0 \<le> res r \<and> rights r = fd # rest \<and> out = Done fd))"
    and understands: "0 \<le> res r \<Longrightarrow> data r = [mark] \<Longrightarrow> rights r = [fd] \<Longrightarrow>
      execs (receive socket) [(RecvRights socket 1, r)] (Done fd)"
begin

text \<open>What arrives is what was sent when the kernel carries the byte and one descriptor.\<close>

lemma passes:
  assumes "execs (send socket fd) tr out" "execs (receive socket') [(RecvRights socket' 1, r')] out'"
    and "\<exists>b. fst (hd tr) = SendRights socket b fd \<and> data r' = b" "0 \<le> res r'" "rights r' = [fd']"
  shows "out' = Done fd'"
proof -
  have "data r' = [mark]" using assms(1,3) by (auto simp: sends)
  from understands [OF assms(4) this assms(5)] have e: "execs (receive socket') [(RecvRights socket' 1, r')] (Done fd')" .
  have "run (receive socket') ([r'] @ []) = Some ([(RecvRights socket' 1, r')], out')" using execs_run [OF assms(2), of "[]"] by simp
  moreover have "run (receive socket') ([r'] @ []) = Some ([(RecvRights socket' 1, r')], Done fd')" using execs_run [OF e, of "[]"] by simp
  ultimately show ?thesis by simp
qed

end

interpretation unix_fds: fd_passing send_fd "recv_fd buf" fd_mark
  by unfold_locales
    (auto simp: send_fd_def recv_fd_def execs_Call intro: execs.intros split: if_splits list.splits)

section \<open>Properties\<close>

text \<open>
  C23. Whatever the kernel answers, the helpers return, close nothing, and leave open exactly the
  socket they got, also when they report a failure: then nobody can close it any more.  They
  report the socket exactly when every call but \<open>unlink\<close> succeeds, and -1 otherwise; only when
  \<open>setsockopt\<close> answers anything but 0 (which \<open>serv_tcp_listen\<close> alone asks) the report is 1, which
  the callers take for a descriptor.
\<close>

theorem helpers_keep_their_socket:
  assumes "execs (serv_tcp_listen port) tr out \<or> length path < 108 \<and> (execs (serv_uds_listen path) tr out \<or> execs (cli_uds_conn path) tr out)"
  shows "tr \<noteq> [] \<and>
    fds_from {} tr = Some (if 0 \<le> res (snd (hd tr)) then {res (snd (hd tr))} else {}) \<and>
    out = Done (if list_ex (\<lambda>(c, r). case c of Setsockopt _ \<Rightarrow> res r \<noteq> 0 | _ \<Rightarrow> False) tr then 1
      else if list_ex (\<lambda>(c, r). case c of Unlink _ \<Rightarrow> False | _ \<Rightarrow> res r < 0) tr then -1
      else res (snd (hd tr)))"
  using assms by (auto simp: helper_defs execs_Call sun_path_def split: if_splits)

theorem helpers_keep_their_socket_witness:
  "\<exists>tr tr'. execs (serv_uds_listen (bytes_of ''g1.uds'')) tr (Done (-1)) \<and> fds_from {} tr = Some {5} \<and>
     execs (serv_tcp_listen 8080) tr' (Done 1) \<and> fds_from {} tr' = Some {5}"
proof -
  define f where "f v = answered\<lparr>res := v\<rparr>" for v :: int
  let ?tr = "[(Socket AF_UNIX SOCK_STREAM 0, f 5), (Unlink (bytes_of ''g1.uds''), f 0),
    (Bind 5 (AddrUn (bytes_of ''g1.uds'')), f (-1))]"
  let ?tr' = "[(Socket AF_INET SOCK_STREAM 0, f 5), (Setsockopt 5, f (-1))]"
  have e: "execs (serv_uds_listen (bytes_of ''g1.uds'')) ?tr (Done (-1))"
    by (simp add: helper_defs execs_Call sun_path_def f_def)
  from helpers_keep_their_socket [of 0 ?tr "Done (-1)" "bytes_of ''g1.uds''"] e have "fds_from {} ?tr = Some {5}"
    by (simp add: f_def)
  moreover obtain out where e': "execs (serv_tcp_listen 8080) ?tr' out"
    by (simp add: helper_defs execs_Call f_def)
  from helpers_keep_their_socket [of 8080 ?tr' out] e' have "fds_from {} ?tr' = Some {5}" "out = Done 1"
    by (simp_all add: f_def)
  ultimately show ?thesis using e e' by blast
qed

end
