(* ===== verification/Ess.thy ===== *)
theory Ess
  imports SocketHelpers
begin

text \<open>
  Extending a server session over clients (22-3-22_RAW/ESS): the first client connects to the
  server, works, and passes the connection to the next client of a message queue, which passes
  it on in turn.  Modelled are the server ess.c, first_client.c and C.c with their threads and
  signal handler, each as the calls it performs; globals that a thread or the handler shares are
  accessed by \<open>Load\<close> and \<open>Store\<close>.  The last part composes any number of them.
\<close>

abbreviation (input) ess_path :: bytes where "ess_path \<equiv> bytes_of ''mysocket''"

section \<open>The server\<close>

primrec ess_loop :: "nat \<Rightarrow> int \<Rightarrow> unit option sys" where
  "ess_loop 0 nsfd = Ret None"
| "ess_loop (Suc n) nsfd =
     Call (Recv nsfd 100) (\<lambda>r.
     need (poke 0 (data r) (replicate 100 0)) (\<lambda>buf.
     need (c_str buf) (\<lambda>text.
     Call (Print ''%s'' [S text]) (\<lambda>_.
     Call (Send nsfd (bytes_of ''hello client !!'' @ [10])) (\<lambda>_.
     ess_loop n nsfd)))))"

definition main_ess :: "nat \<Rightarrow> unit option sys" where
  "main_ess n =
     bind (serv_tcp_listen 8080) (\<lambda>sfd.
     if sfd < 0 then handle_error
     else Call (Accept sfd) (\<lambda>r.
     if res r < 0 then handle_error else ess_loop n (res r)))"

section \<open>Threads and the handler\<close>

text \<open>Both threads of C.c open the raw socket they share unless it is open.\<close>

primrec raw_socket :: "nat \<Rightarrow> unit option sys" where
  "raw_socket 0 = Ret None"
| "raw_socket (Suc n) =
     Call (Load ''rsfd'') (\<lambda>r.
     if 0 \<le> num r then Ret (Some ())
     else Call (Socket AF_INET SOCK_RAW 2) (\<lambda>r. Call (Store ''rsfd'' (res r)) (\<lambda>_. raw_socket n)))"

definition announcement :: "int \<Rightarrow> bytes" where
  "announcement client_number =
     bytes_of ''I am client '' @ sprintf_d client_number @ bytes_of '', I am running currently'' @ [10]"

text \<open>\<open>sin_port\<close> of \<open>client\<close> is uninitialised: \<open>port\<close>.\<close>

primrec announce :: "nat \<Rightarrow> u16 \<Rightarrow> int \<Rightarrow> unit option sys" where
  "announce 0 port client_number = Ret None"
| "announce (Suc n) port client_number =
     Call (Load ''i_am_running'') (\<lambda>r.
     if num r = 0 then Ret (Some ())
     else need (strcpy (replicate 1024 0) (announcement client_number)) (\<lambda>send_msg.
       Call (Load ''rsfd'') (\<lambda>r.
       Call (Sendto (num r) send_msg (AddrIn port [0, 0, 0, 0])) (\<lambda>_.
       Call (Sleep 1) (\<lambda>_. announce n port client_number)))))"

definition send_worker :: "nat \<Rightarrow> u16 \<Rightarrow> int \<Rightarrow> unit option sys" where
  "send_worker n port client_number =
     bind (raw_socket n) (\<lambda>ok. case ok of None \<Rightarrow> Ret None | Some _ \<Rightarrow> announce n port client_number)"

text \<open>\<open>buf\<close> is uninitialised and holds what earlier packets left.\<close>

primrec overhear :: "nat \<Rightarrow> bytes \<Rightarrow> unit option sys" where
  "overhear 0 buf = Ret None"
| "overhear (Suc n) buf =
     Call (Load ''previous_client_ready_to_accept'') (\<lambda>r.
     if num r \<noteq> -1 then Ret (Some ())
     else Call (Load ''rsfd'') (\<lambda>r.
       Call (Recvfrom (num r) 1024) (\<lambda>r.
       need (poke 0 (data r) buf) (\<lambda>buf.
       need (get8 0 buf) (\<lambda>vhl.
       need (c_str (drop (unat vhl mod 16 * 4) buf)) (\<lambda>text.
       Call (Print ''%s'' [S text]) (\<lambda>_. overhear n buf)))))))"

definition recv_worker :: "nat \<Rightarrow> bytes \<Rightarrow> unit option sys" where
  "recv_worker n buf = bind (raw_socket n) (\<lambda>ok. case ok of None \<Rightarrow> Ret None | Some _ \<Rightarrow> overhear n buf)"

definition sig_usr1_handler :: "unit sys" where
  "sig_usr1_handler = Call (Store ''previous_client_ready_to_accept'' 1) (\<lambda>_. Ret ())"

text \<open>first_client.c: the thread has its own socket and never stops; while the client is not
  running it spins.\<close>

primrec first_raw_socket :: "nat \<Rightarrow> int \<Rightarrow> int option sys" where
  "first_raw_socket 0 rsfd = Ret None"
| "first_raw_socket (Suc n) rsfd =
     (if 0 \<le> rsfd then Ret (Some rsfd)
      else Call (Socket AF_INET SOCK_RAW 2) (\<lambda>r. first_raw_socket n (res r)))"

primrec first_announce :: "nat \<Rightarrow> u16 \<Rightarrow> int \<Rightarrow> unit option sys" where
  "first_announce 0 port rsfd = Ret None"
| "first_announce (Suc n) port rsfd =
     Call (Load ''i_am_running'') (\<lambda>r.
     if num r = 0 then first_announce n port rsfd
     else need (strcpy (replicate 100 0) (bytes_of ''I am client 1, I am running currently'' @ [10])) (\<lambda>send_msg.
       Call (Sendto rsfd send_msg (AddrIn port [0, 0, 0, 0])) (\<lambda>_.
       Call (Sleep 1) (\<lambda>_. first_announce n port rsfd))))"

definition first_send_worker :: "nat \<Rightarrow> u16 \<Rightarrow> unit option sys" where
  "first_send_worker n port =
     bind (first_raw_socket n (-1)) (\<lambda>rsfd. case rsfd of None \<Rightarrow> Ret None | Some rsfd \<Rightarrow>
     Call (Print ''send_worker'' []) (\<lambda>_. first_announce n port rsfd))"

section \<open>The clients\<close>

text \<open>Greeting the server: what both clients do with the connection.\<close>

definition interact :: "int \<Rightarrow> unit sys" where
  "interact sfd =
     Call Getpid (\<lambda>r.
     need (strcpy (replicate 100 0) (bytes_of ''Hello from '' @ sprintf_d (res r))) (\<lambda>buf.
     Call (Send sfd buf) (\<lambda>_.
     Call (Recv sfd 100) (\<lambda>r.
     need (poke 0 (data r) (replicate 100 0)) (\<lambda>buf.
     need (c_str buf) (\<lambda>text.
     Call (Print ''From server: %s'' [S text]) (\<lambda>_. Ret ())))))))"

text \<open>The end of both: listen, wake the next client and pass the connection to it.\<close>

definition pass_on :: "int \<Rightarrow> int \<Rightarrow> int option sys" where
  "pass_on next_client_pid sfd =
     bind (serv_uds_listen ess_path) (\<lambda>usfd.
     Call (Kill next_client_pid SIGUSR1) (\<lambda>_.
     Call (Accept usfd) (\<lambda>r.
     bind (send_fd (res r) sfd) (\<lambda>_.
     Call (Print ''Sent sfd to next client(%d)'' [D next_client_pid]) (\<lambda>_.
     Call (Print ''Exiting...'' []) (\<lambda>_. Ret (Some 0)))))))"

text \<open>The next client's pid; the message is received over zeros.  (Its size is given as
  \<open>sizeof(msg)\<close>, eight bytes more than there are behind the type: those are left out.)\<close>

definition next_pid :: "int \<Rightarrow> int sys" where
  "next_pid msqid =
     Call (QRecv msqid 112 1) (\<lambda>r.
     if res r < 0 then handle_error
     else need (poke 0 (data r) (replicate 100 0)) (\<lambda>mtext. need (atoi_array mtext) Ret))"

definition main_first_client :: "int option sys" where
  "main_first_client =
     Call Getpid (\<lambda>r.
     Call (Print ''My pid is %d'' [D (res r)]) (\<lambda>_.
     bind (msgq_init ''ess.c'') (\<lambda>msqid.
     if msqid < 0 then handle_error
     else Call (Socket AF_INET SOCK_STREAM 0) (\<lambda>r. let sfd = res r in
     if sfd < 0 then handle_error
     else Call (Connect sfd (AddrIn (port_of 8080) localhost)) (\<lambda>r.
     if res r \<noteq> 0 then handle_error
     else Call (Store ''i_am_running'' 1) (\<lambda>_.
     bind (interact sfd) (\<lambda>_.
     Call (Thread ''send_worker'') (\<lambda>_.
     Call (Sleep 4) (\<lambda>_.
     Call (Store ''i_am_running'' 0) (\<lambda>_.
     bind (next_pid msqid) (\<lambda>next_client_pid.
     pass_on next_client_pid sfd)))))))))))"

text \<open>\<open>while (previous_client_ready_to_accept == -1) pause();\<close>\<close>

primrec wait_turn :: "nat \<Rightarrow> unit option sys" where
  "wait_turn 0 = Ret None"
| "wait_turn (Suc n) =
     Call (Load ''previous_client_ready_to_accept'') (\<lambda>r.
     if num r \<noteq> -1 then Ret (Some ()) else Call Pause (\<lambda>_. wait_turn n))"

text \<open>C.c.  \<open>n\<close> bounds the pauses (\<^term>\<open>None\<close>: still waiting), \<open>mtext\<close> and \<open>buf\<close> are the uninitialised
  message and the byte \<open>recv_fd\<close> receives into.\<close>

definition main_C :: "nat \<Rightarrow> bytes list \<Rightarrow> bytes \<Rightarrow> u8 \<Rightarrow> int option sys" where
  "main_C n argv mtext buf =
     Call (Signal SIGUSR1) (\<lambda>_.
     need (if 1 < length argv then atoi_array (argv ! 1 @ [0]) else Some 0) (\<lambda>client_number.
     Call Getpid (\<lambda>r.
     Call (Print ''My pid is %d'' [D (res r)]) (\<lambda>_.
     Call (Thread ''recv_worker'') (\<lambda>_.
     bind (msgq_init ''ess.c'') (\<lambda>msqid.
     if msqid < 0 then handle_error
     else Call Getpid (\<lambda>r.
     need (strcpy mtext (sprintf_d (res r))) (\<lambda>mtext.
     Call (QSend 1 mtext) (\<lambda>r.
     if res r < 0 then handle_error
     else Call (Print ''Pid added to message queue'' []) (\<lambda>_.
     bind (wait_turn n) (\<lambda>turn. case turn of None \<Rightarrow> Ret None | Some _ \<Rightarrow>
     bind (cli_uds_conn ess_path) (\<lambda>usfd.
     if usfd < 0 then handle_error
     else bind (recv_fd buf usfd) (\<lambda>sfd.
     Call (Print ''recieved sfd from previous client'' []) (\<lambda>_.
     Call (Store ''i_am_running'' 1) (\<lambda>_.
     bind (interact sfd) (\<lambda>_.
     Call (CloseFd usfd) (\<lambda>_.
     Call (Thread ''send_worker'') (\<lambda>_.
     bind (next_pid msqid) (\<lambda>next_client_pid.
     Call (Sleep 4) (\<lambda>_.
     Call (Store ''i_am_running'' 0) (\<lambda>_.
     pass_on next_client_pid sfd)))))))))))))))))))))"

section \<open>Who holds the connection\<close>

text \<open>
  A monitor of one process: how often the connection has come in, less how often it went out, and
  whether the process says that it is running.
\<close>

definition moves :: "call \<times> resp \<Rightarrow> int" where
  "moves e = (case e of
     (RecvRights fd n, r) \<Rightarrow> if 0 \<le> res r \<and> rights r \<noteq> [] then 1 else 0
   | (SendRights fd b x, r) \<Rightarrow> if 0 \<le> res r then -1 else 0
   | _ \<Rightarrow> 0)"

definition runs :: "call \<times> resp \<Rightarrow> bool \<Rightarrow> bool" where
  "runs e running = (case e of
     (Store x v, r) \<Rightarrow> if x = ''i_am_running'' then v \<noteq> 0 else running
   | _ \<Rightarrow> running)"

definition baton :: "call \<times> resp \<Rightarrow> int \<times> bool \<Rightarrow> int \<times> bool" where
  "baton e s = (fst s + moves e, runs e (snd s))"

definition baton_ok :: "int \<times> bool \<Rightarrow> bool" where
  "baton_ok s \<longleftrightarrow> 0 \<le> fst s \<and> (snd s \<longrightarrow> 1 \<le> fst s)"

text \<open>\<open>recvmsg\<close> works: it delivers the byte and the descriptor that \<open>send_fd\<close> sent.\<close>

definition delivers :: "call \<Rightarrow> resp \<Rightarrow> bool" where
  "delivers c r \<longleftrightarrow> (case c of
     RecvRights fd n \<Rightarrow> 0 \<le> res r \<and> data r = [fd_mark] \<and> (\<exists>fd. rights r = [fd])
   | _ \<Rightarrow> True)"

abbreviation (input) on_baton :: "'a sys \<Rightarrow> ('a \<Rightarrow> int \<times> bool \<Rightarrow> bool) \<Rightarrow> int \<times> bool \<Rightarrow> bool" where
  "on_baton \<equiv> always delivers baton baton_ok"

lemma baton_simps [simp]:
  "plain c \<Longrightarrow> (\<forall>fd b x. c \<noteq> SendRights fd b x) \<Longrightarrow> (\<forall>x v. c \<noteq> Store x v) \<Longrightarrow> baton (c, r) s = s"
  "opens c \<Longrightarrow> baton (c, r) s = s" "baton (CloseFd fd, r) s = s"
  "baton (Store ''i_am_running'' v, r) s = (fst s, v \<noteq> 0)"
  "baton (SendRights fd b x, r) s = (if 0 \<le> res r then (fst s - 1, snd s) else s)"
  "baton (RecvRights fd n, r) s = (if 0 \<le> res r \<and> rights r \<noteq> [] then (fst s + 1, snd s) else s)"
  by (cases s, cases c; simp add: baton_def moves_def runs_def plain_def)+

lemma on_baton_handle_error [simp]: "on_baton handle_error Q = baton_ok"
  by (simp add: handle_error_def)

lemma on_baton_need [simp]: "on_baton (need x f) Q s \<longleftrightarrow> (case x of None \<Rightarrow> baton_ok s | Some v \<Rightarrow> on_baton (f v) Q s)"
  by (cases x) auto

text \<open>What does not touch the connection leaves the monitor as it was.\<close>

named_theorems steady

lemma steady_msgq_init [steady]: "baton_ok s \<Longrightarrow> on_baton (msgq_init path) (\<lambda>_ t. t = s) s"
  by (auto simp: msgq_init_def)

lemma steady_interact [steady]: "baton_ok s \<Longrightarrow> on_baton (interact sfd) (\<lambda>_ t. t = s) s"
  by (auto simp: interact_def split: option.split)

lemma steady_next_pid [steady]: "baton_ok s \<Longrightarrow> on_baton (next_pid msqid) (\<lambda>_ t. t = s) s"
  by (auto simp: next_pid_def split: option.split)

lemma steady_wait_turn [steady]: "baton_ok s \<Longrightarrow> on_baton (wait_turn n) (\<lambda>_ t. t = s) s"
  by (induction n) auto

lemma steady_serv_uds_listen [steady]: "baton_ok s \<Longrightarrow> on_baton (serv_uds_listen path) (\<lambda>_ t. t = s) s"
  by (auto simp: serv_uds_listen_def Let_def split: option.split)

lemma steady_cli_uds_conn [steady]: "baton_ok s \<Longrightarrow> on_baton (cli_uds_conn path) (\<lambda>_ t. t = s) s"
  by (auto simp: cli_uds_conn_def Let_def split: option.split)

lemma steady_bind:
  "on_baton p (\<lambda>_ t. t = s) s \<Longrightarrow> (\<And>a. on_baton (f a) Q s) \<Longrightarrow> on_baton (bind p f) Q s"
  unfolding always_bind by (erule always_mono) simp

lemma on_baton_recv_fd: "baton_ok s \<Longrightarrow> on_baton (recv_fd buf fd) (\<lambda>_ t. t = (fst s + 1, snd s)) s"
  by (auto simp: recv_fd_def delivers_def baton_ok_def)

lemma on_baton_pass_on: "1 \<le> fst s \<Longrightarrow> \<not> snd s \<Longrightarrow> on_baton (pass_on pid sfd) (\<lambda>_ _. True) s"
  unfolding pass_on_def
  by (intro steady_bind steady) (auto simp: send_fd_def baton_ok_def)

lemma on_baton_first: "on_baton main_first_client (\<lambda>_ _. True) (1, False)"
proof -
  have i: "baton_ok (1, b)" for b by (simp add: baton_ok_def)
  show ?thesis
    unfolding main_first_client_def
    by (auto simp: Let_def i intro!: steady_bind steady on_baton_pass_on)
qed

lemma on_baton_C: "on_baton (main_C n argv mtext buf) (\<lambda>_ _. True) (0, False)"
proof -
  have i: "baton_ok (1, b)" "baton_ok (0, False)" for b by (simp_all add: baton_ok_def)
  have step: "on_baton (bind (recv_fd buf usfd) f) Q (0, False)"
    if "\<And>a. on_baton (f a) Q (1, False)" for usfd and f :: "int \<Rightarrow> int option sys" and Q
    unfolding always_bind using that by (intro always_mono [OF on_baton_recv_fd]) (auto simp: i)
  show ?thesis
    unfolding main_C_def
    by (auto simp: i split: option.splits intro!: steady_bind steady on_baton_pass_on step)
qed

text \<open>The contract of a process that starts with \<open>start\<close> connections.\<close>

locale baton_holder =
  fixes process :: "'a sys" and start :: int
  assumes keeps: "on_baton process (\<lambda>_ _. True) (start, False)"
begin

lemma holds: "performs process tr \<Longrightarrow> \<forall>(c, r) \<in> set tr. delivers c r \<Longrightarrow> baton_ok (fold baton tr (start, False))"
  by (rule always_holds [OF keeps])

end

interpretation first: baton_holder main_first_client 1
  by unfold_locales (rule on_baton_first)

interpretation client: baton_holder "main_C n argv mtext buf" 0
  by unfold_locales (rule on_baton_C)

section \<open>Any number of clients\<close>

text \<open>
  Process 0 is the first client, process \<open>i\<close> the \<open>i\<close>-th further one with its own arguments and
  uninitialised memory.  A history is the sequence of all their calls, in any interleaving;
  \<open>connected\<close> are the hand-overs received and \<open>passed\<close> those sent in it.
\<close>

type_synonym history = "(nat \<times> call \<times> resp) list"

definition ess_process :: "(nat \<Rightarrow> nat \<times> bytes list \<times> bytes \<times> u8) \<Rightarrow> nat \<Rightarrow> int option sys" where
  "ess_process args i = (if i = 0 then main_first_client
     else case args i of (n, argv, mtext, buf) \<Rightarrow> main_C n argv mtext buf)"

definition calls_of :: "nat \<Rightarrow> history \<Rightarrow> trace" where
  "calls_of i h = map snd (filter (\<lambda>e. fst e = i) h)"

definition is_running :: "trace \<Rightarrow> bool" where
  "is_running tr = fold runs tr False"

definition received :: "history \<Rightarrow> nat" where
  "received h = length (filter (\<lambda>e. moves (snd e) = 1) h)"

definition passed :: "history \<Rightarrow> nat" where
  "passed h = length (filter (\<lambda>e. moves (snd e) = -1) h)"

lemma moves_cases: "moves e = 1 \<or> moves e = -1 \<or> moves e = 0"
  by (cases e, cases "fst e") (auto simp: moves_def)

lemma fold_baton: "fold baton tr s = (fst s + (\<Sum>e\<leftarrow>tr. moves e), fold runs tr (snd s))"
  by (induction tr arbitrary: s) (simp_all add: baton_def)

lemma moves_all: "(\<Sum>e\<leftarrow>h. moves (snd e)) = int (received h) - int (passed h)"
proof (induction h)
  case (Cons e h)
  then show ?case using moves_cases [of "snd e"] by (auto simp: received_def passed_def)
qed (simp add: received_def passed_def)

lemma moves_by_process:
  "\<forall>e \<in> set h. fst e < N \<Longrightarrow> (\<Sum>i<N. \<Sum>e\<leftarrow>calls_of i h. moves e) = (\<Sum>e\<leftarrow>h. moves (snd e))"
proof (induction h)
  case (Cons e h)
  have "(\<Sum>i<N. \<Sum>x\<leftarrow>calls_of i (e # h). moves x) =
      (\<Sum>i<N. (if i = fst e then moves (snd e) else 0) + (\<Sum>x\<leftarrow>calls_of i h. moves x))"
    by (rule sum.cong) (auto simp: calls_of_def)
  also have "\<dots> = moves (snd e) + (\<Sum>i<N. \<Sum>x\<leftarrow>calls_of i h. moves x)"
    using Cons.prems by (simp add: sum.distrib)
  finally show ?case using Cons by simp
qed (simp add: calls_of_def)

lemma ess_process_holds:
  assumes "performs (ess_process args i) tr" "\<forall>(c, r) \<in> set tr. delivers c r"
  shows "baton_ok (fold baton tr (if i = 0 then 1 else 0, False))"
proof (cases "i = 0")
  case True
  with assms show ?thesis using first.holds by (simp add: ess_process_def)
next
  case False
  obtain n argv mtext buf where "args i = (n, argv, mtext, buf)" by (cases "args i")
  with assms False client.holds show ?thesis by (simp add: ess_process_def)
qed

lemma one_holder:
  assumes h: "\<forall>(i, c, r) \<in> set h. i < N \<and> delivers c r"
    and p: "\<And>i. i < N \<Longrightarrow> performs (ess_process args i) (calls_of i h)"
    and k: "received h \<le> passed h"
    and ij: "i < N" "j < N" "i \<noteq> j" "is_running (calls_of i h)"
  shows "\<not> is_running (calls_of j h)"
proof
  assume j: "is_running (calls_of j h)"
  define t where "t i = (if i = 0 then 1 else 0) + (\<Sum>e\<leftarrow>calls_of i h. moves e)" for i :: nat
  have d: "\<forall>(c, r) \<in> set (calls_of i h). delivers c r" for i
    using h by (auto simp: calls_of_def)
  have ok: "0 \<le> t i \<and> (is_running (calls_of i h) \<longrightarrow> 1 \<le> t i)" if "i < N" for i
    using ess_process_holds [OF p [OF that] d] by (simp add: fold_baton baton_ok_def t_def is_running_def)
  have "(\<Sum>i<N. t i) \<le> (\<Sum>i<N. if i = 0 then 1 else 0) + (\<Sum>i<N. \<Sum>e\<leftarrow>calls_of i h. moves e)"
    by (simp add: t_def sum.distrib)
  also have "\<dots> \<le> 1 + (int (received h) - int (passed h))"
    using h by (subst moves_by_process) (auto simp: moves_all)
  finally have "(\<Sum>i<N. t i) \<le> 1" using k by simp
  moreover have "t i + t j \<le> (\<Sum>i<N. t i)"
  proof -
    have "(\<Sum>i\<in>{i, j}. t i) \<le> (\<Sum>i<N. t i)"
      by (rule sum_mono2) (use ij ok in auto)
    with ij(3) show ?thesis by simp
  qed
  ultimately show False using ok [OF ij(1)] ok [OF ij(2)] ij(4) j by simp
qed

section \<open>Properties\<close>

text \<open>
  C24. One client at a time: however the clients are scheduled and however many there are, two of
  them never have \<open>i_am_running\<close> set at once, provided \<open>recvmsg\<close> delivers what was sent and no more
  hand-overs arrive than were sent.
\<close>

theorem ess_one_client_runs:
  assumes "\<forall>(i, c, r) \<in> set h. i < N \<and> delivers c r"
    and "\<And>i. i < N \<Longrightarrow> performs (ess_process args i) (calls_of i h)"
    and "received h \<le> passed h"
    and "i < N" "j < N" "i \<noteq> j" "is_running (calls_of i h)"
  shows "\<not> is_running (calls_of j h)"
  by (rule one_holder [OF assms])

text \<open>
  C.c does not look at the result of \<open>recv_fd\<close>: when \<open>recvmsg\<close> fails it sets \<open>i_am_running\<close>
  and greets the server on descriptor -1, without holding the connection.
\<close>

theorem ess_runs_without_connection:
  "\<exists>tr. performs (main_C 1 [] (replicate 100 0) 0) tr \<and> is_running tr \<and> (\<Sum>e\<leftarrow>tr. moves e) = 0 \<and>
     (\<exists>text. fst (last tr) = Send (-1) text)"
proof -
  define ok where "ok v = answered\<lparr>res := v, num := v\<rparr>" for v :: int
  obtain b where b: "strcpy (replicate 100 0) (sprintf_d 7) = Some b"
    using strcpy_defined [of "sprintf_d 7" "replicate 100 0"] by (auto simp: sprintf_d_def dec.simps)
  obtain b' where b': "strcpy (replicate 100 0) (bytes_of ''Hello from '' @ sprintf_d 7) = Some b'"
    using strcpy_defined [of "bytes_of ''Hello from '' @ sprintf_d 7" "replicate 100 0"] by (auto simp: sprintf_d_def dec.simps)
  let ?tr = "[(Signal SIGUSR1, ok 0), (Getpid, ok 7), (Print ''My pid is %d'' [D 7], ok 0), (Thread ''recv_worker'', ok 0),
    (Ftok ''ess.c'', ok 1), (Msgget, ok 2), (Getpid, ok 7), (QSend 1 b, ok 0), (Print ''Pid added to message queue'' [], ok 0),
    (Load ''previous_client_ready_to_accept'', ok 1), (Socket AF_UNIX SOCK_STREAM 0, ok 3), (Connect 3 (AddrUn ess_path), ok 0),
    (RecvRights 3 1, ok (-1)), (Print ''recieved sfd from previous client'' [], ok 0), (Store ''i_am_running'' 1, ok 0),
    (Getpid, ok 7), (Send (-1) b', ok 0)]"
  have "performs (main_C 1 [] (replicate 100 0) 0) ?tr"
    by (simp add: main_C_def msgq_init_def cli_uds_conn_def recv_fd_def interact_def Let_def performs_Call ok_def b b' performs.start)
  moreover have "is_running ?tr \<and> (\<Sum>e\<leftarrow>?tr. moves e) = 0"
    by (simp add: is_running_def runs_def moves_def ok_def)
  ultimately show ?thesis by (intro exI [of _ ?tr]) simp
qed

section \<open>Witness\<close>

text \<open>The first client passes the connection on and the next one is running.\<close>

theorem ess_one_client_runs_witness:
  "\<exists>h. performs main_first_client (calls_of 0 h) \<and> performs (main_C 1 [] (replicate 100 0) 0) (calls_of 1 h) \<and>
     received h = 1 \<and> passed h = 1 \<and> is_running (calls_of 1 h) \<and> \<not> is_running (calls_of 0 h)"
proof -
  define ok where "ok v = answered\<lparr>res := v, num := v\<rparr>" for v :: int
  define fdr where "fdr = answered\<lparr>res := 1, data := [fd_mark], rights := [6]\<rparr>"
  define msg where "msg = answered\<lparr>data := [56]\<rparr>"
  obtain b where b: "strcpy (replicate 100 0) (sprintf_d 8) = Some b"
    using strcpy_defined [of "sprintf_d 8" "replicate 100 0"] by (auto simp: sprintf_d_def dec.simps)
  obtain b' where b': "strcpy (replicate 100 0) (bytes_of ''Hello from '' @ sprintf_d 7) = Some b'"
    using strcpy_defined [of "bytes_of ''Hello from '' @ sprintf_d 7" "replicate 100 0"] by (auto simp: sprintf_d_def dec.simps)
  have z: "poke 0 [] (replicate 100 0) = Some (replicate 100 (0 :: u8))" "c_str (replicate 100 0) = Some []"
    using replicate_Suc [of 99 "0 :: u8"] by (simp_all add: poke_def wr_def)
  have p: "poke 0 [56] (replicate 100 0) = Some (56 # replicate 99 (0 :: u8))" by (simp add: poke_def wr_def)
  have "is_digit 56" "digit_value 56 = 8" "\<not> is_space 56" by (simp_all add: is_digit_def digit_value_def is_space_def)
  then have m: "atoi_array (56 # replicate 99 0) = Some 8"
    using replicate_Suc [of 98 "0 :: u8"] by (simp add: atoi_array_def atoi_def strtol10_def to_int_def Let_def)
  let ?t0 = "[(Getpid, ok 7), (Print ''My pid is %d'' [D 7], ok 0), (Ftok ''ess.c'', ok 1), (Msgget, ok 2),
    (Socket AF_INET SOCK_STREAM 0, ok 3), (Connect 3 (AddrIn (port_of 8080) localhost), ok 0), (Store ''i_am_running'' 1, ok 0),
    (Getpid, ok 7), (Send 3 b', ok 0), (Recv 3 100, ok 0), (Print ''From server: %s'' [S []], ok 0), (Thread ''send_worker'', ok 0),
    (Sleep 4, ok 0), (Store ''i_am_running'' 0, ok 0), (QRecv 2 112 1, msg), (Socket AF_UNIX SOCK_STREAM 0, ok 4),
    (Unlink ess_path, ok 0), (Bind 4 (AddrUn ess_path), ok 0), (Listen 4 5, ok 0), (Kill 8 SIGUSR1, ok 0), (Accept 4, ok 5),
    (SendRights 5 [fd_mark] 3, ok 1)]"
  let ?t1 = "[(Signal SIGUSR1, ok 0), (Getpid, ok 8), (Print ''My pid is %d'' [D 8], ok 0), (Thread ''recv_worker'', ok 0),
    (Ftok ''ess.c'', ok 1), (Msgget, ok 2), (Getpid, ok 8), (QSend 1 b, ok 0), (Print ''Pid added to message queue'' [], ok 0),
    (Load ''previous_client_ready_to_accept'', ok 1), (Socket AF_UNIX SOCK_STREAM 0, ok 3), (Connect 3 (AddrUn ess_path), ok 0),
    (RecvRights 3 1, fdr), (Print ''recieved sfd from previous client'' [], ok 0), (Store ''i_am_running'' 1, ok 0)]"
  let ?h = "map (Pair (0 :: nat)) ?t0 @ map (Pair 1) ?t1"
  let ?args = "\<lambda>i. (1 :: nat, [] :: bytes list, replicate 100 (0 :: u8), 0 :: u8)"
  have c: "calls_of 0 ?h = ?t0" "calls_of 1 ?h = ?t1" by (simp_all add: calls_of_def)
  have p0: "performs main_first_client ?t0"
    by (simp add: main_first_client_def msgq_init_def interact_def next_pid_def pass_on_def serv_uds_listen_def send_fd_def
        sun_path_def Let_def performs_Call ok_def msg_def answered_def b' z p m performs.start)
  have p1: "performs (main_C 1 [] (replicate 100 0) 0) ?t1"
    by (simp add: main_C_def msgq_init_def cli_uds_conn_def recv_fd_def Let_def sun_path_def performs_Call ok_def fdr_def
        answered_def b performs.start)
  have k: "received ?h = 1" "passed ?h = 1"
    by (simp_all add: received_def passed_def moves_def ok_def fdr_def msg_def answered_def)
  have r: "is_running (calls_of 1 ?h)" by (simp only: c) (simp add: is_running_def runs_def)
  have d: "\<forall>(i, c, r) \<in> set ?h. i < 2 \<and> delivers c r"
    by (simp add: delivers_def fdr_def answered_def)
  have "performs (ess_process ?args i) (calls_of i ?h)" if "i < 2" for i
  proof -
    from that have "i = 0 \<or> i = 1" by auto
    then show ?thesis using p0 p1 c by (auto simp: ess_process_def)
  qed
  from ess_one_client_runs [OF d this, of 1 0] k r have "\<not> is_running (calls_of 0 ?h)" by simp
  with c p0 p1 k r show ?thesis by metis
qed

end
