(* ===== verification/TollGate.thy ===== *)
theory TollGate
  imports SocketHelpers
begin

text \<open>
  The toll gates of midlab/toll_gate: a vehicle (v.c) drives up to a lane of a gate (g1.c, g2.c,
  g3.c), the gate passes its connection to the toll manager (TM.c), which asks the fast-tag
  server (FT.c); that broadcasts its verdict over a raw socket, the gate picks the one for its
  vehicle, tells the vehicle and signals the manager, which counts.
\<close>

section \<open>Shared pieces\<close>

definition lane_port :: "int \<Rightarrow> int \<Rightarrow> int" where
  "lane_port gate_number wheels = 8080 + 10 * (gate_number - 1) + wheels"

definition FT_addr :: sockaddr where "FT_addr = AddrIn 8200 localhost"

section \<open>The vehicle\<close>

definition to_char :: "int \<Rightarrow> int" where "to_char v = sint (word_of_int v :: u8)"

text \<open>\<open>argv\<close> are the arguments as arrays that end in a zero, \<open>behind\<close> what lies behind the vehicle
  number: ten bytes of it are sent however long it is.  \<open>accepted\<close> is uninitialised.\<close>

definition main_v :: "bytes list \<Rightarrow> bytes \<Rightarrow> bytes \<Rightarrow> int sys" where
  "main_v argv behind accepted =
     (if length argv < 4 then Call (Print ''format : ./v.exe <vehicle_number> <num_wheels> <gate_number>'' []) (\<lambda>_. Exit 0)
      else let vehicle_number = argv ! 1; num_wheels = to_char (atoi (argv ! 2)); gate_number = to_char (atoi (argv ! 3)) in
        need (c_str vehicle_number) (\<lambda>text.
        Call (Print ''my vehicle number is %s'' [S text]) (\<lambda>_.
        Call (Print ''I am %d wheeler'' [D num_wheels]) (\<lambda>_.
        Call (Print ''I will go through gate %d'' [D gate_number]) (\<lambda>_.
        let gate_port = lane_port gate_number num_wheels in
        Call (Print ''I will connect to port %d in gate %d'' [D gate_port, D gate_number]) (\<lambda>_.
        bind (cli_tcp_connect gate_port) (\<lambda>sfd.
        need (peek 0 10 (vehicle_number @ behind)) (\<lambda>plate.
        Call (Send sfd plate) (\<lambda>_.
        Call (Recv sfd 4) (\<lambda>r.
        need (poke 0 (data r) accepted) (\<lambda>accepted.
        need (get32 0 accepted) (\<lambda>accepted.
        Call (Print (if accepted = 1 then ''I am allowed to go through gate %d''
                     else ''I am not allowed to go through gate %d'') [D gate_number]) (\<lambda>_.
        Call (CloseFd sfd) (\<lambda>_. Ret 0))))))))))))))"

section \<open>The fast-tag server\<close>

text \<open>One round; \<open>fast_tag_id\<close> is uninitialised.  The verdict is divisibility by three.\<close>

definition verdict :: "int \<Rightarrow> int" where
  "verdict fast_tag_id = (if fast_tag_id mod 3 = 0 then 1 else 0)"

definition ft_round :: "int \<Rightarrow> int \<Rightarrow> u16 \<Rightarrow> bytes \<Rightarrow> unit sys" where
  "ft_round sfd rsfd port fast_tag_id =
     Call (Recvfrom sfd 4) (\<lambda>r.
     need (poke 0 (data r) fast_tag_id) (\<lambda>fast_tag_id.
     need (get32 0 fast_tag_id) (\<lambda>fast_tag_id.
     Call (Recvfrom sfd 10) (\<lambda>r.
     need (poke 0 (data r) (replicate 1024 0)) (\<lambda>vehicle_number.
     need (c_str vehicle_number) (\<lambda>text.
     Call (Print ''Vehicle number = %s, fasttagid = %d'' [S text, D (sint fast_tag_id)]) (\<lambda>_.
     let valid_fast_tag = verdict (sint fast_tag_id) in
     Call (Print ''valid = %d'' [D valid_fast_tag]) (\<lambda>_.
     Call (Sendto rsfd vehicle_number (AddrIn port [0, 0, 0, 0])) (\<lambda>_.
     need (strcpy (replicate 1024 0) (sprintf_d valid_fast_tag)) (\<lambda>valid.
     Call (Sendto rsfd valid (AddrIn port [0, 0, 0, 0])) (\<lambda>_. Ret ())))))))))))"

primrec ft_loop :: "nat \<Rightarrow> int \<Rightarrow> int \<Rightarrow> u16 \<Rightarrow> bytes \<Rightarrow> unit option sys" where
  "ft_loop 0 sfd rsfd port fast_tag_id = Ret None"
| "ft_loop (Suc n) sfd rsfd port fast_tag_id =
     bind (ft_round sfd rsfd port fast_tag_id) (\<lambda>_. ft_loop n sfd rsfd port fast_tag_id)"

definition main_FT :: "nat \<Rightarrow> u16 \<Rightarrow> bytes \<Rightarrow> unit option sys" where
  "main_FT n port fast_tag_id =
     Call (Socket AF_INET SOCK_DGRAM 0) (\<lambda>r. let sfd = res r in
     if sfd < 0 then handle_error
     else Call (Bind sfd FT_addr) (\<lambda>_.
     Call (Socket AF_INET SOCK_RAW 2) (\<lambda>r.
     ft_loop n sfd (res r) port fast_tag_id)))"

section \<open>The toll manager\<close>

definition increment :: "string \<Rightarrow> string \<Rightarrow> unit sys" where
  "increment counter text =
     Call (Load counter) (\<lambda>r.
     need (if is_int (num r + 1) then Some (num r + 1) else None) (\<lambda>v.
     Call (Store counter v) (\<lambda>_.
     Call (Load counter) (\<lambda>r.
     Call (Print text [D (num r)]) (\<lambda>_. Ret ())))))"

definition two_wheeler_handler :: "unit sys" where
  "two_wheeler_handler = increment ''countMemory[0]'' ''Number of 2 wheelers passed = %d''"

definition four_wheeler_handler :: "unit sys" where
  "four_wheeler_handler = increment ''countMemory[1]'' ''Number of 4 wheelers passed = %d''"

definition printVehicleFdDetails :: "int \<Rightarrow> int sys" where
  "printVehicleFdDetails fd =
     Call (Getpeername fd) (\<lambda>r.
     if res r = -1 then Ret (-1)
     else need (peek 4 4 (data r)) (\<lambda>sin_addr.
     need (get16 2 (data r)) (\<lambda>sin_port.
     Call (Print ''Vehicle's IP address is: %s'' [S (inet_ntoa sin_addr)]) (\<lambda>_.
     Call (Print ''Vehicle's port is: %d'' [D (uint (ntohs sin_port))]) (\<lambda>_.
     Ret (uint (ntohs sin_port)))))))"

text \<open>A gate's socket is readable: its vehicle's connection comes in, then its number.\<close>

definition tm_gate :: "u8 \<Rightarrow> int \<Rightarrow> nat \<Rightarrow> int \<Rightarrow> unit sys" where
  "tm_gate buf sfd i fd =
     bind (recv_fd buf fd) (\<lambda>vehicle_fd.
     if vehicle_fd < 0 then handle_error
     else Call (Recv fd 10) (\<lambda>r.
     need (poke 0 (data r) (replicate 10 0)) (\<lambda>vehicle_number.
     need (c_str vehicle_number) (\<lambda>text.
     Call (Print ''gate %d passed details of vehicle %s'' [D (int i + 1), S text]) (\<lambda>_.
     bind (printVehicleFdDetails vehicle_fd) (\<lambda>fast_tag_id.
     Call (Sendto sfd (le32 (word_of_int fast_tag_id)) FT_addr) (\<lambda>_.
     Call (Sendto sfd vehicle_number FT_addr) (\<lambda>_. Ret ()))))))))"

fun tm_gates :: "u8 \<Rightarrow> int \<Rightarrow> resp \<Rightarrow> nat \<Rightarrow> int list \<Rightarrow> unit sys" where
  "tm_gates buf sfd r i [] = Ret ()"
| "tm_gates buf sfd r i (fd # fds) =
     bind (if readable r i then tm_gate buf sfd i fd else Ret ()) (\<lambda>_. tm_gates buf sfd r (Suc i) fds)"

primrec tm_loop :: "nat \<Rightarrow> u8 \<Rightarrow> int \<Rightarrow> int list \<Rightarrow> unit option sys" where
  "tm_loop 0 buf sfd gate_sfds = Ret None"
| "tm_loop (Suc n) buf sfd gate_sfds =
     Call (Poll gate_sfds) (\<lambda>r.
     if res r = -1 then tm_loop n buf sfd gate_sfds
     else bind (tm_gates buf sfd r 0 gate_sfds) (\<lambda>_. tm_loop n buf sfd gate_sfds))"

definition main_TM :: "nat \<Rightarrow> u8 \<Rightarrow> unit option sys" where
  "main_TM n buf =
     Call (Signal SIGUSR1) (\<lambda>_.
     Call (Signal SIGUSR2) (\<lambda>_.
     Call (Ftok ''TM.c'') (\<lambda>_.
     Call Shmget (\<lambda>_.
     Call (Store ''countMemory[0]'' 0) (\<lambda>_.
     Call (Store ''countMemory[1]'' 0) (\<lambda>_.
     bind (cli_uds_conn (bytes_of ''g1.uds'')) (\<lambda>g1.
     bind (cli_uds_conn (bytes_of ''g2.uds'')) (\<lambda>g2.
     bind (cli_uds_conn (bytes_of ''g3.uds'')) (\<lambda>g3.
     Call (Socket AF_INET SOCK_DGRAM 0) (\<lambda>r.
     tm_loop n buf (res r) [g1, g2, g3]))))))))))"

section \<open>The gates\<close>

text \<open>The verdicts for all vehicles come in on the raw socket, two packets each; the loop stops at
  the one for this vehicle.  \<^term>\<open>None\<close>: still waiting after \<open>n\<close> of them.\<close>

primrec await_verdict :: "nat \<Rightarrow> int \<Rightarrow> bytes \<Rightarrow> int option sys" where
  "await_verdict 0 rsfd vehicle_number = Ret None"
| "await_verdict (Suc n) rsfd vehicle_number =
     Call (Recvfrom rsfd 1024) (\<lambda>r.
     need (poke 0 (data r) (replicate 1024 0)) (\<lambda>ft_vehicle.
     Call (Recvfrom rsfd 1024) (\<lambda>r.
     need (poke 0 (data r) (replicate 1024 0)) (\<lambda>is_valid.
     need (get8 0 ft_vehicle) (\<lambda>vhl. let ihl4 = unat vhl mod 16 * 4 in
     need (strcmp_eq (drop ihl4 ft_vehicle) vehicle_number) (\<lambda>mine.
     if mine then need (atoi_array (drop ihl4 is_valid)) (\<lambda>valid. Ret (Some valid))
     else await_verdict n rsfd vehicle_number))))))"

text \<open>Lane \<open>i\<close> (0: two wheels, 1: four) is readable.\<close>

definition gate_lane :: "nat \<Rightarrow> int \<Rightarrow> int \<Rightarrow> int \<Rightarrow> nat \<Rightarrow> int \<Rightarrow> unit option sys" where
  "gate_lane n tm_nsfd tm_pid rsfd i fd =
     Call (Accept fd) (\<lambda>r. let nsfd = res r in
     if nsfd = -1 then Ret (Some ())
     else Call (Recv nsfd 10) (\<lambda>r.
     need (poke 0 (data r) (replicate 10 0)) (\<lambda>vehicle_number.
     need (c_str vehicle_number) (\<lambda>text.
     Call (Print ''Vehicle %s came to my gate'' [S text]) (\<lambda>_.
     bind (send_fd tm_nsfd nsfd) (\<lambda>_.
     Call (Send tm_nsfd vehicle_number) (\<lambda>_.
     bind (await_verdict n rsfd vehicle_number) (\<lambda>v. case v of None \<Rightarrow> Ret None | Some valid \<Rightarrow>
     Call (Print ''valid = %d'' [D valid]) (\<lambda>_.
     Call (Send nsfd (le32 (word_of_int valid))) (\<lambda>_.
     if valid \<noteq> 0 \<and> i = 0 then Call (Kill tm_pid SIGUSR1) (\<lambda>_. Ret (Some ()))
     else if valid \<noteq> 0 \<and> i = 1 then Call (Kill tm_pid SIGUSR2) (\<lambda>_. Ret (Some ()))
     else Ret (Some ())))))))))))"

primrec gate_loop :: "nat \<Rightarrow> int \<Rightarrow> int \<Rightarrow> int \<Rightarrow> int \<Rightarrow> int \<Rightarrow> unit option sys" where
  "gate_loop 0 tm_nsfd tm_pid rsfd w2_sfd w4_sfd = Ret None"
| "gate_loop (Suc n) tm_nsfd tm_pid rsfd w2_sfd w4_sfd =
     Call (Poll [w2_sfd, w4_sfd]) (\<lambda>r.
     if res r = -1 then gate_loop n tm_nsfd tm_pid rsfd w2_sfd w4_sfd
     else bind (if readable r 0 then gate_lane n tm_nsfd tm_pid rsfd 0 w2_sfd else Ret (Some ())) (\<lambda>ok.
       if ok = None then Ret None
       else bind (if readable r 1 then gate_lane n tm_nsfd tm_pid rsfd 1 w4_sfd else Ret (Some ())) (\<lambda>ok.
       if ok = None then Ret None else gate_loop n tm_nsfd tm_pid rsfd w2_sfd w4_sfd)))"

definition main_gate :: "int \<Rightarrow> bytes \<Rightarrow> nat \<Rightarrow> bytes \<Rightarrow> unit option sys" where
  "main_gate gate_number path n s =
     bind (serv_tcp_listen (lane_port gate_number 2)) (\<lambda>w2_sfd.
     bind (serv_tcp_listen (lane_port gate_number 4)) (\<lambda>w4_sfd.
     bind (serv_uds_listen path) (\<lambda>usfd.
     Call (Accept usfd) (\<lambda>r. let tm_nsfd = res r in
     bind (pidof s (bytes_of ''./TM.exe'')) (\<lambda>tm_pid.
     Call (Socket AF_INET SOCK_RAW 2) (\<lambda>r.
     gate_loop n tm_nsfd tm_pid (res r) w2_sfd w4_sfd))))))"

definition main_g1 :: "nat \<Rightarrow> bytes \<Rightarrow> unit option sys" where "main_g1 = main_gate 1 (bytes_of ''g1.uds'')"
definition main_g2 :: "nat \<Rightarrow> bytes \<Rightarrow> unit option sys" where "main_g2 = main_gate 2 (bytes_of ''g2.uds'')"
definition main_g3 :: "nat \<Rightarrow> bytes \<Rightarrow> unit option sys" where "main_g3 = main_gate 3 (bytes_of ''g3.uds'')"

section \<open>The verdict reaches the vehicle\<close>

lemma c_str_take: "c_str s = Some a \<Longrightarrow> length a < n \<Longrightarrow> c_str (take n s) = Some a"
proof (induction s arbitrary: a n)
  case (Cons b s)
  then show ?case by (cases n) (auto split: if_splits)
qed simp

lemma take_all_padded: "take (length s) (s @ t) = s"
  by simp

text \<open>A datagram of the fast-tag server as the raw socket of a gate delivers it: behind an IP
  header of 20 bytes, cut at 1024.\<close>

definition padded :: "bytes \<Rightarrow> bytes" where
  "padded s = s @ replicate (1024 - length s) 0"

definition on_wire :: "bytes \<Rightarrow> bytes \<Rightarrow> resp" where
  "on_wire hdr payload = answered\<lparr>res := 1024, data := take 1024 (hdr @ payload)\<rparr>"

definition ip_hdr :: "bytes \<Rightarrow> bool" where
  "ip_hdr hdr \<longleftrightarrow> length hdr = 20 \<and> hdr ! 0 = 0x45"

definition verdict_packets :: "bytes \<Rightarrow> bytes \<times> int \<Rightarrow> resp list" where
  "verdict_packets hdr q = [on_wire hdr (padded (fst q)), on_wire hdr (padded (sprintf_d (verdict (snd q))))]"

lemma poke_zeros: "length s \<le> n \<Longrightarrow> poke 0 s (replicate n 0) = Some (s @ replicate (n - length s) 0)"
  by (simp add: poke_def wr_def)

lemma length_padded: "length s \<le> 1024 \<Longrightarrow> length (padded s) = 1024"
  by (simp add: padded_def)

lemma wire_buffer:
  assumes "ip_hdr hdr" "length s \<le> 1024"
  shows "poke 0 (data (on_wire hdr (padded s))) (replicate 1024 0) = Some (hdr @ take 1004 (padded s))"
proof -
  have "length (data (on_wire hdr (padded s))) = 1024"
    using assms length_padded [OF assms(2)] by (simp add: on_wire_def ip_hdr_def)
  moreover have "data (on_wire hdr (padded s)) = hdr @ take 1004 (padded s)"
    using assms by (simp add: on_wire_def ip_hdr_def)
  ultimately show ?thesis using poke_zeros [of "data (on_wire hdr (padded s))" 1024] by simp
qed

lemma wire_reads:
  assumes "ip_hdr hdr"
  shows "get8 0 (hdr @ b) = Some 0x45" "drop (unat (0x45 :: u8) mod 16 * 4) (hdr @ b) = b"
  using assms by (simp_all add: ip_hdr_def get8_def nth_append)

lemma c_str_padded: "c_str s = Some t \<Longrightarrow> length t < 1004 \<Longrightarrow> c_str (take 1004 (padded s)) = Some t"
proof -
  assume s: "c_str s = Some t" and t: "length t < 1004"
  obtain rest where "s = t @ 0 # rest" using c_str_prefix [OF s] by blast
  then have "c_str (padded s) = Some t" using c_str_no_zero [OF s] by (simp add: padded_def c_str_append)
  then show ?thesis using t by (rule c_str_take)
qed

lemma verdict_text: "atoi_array (take 1004 (padded (sprintf_d (verdict i)))) = Some (verdict i)"
proof -
  have l: "length (sprintf_d (verdict i)) = 1" by (simp add: verdict_def sprintf_d_def dec.simps)
  have "take 1004 (padded (sprintf_d (verdict i))) = sprintf_d (verdict i) @ 0 # replicate 1002 0"
    using replicate_Suc [of 1002 "0 :: u8"] by (simp add: padded_def l)
  moreover have "is_int (verdict i)" by (simp add: verdict_def is_int_def)
  ultimately show ?thesis by (simp only: atoi_array_text)
qed

lemma await_verdict_step:
  assumes "ip_hdr hdr" "length (fst q) \<le> 10" "c_str (fst q) = Some t" "c_str v = Some t'"
  shows "run (await_verdict (Suc n) rsfd v) (verdict_packets hdr q @ rs) =
    (if t = t' then Some ([(Recvfrom rsfd 1024, on_wire hdr (padded (fst q))),
         (Recvfrom rsfd 1024, on_wire hdr (padded (sprintf_d (verdict (snd q)))))], Done (Some (verdict (snd q))))
     else map_option (\<lambda>x. ((Recvfrom rsfd 1024, on_wire hdr (padded (fst q))) #
         (Recvfrom rsfd 1024, on_wire hdr (padded (sprintf_d (verdict (snd q))))) # fst x, snd x)) (run (await_verdict n rsfd v) rs))"
proof -
  have l: "length (sprintf_d (verdict i)) \<le> 1024" for i by (simp add: verdict_def sprintf_d_def dec.simps)
  have t: "length t < 1004" using c_str_length [OF assms(3)] assms(2) by simp
  have b1: "poke 0 (data (on_wire hdr (padded (fst q)))) (replicate 1024 0) = Some (hdr @ take 1004 (padded (fst q)))"
    by (rule wire_buffer [OF assms(1)]) (use assms(2) in simp)
  note b2 = wire_buffer [OF assms(1) l]
  note c = strcmp_eq_c_str [OF c_str_padded [OF assms(3) t] assms(4)]
  have hl: "length hdr = 20" using assms(1) by (simp add: ip_hdr_def)
  show ?thesis
    by (simp add: verdict_packets_def b1 b2 c wire_reads(1) [OF assms(1)] hl verdict_text Let_def
        option.map_comp comp_def case_prod_beta del: await_verdict.simps(1))
qed

definition plate_text :: "bytes \<times> int \<Rightarrow> bytes option" where
  "plate_text q = c_str (fst q)"

lemma await_verdict_finds:
  assumes "ip_hdr hdr" "c_str v = Some t" "\<forall>q \<in> set (pre @ [q]). length (fst q) \<le> 10 \<and> plate_text q \<noteq> None"
    and "\<forall>p \<in> set pre. plate_text p \<noteq> Some t" "plate_text q = Some t"
  shows "\<exists>tr. run (await_verdict (Suc (length pre + k)) rsfd v) (concat (map (verdict_packets hdr) (pre @ [q])) @ rest) =
    Some (tr, Done (Some (verdict (snd q))))"
  using assms(3,4)
proof (induction pre)
  case Nil
  then have "length (fst q) \<le> 10" "c_str (fst q) = Some t" using assms(5) by (simp_all add: plate_text_def)
  from await_verdict_step [OF assms(1) this assms(2), of k rsfd rest]
  show ?case by (simp del: await_verdict.simps)
next
  case (Cons p pre)
  then obtain t' where p: "length (fst p) \<le> 10" "c_str (fst p) = Some t'" "t' \<noteq> t"
    by (auto simp: plate_text_def)
  obtain tr where "run (await_verdict (Suc (length pre + k)) rsfd v) (concat (map (verdict_packets hdr) (pre @ [q])) @ rest) =
      Some (tr, Done (Some (verdict (snd q))))"
    using Cons by auto
  with await_verdict_step [OF assms(1) p(1,2) assms(2), of "Suc (length pre + k)" rsfd
      "concat (map (verdict_packets hdr) (pre @ [q])) @ rest"] p(3)
  show ?case by (simp del: await_verdict.simps)
qed

text \<open>What one round of the fast-tag server puts on the network.\<close>

definition sent_payloads :: "trace \<Rightarrow> bytes list" where
  "sent_payloads tr = concat (map (\<lambda>e. case fst e of Sendto fd b a \<Rightarrow> [b] | _ \<Rightarrow> []) tr)"

lemma ft_round_sends:
  assumes e: "execs (ft_round sfd rsfd port g) ((Recvfrom sfd 4, r1) # (Recvfrom sfd 10, r2) # tr) (Done ())"
    and "length g = 4" "data r1 = le32 (word_of_int i)" "is_int i" "length (data r2) \<le> 10"
  shows "sent_payloads tr = [padded (data r2), padded (sprintf_d (verdict i))]"
proof -
  have g: "poke 0 (data r1) g = Some (le32 (word_of_int i))" using assms(2,3) by (simp add: poke_def wr_def)
  have w: "get32 0 (le32 (word_of_int i)) = Some (word_of_int i)" by (simp add: get32_def le32_def)
  have s: "sint (word_of_int i :: u32) = i" using assms(4) to_int_id by (simp add: to_int_def)
  have p: "poke 0 (data r2) (replicate 1024 0) = Some (padded (data r2))"
    using assms(5) by (subst poke_zeros) (simp_all add: padded_def)
  have l: "length (sprintf_d (verdict i)) = 1" by (simp add: verdict_def sprintf_d_def dec.simps)
  have "strcpy (replicate 1024 0) (sprintf_d (verdict i)) = Some (sprintf_d (verdict i) @ [0] @ replicate 1022 0)"
    unfolding strcpy_def by (subst poke_zeros) (simp_all add: l)
  moreover have "sprintf_d (verdict i) @ [0] @ replicate 1022 0 = padded (sprintf_d (verdict i))"
    using replicate_Suc [of 1022 "0 :: u8"] by (simp add: padded_def l)
  ultimately have v: "strcpy (replicate 1024 0) (sprintf_d (verdict i)) = Some (padded (sprintf_d (verdict i)))" by metis
  show ?thesis
    using e by (auto simp: ft_round_def execs_Call g w s p v Let_def sent_payloads_def need_def split: option.splits)
qed

text \<open>One round for a vehicle: its number and fast-tag id come in, two datagrams go out.\<close>

definition ft_says :: "bytes \<times> int \<Rightarrow> bytes list \<Rightarrow> bool" where
  "ft_says q ps \<longleftrightarrow> (\<exists>sfd rsfd port g r1 r2 tr.
     execs (ft_round sfd rsfd port g) ((Recvfrom sfd 4, r1) # (Recvfrom sfd 10, r2) # tr) (Done ()) \<and>
     length g = 4 \<and> data r1 = le32 (word_of_int (snd q)) \<and> is_int (snd q) \<and> data r2 = fst q \<and>
     length (fst q) \<le> 10 \<and> sent_payloads tr = ps)"

lemma ft_says_packets: "ft_says q ps \<Longrightarrow> map (on_wire hdr) ps = verdict_packets hdr q"
  unfolding ft_says_def by (elim exE conjE) (drule ft_round_sends, auto simp: verdict_packets_def)

lemma ft_says_all:
  "list_all2 ft_says qs pss \<Longrightarrow> map (on_wire hdr) (concat pss) = concat (map (verdict_packets hdr) qs) \<and>
     (\<forall>q \<in> set qs. length (fst q) \<le> 10)"
  by (induction rule: list_all2_induct) (auto simp: ft_says_packets, auto simp: ft_says_def)

section \<open>What a lane does with it\<close>

definition kills :: "trace \<Rightarrow> (int \<times> int) list" where
  "kills tr = concat (map (\<lambda>e. case fst e of Kill p s \<Rightarrow> [(p, s)] | _ \<Rightarrow> []) tr)"

lemma kills_simps [simp]:
  "kills [] = []" "kills (a @ b) = kills a @ kills b"
  "kills ((c, r) # tr) = (case c of Kill p s \<Rightarrow> (p, s) # kills tr | _ \<Rightarrow> kills tr)"
  by (cases c; simp add: kills_def)+

definition sends :: "trace \<Rightarrow> (int \<times> bytes) list" where
  "sends tr = concat (map (\<lambda>e. case fst e of Send fd b \<Rightarrow> [(fd, b)] | _ \<Rightarrow> []) tr)"

lemma sends_simps [simp]:
  "sends [] = []" "sends (a @ b) = sends a @ sends b"
  "sends ((c, r) # tr) = (case c of Send fd b \<Rightarrow> (fd, b) # sends tr | _ \<Rightarrow> sends tr)"
  by (cases c; simp add: sends_def)+

lemma await_verdict_calls:
  "execs (await_verdict n rsfd v) tr out \<Longrightarrow> \<forall>e \<in> set tr. fst e = Recvfrom rsfd 1024"
proof (erule only_execs)
  show "only (\<lambda>c. c = Recvfrom rsfd 1024) (await_verdict n rsfd v)"
    by (induction n) (auto simp: Let_def intro!: only_need)
qed

lemma only_recvfrom:
  "\<forall>e \<in> set tr. fst e = Recvfrom fd m \<Longrightarrow> kills tr = [] \<and> fds_from held tr = Some held"
  by (induction tr) auto

lemma gate_lane_outcome:
  assumes e: "execs (gate_lane n tm_nsfd tm_pid rsfd i fd) ((Accept fd, r) # tr) (Done (Some ()))" and nsfd: "0 \<le> res r"
  shows "\<exists>r1 v valid pre trv post. tr = (Recv (res r) 10, r1) # pre @ trv @ post \<and>
    poke 0 (data r1) (replicate 10 0) = Some v \<and>
    sends pre = [(tm_nsfd, v)] \<and> SendRights tm_nsfd [fd_mark] (res r) \<in> fst ` set pre \<and>
    execs (await_verdict n rsfd v) trv (Done (Some valid)) \<and> sends post = [(res r, le32 (word_of_int valid))] \<and>
    kills tr = (if valid = 0 \<or> 1 < i then [] else [(tm_pid, if i = 0 then SIGUSR1 else SIGUSR2)]) \<and>
    fds_from {} ((Accept fd, r) # tr) = Some {res r}"
proof -
  from e nsfd obtain w t r1 r2 r3 r4 tr1 tr2 v
    where tr: "tr = (Recv (res r) 10, r1) # (Print ''Vehicle %s came to my gate'' [S t], r2) #
        (SendRights tm_nsfd [fd_mark] (res r), r3) # (Send tm_nsfd w, r4) # tr1 @ tr2"
      and w: "poke 0 (data r1) (replicate 10 0) = Some w"
      and a: "execs (await_verdict n rsfd w) tr1 (Done v)"
      and z: "execs (case v of None \<Rightarrow> Ret None | Some valid \<Rightarrow>
        Call (Print ''valid = %d'' [D valid]) (\<lambda>_.
        Call (Send (res r) (le32 (word_of_int valid))) (\<lambda>_.
        if valid \<noteq> 0 \<and> i = 0 then Call (Kill tm_pid SIGUSR1) (\<lambda>_. Ret (Some ()))
        else if valid \<noteq> 0 \<and> i = 1 then Call (Kill tm_pid SIGUSR2) (\<lambda>_. Ret (Some ()))
        else Ret (Some ())))) tr2 (Done (Some ()))"
    by (auto simp: gate_lane_def execs_Call execs_bind execs_need_Done Let_def unix_fds.sends)
  note b = only_recvfrom [OF await_verdict_calls [OF a]]
  let ?pre = "[(Print ''Vehicle %s came to my gate'' [S t], r2), (SendRights tm_nsfd [fd_mark] (res r), r3), (Send tm_nsfd w, r4)]"
  from z obtain valid where v: "v = Some valid" by (auto split: option.splits)
  with z have "sends tr2 = [(res r, le32 (word_of_int valid))] \<and>
      kills tr2 = (if valid = 0 \<or> 1 < i then [] else [(tm_pid, if i = 0 then SIGUSR1 else SIGUSR2)]) \<and>
      fds_from {res r} tr2 = Some {res r}"
    by (auto simp: execs_Call split: if_splits)
  with tr w a v b nsfd show ?thesis
    by (intro exI [of _ r1] exI [of _ w] exI [of _ valid] exI [of _ ?pre] exI [of _ tr1] exI [of _ tr2])
       (simp add: fds_from_append)
qed

section \<open>Properties\<close>

text \<open>
  C25. The verdict reaches its gate: the fast-tag server serves vehicles in some order and a gate
  hears all its datagrams; the gate that waits for the vehicle with number \<open>t\<close> passes over the
  others and returns the verdict on that vehicle, 1 exactly when its fast-tag id is divisible by
  three.
\<close>

theorem toll_verdict_arrives:
  assumes "ip_hdr hdr" "c_str v = Some t" "list_all2 ft_says (pre @ [q]) pss"
    and "\<forall>p \<in> set pre. plate_text p \<noteq> None \<and> plate_text p \<noteq> Some t" "plate_text q = Some t"
  shows "\<exists>tr. run (await_verdict (Suc (length pre + k)) rsfd v) (map (on_wire hdr) (concat pss) @ rest) =
    Some (tr, Done (Some (if snd q mod 3 = 0 then 1 else 0)))"
  using await_verdict_finds [OF assms(1,2), of pre q k rsfd rest] ft_says_all [OF assms(3), of hdr] assms(4,5)
  by (auto simp: verdict_def)

text \<open>
  C26. A lane that served a vehicle passed its connection and its number to the toll manager,
  waited for the verdict on that number, told the vehicle exactly this verdict, and signalled the
  toll manager exactly when it was positive, SIGUSR1 from the lane for two wheels and SIGUSR2 from
  the other; and it leaves the vehicle's connection open: every vehicle costs a descriptor.
\<close>

theorem gate_signals_iff_valid:
  assumes "execs (gate_lane n tm_nsfd tm_pid rsfd i fd) ((Accept fd, r) # tr) (Done (Some ()))" "0 \<le> res r"
  shows "\<exists>r1 v valid pre trv post. tr = (Recv (res r) 10, r1) # pre @ trv @ post \<and>
    poke 0 (data r1) (replicate 10 0) = Some v \<and>
    sends pre = [(tm_nsfd, v)] \<and> SendRights tm_nsfd [fd_mark] (res r) \<in> fst ` set pre \<and>
    execs (await_verdict n rsfd v) trv (Done (Some valid)) \<and> sends post = [(res r, le32 (word_of_int valid))] \<and>
    kills tr = (if valid = 0 \<or> 1 < i then [] else [(tm_pid, if i = 0 then SIGUSR1 else SIGUSR2)]) \<and>
    fds_from {} ((Accept fd, r) # tr) = Some {res r}"
  by (rule gate_lane_outcome [OF assms])

text \<open>
  A vehicle with two or four wheels that goes through gate 1, 2 or 3 connects to exactly one
  of the six ports the gates listen on, that of its lane at its gate.
\<close>

theorem vehicle_finds_its_lane:
  assumes "execs (main_v argv behind acc) tr out" "4 \<le> length argv" "Connect fd (AddrIn p a) \<in> fst ` set tr"
    and "atoi (argv ! 2) \<in> {2, 4}" "atoi (argv ! 3) \<in> {1, 2, 3}" "g \<in> {1, 2, 3}" "w \<in> {2, 4}"
  shows "p = port_of (lane_port g w) \<longleftrightarrow> w = atoi (argv ! 2) \<and> g = atoi (argv ! 3)"
proof -
  have c: "to_char v = v" if "v \<in> {1, 2, 3, 4}" for v
    using that by (auto simp: to_char_def)
  have t: "to_char (atoi (argv ! 2)) = atoi (argv ! 2)" "to_char (atoi (argv ! 3)) = atoi (argv ! 3)"
    by (rule c, use assms(4,5) in auto)+
  have "only (\<lambda>c. \<forall>fd p a. c = Connect fd (AddrIn p a) \<longrightarrow> p = port_of (lane_port (atoi (argv ! 3)) (atoi (argv ! 2))))
      (main_v argv behind acc)"
    unfolding main_v_def Let_def t
    by (auto simp: cli_tcp_connect_def Let_def handle_error_def intro!: only_need only_bind)
  from only_execs [OF assms(1) this] assms(3) have p: "p = port_of (lane_port (atoi (argv ! 3)) (atoi (argv ! 2)))" by auto
  have i: "port_of x = port_of y \<longleftrightarrow> x = y" if "0 \<le> x" "x < 65536" "0 \<le> y" "y < 65536" for x y
  proof -
    have "port_of x = port_of y \<longleftrightarrow> (word_of_int x :: u16) = word_of_int y"
      unfolding port_of_def by (metis ntohs_htons)
    also have "\<dots> \<longleftrightarrow> x = y" using that by (simp add: word_of_int_eq_iff take_bit_int_eq_self)
    finally show ?thesis .
  qed
  have b: "0 \<le> lane_port g w" "lane_port g w < 65536" if "g \<in> {1, 2, 3}" "w \<in> {2, 4}" for g w
    using that by (auto simp: lane_port_def)
  have "p = port_of (lane_port g w) \<longleftrightarrow> lane_port (atoi (argv ! 3)) (atoi (argv ! 2)) = lane_port g w"
    unfolding p by (rule i) (use b assms(4-7) in simp_all)
  also have "\<dots> \<longleftrightarrow> 10 * (atoi (argv ! 3) - g) = w - atoi (argv ! 2)" by (auto simp: lane_port_def)
  also have "\<dots> \<longleftrightarrow> w = atoi (argv ! 2) \<and> g = atoi (argv ! 3)"
  proof
    assume e: "10 * (atoi (argv ! 3) - g) = w - atoi (argv ! 2)"
    moreover have "-2 \<le> w - atoi (argv ! 2)" "w - atoi (argv ! 2) \<le> 2" using assms(4,7) by auto
    ultimately show "w = atoi (argv ! 2) \<and> g = atoi (argv ! 3)" by presburger
  qed simp
  finally show ?thesis .
qed

section \<open>Witnesses\<close>

lemma ft_saysI:
  assumes "is_int i" "length plate \<le> 10" "c_str plate = Some t"
  shows "ft_says (plate, i) [padded plate, padded (sprintf_d (verdict i))]"
proof -
  define r where "r d = answered\<lparr>data := d\<rparr>" for d
  have p: "poke 0 plate (replicate 1024 0) = Some (padded plate)"
    using assms(2) by (subst poke_zeros) (simp_all add: padded_def)
  have "c_str (plate @ s) = Some t" for s
    using c_str_prefix [OF assms(3)] c_str_no_zero [OF assms(3)] by (auto simp: c_str_append)
  then have pt: "c_str (padded plate) = Some t" by (simp add: padded_def)
  have g: "poke 0 (le32 (word_of_int i)) (replicate 4 0) = Some (le32 (word_of_int i))" by (simp add: poke_def wr_def)
  have w: "get32 0 (le32 (word_of_int i)) = Some (word_of_int i)" by (simp add: get32_def le32_def)
  have "length (sprintf_d (verdict (sint (word_of_int i :: u32)))) < length (replicate 1024 (0 :: u8))"
    by (simp add: verdict_def sprintf_d_def dec.simps)
  then obtain b where b: "strcpy (replicate 1024 0) (sprintf_d (verdict (sint (word_of_int i :: u32)))) = Some b"
    using strcpy_defined by blast
  have "\<exists>tr. execs (ft_round 3 4 0 (replicate 4 0)) ((Recvfrom 3 4, r (le32 (word_of_int i))) # (Recvfrom 3 10, r plate) # tr) (Done ())"
    using p pt g w b by (simp add: ft_round_def execs_Call r_def Let_def) blast
  then obtain tr where e: "execs (ft_round 3 4 0 (replicate 4 0)) ((Recvfrom 3 4, r (le32 (word_of_int i))) # (Recvfrom 3 10, r plate) # tr) (Done ())" ..
  from ft_round_sends [OF e] assms have "sent_payloads tr = [padded plate, padded (sprintf_d (verdict i))]"
    by (simp add: r_def)
  then show ?thesis unfolding ft_says_def using e assms
    by (intro exI [of _ 3] exI [of _ 4] exI [of _ 0] exI [of _ "replicate 4 0"] exI [of _ "r (le32 (word_of_int i))"] exI [of _ "r plate"]
        exI [of _ tr]) (simp add: r_def)
qed

definition example_hdr :: bytes where "example_hdr = 0x45 # replicate 19 0"

lemma example_hdr: "ip_hdr example_hdr"
  by (simp add: ip_hdr_def example_hdr_def)

text \<open>Vehicle B hears its own verdict behind that of vehicle A.\<close>

theorem toll_verdict_arrives_witness:
  "\<exists>tr pss. list_all2 ft_says [([65, 0], 4), ([66, 0], 6)] pss \<and>
     run (await_verdict 2 5 [66, 0]) (map (on_wire example_hdr) (concat pss)) = Some (tr, Done (Some 1))"
proof -
  have "ft_says ([65, 0], 4) [padded [65, 0], padded (sprintf_d (verdict 4))]"
    "ft_says ([66, 0], 6) [padded [66, 0], padded (sprintf_d (verdict 6))]"
    by (rule ft_saysI; simp add: is_int_def)+
  then have f: "list_all2 ft_says ([([65, 0], 4)] @ [([66, 0], 6)])
      [[padded [65, 0], padded (sprintf_d (verdict 4))], [padded [66, 0], padded (sprintf_d (verdict 6))]]"
    by simp
  have v: "c_str [66, 0] = Some [66]" by simp
  have t: "plate_text ([65, 0], 4) = Some [65]" "plate_text ([66, 0], 6) = Some [66]" by (simp_all add: plate_text_def)
  have n: "Suc (length [([65, 0] :: bytes, 4 :: int)] + 0) = 2" by simp
  let ?pss = "[[padded [65, 0], padded (sprintf_d (verdict 4))], [padded [66, 0], padded (sprintf_d (verdict 6))]]"
  from toll_verdict_arrives [OF example_hdr v f, of 0 5 "[]", unfolded n] t
  obtain tr where "run (await_verdict 2 5 [66, 0]) (map (on_wire example_hdr)
      (concat [[padded [65, 0], padded (sprintf_d (verdict 4))], [padded [66, 0], padded (sprintf_d (verdict 6))]])) = Some (tr, Done (Some 1))"
    by (auto simp del: await_verdict.simps)
  with f show ?thesis by (intro exI [of _ tr] exI [of _ ?pss]) simp
qed

text \<open>Vehicle B, on the lane for four wheels, is let through.\<close>

theorem gate_signals_iff_valid_witness:
  "\<exists>tr. execs (gate_lane 1 7 99 5 1 3) tr (Done (Some ())) \<and> kills tr = [(99, SIGUSR2)] \<and> fds_from {} tr = Some {6}"
proof -
  define ok where "ok v = answered\<lparr>res := v\<rparr>" for v :: int
  define plate where "plate = answered\<lparr>data := [66]\<rparr>"
  have p: "poke 0 [66] (replicate 10 0) = Some (66 # replicate 9 (0 :: u8))" by (simp add: poke_zeros)
  have c: "c_str (66 # replicate 9 0) = Some [66]" using replicate_Suc [of 8 "0 :: u8"] by simp
  have q: "plate_text ([66, 0], 6) = Some [66]" by (simp add: plate_text_def)
  obtain tr1 where r: "run (await_verdict 1 5 (66 # replicate 9 0)) (verdict_packets example_hdr ([66, 0], 6)) = Some (tr1, Done (Some 1))"
    using await_verdict_finds [OF example_hdr c, of "[]" "([66, 0], 6)" 0 5 "[]"] q
    by (auto simp: verdict_def simp del: await_verdict.simps)
  let ?tr = "(Recv 6 10, plate) # (Print ''Vehicle %s came to my gate'' [S [66]], ok 0) # (SendRights 7 [fd_mark] 6, ok 1) #
    (Send 7 (66 # replicate 9 0), ok 10) # tr1 @ [(Print ''valid = %d'' [D 1], ok 0), (Send 6 (le32 1), ok 4), (Kill 99 SIGUSR2, ok 0)]"
  have e: "execs (gate_lane 1 7 99 5 1 3) ((Accept 3, ok 6) # ?tr) (Done (Some ()))"
    unfolding gate_lane_def
    by (simp add: execs_Call Let_def ok_def plate_def p c send_fd_def execs_bindI [OF run_execs [OF r]] del: await_verdict.simps c_str.simps(2) One_nat_def)
  have "0 \<le> res (ok 6)" by (simp add: ok_def)
  from gate_signals_iff_valid [OF e this] have s: "fds_from {} ((Accept 3, ok 6) # ?tr) = Some {res (ok 6)}"
    by (elim exE conjE)
  have "kills ?tr = [(99, SIGUSR2)]" using only_recvfrom [OF await_verdict_calls [OF run_execs [OF r]]] by simp
  with e s show ?thesis by (intro exI [of _ "(Accept 3, ok 6) # ?tr"]) (simp add: ok_def)
qed

theorem vehicle_finds_its_lane_witness:
  "port_of 8104 = port_of (lane_port 3 4) \<and> port_of 8104 \<noteq> port_of (lane_port 2 4)"
proof -
  let ?argv = "[[0], [66, 0], [52, 0], [51, 0]] :: bytes list"
  define ok where "ok v = answered\<lparr>res := v\<rparr>" for v :: int
  have d: "atoi [52, 0] = 4" "atoi [51, 0] = 3"
    using libc.parse_print [of 4 "[]"] libc.parse_print [of 3 "[]"]
    by (simp_all add: is_int_def sprintf_d_def dec.simps digit_def)
  let ?tr = "[(Print ''my vehicle number is %s'' [S [66]], ok 0), (Print ''I am %d wheeler'' [D 4], ok 0), (Print ''I will go through gate %d'' [D 3], ok 0),
    (Print ''I will connect to port %d in gate %d'' [D 8104, D 3], ok 0), (Socket AF_INET SOCK_STREAM 0, ok 3),
    (Connect 3 (AddrIn (port_of 8104) localhost), ok 0)]"
  have e: "execs (main_v ?argv [] (replicate 4 0)) ?tr Undefined"
    by (simp add: main_v_def Let_def execs_Call d to_char_def lane_port_def cli_tcp_connect_def ok_def peek_def)
  have m: "Connect 3 (AddrIn (port_of 8104) localhost) \<in> fst ` set ?tr" by simp
  from vehicle_finds_its_lane [OF e _ m, of 3 4] vehicle_finds_its_lane [OF e _ m, of 2 4] d show ?thesis by simp
qed

end
