(* ===== verification/Drivers.thy ===== *)
theory Drivers
  imports Unix "HOL-Library.Monad_Syntax" "HOL-Library.Signed_Division"
begin

text \<open>
  The character device drivers: the temperature converter cel_far.c with its user_program.c,
  read_write.c and ticktock.c.  A driver is its state, with the blocks \<open>kmalloc\<close> has given out,
  and its file operations; an access to memory that is not there, a block freed twice or used
  after it was freed is \<^term>\<open>None\<close>.  \<open>printk\<close> is left out.  The kernel is compiled with wrapping
  arithmetic.
\<close>

text \<open>\<open>kmalloc\<close>ed blocks by number; a freed one is not there any more.\<close>

type_synonym blocks = "nat \<Rightarrow> bytes option"

definition EFAULT :: int where "EFAULT = 14"

section \<open>cel_far.c\<close>

text \<open>The driver's own \<open>atoi\<close>: to the terminator, digits or not.\<close>

fun atoi_loop :: "int \<Rightarrow> bytes \<Rightarrow> int option" where
  "atoi_loop acc [] = None"
| "atoi_loop acc (b # str) = (if b = 0 then Some acc else atoi_loop (to_int (acc * 10 + sint b - 48)) str)"

definition cel_far_atoi :: "bytes \<Rightarrow> int option" where
  "cel_far_atoi str = (case str of [] \<Rightarrow> None
     | b # rest \<Rightarrow> if b = 45 then map_option (\<lambda>v. to_int (- v)) (atoi_loop 0 rest) else atoi_loop 0 str)"

definition C_to_F :: "int \<Rightarrow> int" where
  "C_to_F temp = to_int (to_int (temp * 9) sdiv 5 + 32)"

definition F_to_C :: "int \<Rightarrow> int" where
  "F_to_C temp = to_int (to_int (temp - 32) * 5) sdiv 9"

record cel_far =
  blocks :: blocks
  fresh :: nat
  mybuf :: "nat option"
  in_temp :: int
  out_temp :: int

text \<open>\<open>open_dev\<close>: \<open>g\<close> is what \<open>kmalloc(100)\<close> returns, a block with old bytes or \<open>NULL\<close>.  Every open
  stores its block in the one \<open>mybuf\<close>, and \<open>release_dev\<close> frees what \<open>mybuf\<close> points to.\<close>

definition open_dev :: "bytes option \<Rightarrow> cel_far \<Rightarrow> cel_far" where
  "open_dev g s = (case g of None \<Rightarrow> s\<lparr>mybuf := None\<rparr>
     | Some b \<Rightarrow> s\<lparr>blocks := (blocks s)(fresh s \<mapsto> b), fresh := Suc (fresh s), mybuf := Some (fresh s)\<rparr>)"

definition release_dev :: "cel_far \<Rightarrow> cel_far option" where
  "release_dev s = (case mybuf s of None \<Rightarrow> Some s
     | Some k \<Rightarrow> (case blocks s k of None \<Rightarrow> None | Some _ \<Rightarrow> Some (s\<lparr>blocks := (blocks s)(k := None)\<rparr>)))"

definition write_block :: "bytes \<Rightarrow> cel_far \<Rightarrow> cel_far" where
  "write_block b s = (case mybuf s of None \<Rightarrow> s | Some k \<Rightarrow> s\<lparr>blocks := (blocks s)(k \<mapsto> b)\<rparr>)"

definition read_block :: "cel_far \<Rightarrow> bytes option" where
  "read_block s = Option.bind (mybuf s) (blocks s)"

text \<open>\<open>fault\<close>: \<open>copy_to_user\<close> fails.  The result is the value returned, which is the size of the
  function, 1, and the bytes copied.\<close>

definition read_dev :: "nat \<Rightarrow> bool \<Rightarrow> cel_far \<Rightarrow> (cel_far \<times> int \<times> bytes) option" where
  "read_dev len fault s = do {
     b \<leftarrow> read_block s;
     b \<leftarrow> strcpy b (sprintf_d (out_temp s));
     out \<leftarrow> peek 0 len b;
     Some (write_block b s, if fault then (- EFAULT, []) else (1, out)) }"

text \<open>\<open>fault = Some n\<close>: \<open>copy_from_user\<close> fails after \<open>n\<close> bytes and clears the rest.\<close>

definition write_dev :: "bytes \<Rightarrow> nat option \<Rightarrow> cel_far \<Rightarrow> (cel_far \<times> int) option" where
  "write_dev buff fault s = do {
     b \<leftarrow> read_block s;
     b \<leftarrow> poke 0 (case fault of None \<Rightarrow> buff | Some n \<Rightarrow> take n buff @ replicate (length buff - n) 0) b;
     (case fault of Some n \<Rightarrow> Some (write_block b s, - EFAULT)
      | None \<Rightarrow> do {
          c \<leftarrow> get8 0 b;
          t \<leftarrow> cel_far_atoi (drop 2 b);
          Some (write_block b s\<lparr>in_temp := t,
            out_temp := (if sint c - 48 = 1 then C_to_F t else F_to_C t)\<rparr>, int (length buff)) }) }"

datatype file_op = Open "bytes option" | Release | Read nat bool | Write bytes "nat option"

fun cel_far_op :: "file_op \<Rightarrow> cel_far \<Rightarrow> cel_far option" where
  "cel_far_op (Open g) s = Some (open_dev g s)"
| "cel_far_op Release s = release_dev s"
| "cel_far_op (Read len fault) s = map_option fst (read_dev len fault s)"
| "cel_far_op (Write buff fault) s = map_option fst (write_dev buff fault s)"

fun cel_far_ops :: "file_op list \<Rightarrow> cel_far \<Rightarrow> cel_far option" where
  "cel_far_ops [] s = Some s"
| "cel_far_ops (x # xs) s = Option.bind (cel_far_op x s) (cel_far_ops xs)"

text \<open>The module is loaded with all variables zero; \<open>major\<close> is what \<open>register_chrdev\<close> returns.\<close>

definition start_func :: "int \<Rightarrow> int \<times> cel_far option" where
  "start_func major = (if major < 0 then (major, None)
     else (0, Some \<lparr>blocks = (\<lambda>_. None), fresh = 0, mybuf = None, in_temp = 0, out_temp = 0\<rparr>))"

section \<open>user_program.c\<close>

text \<open>One round of the loop; \<open>buf\<close> is uninitialised in the first.  The degree sign of the output is
  left out.\<close>

definition user_round :: "int \<Rightarrow> bytes \<Rightarrow> unit sys" where
  "user_round fd buf =
     Call (Print ''1. Celsis to Farenheit;2. Farenheit to Celsius;'' []) (\<lambda>_.
     Call (Print ''Enter your choice, and value of temperature: '' []) (\<lambda>_.
     Call ScanInt (\<lambda>c. let choice = num c in
     Call ScanInt (\<lambda>t. let temp = num t in
     need (strcpy buf (sprintf_d choice @ bytes_of ''_'' @ sprintf_d temp)) (\<lambda>buf.
     Call (WriteFd fd buf) (\<lambda>_.
     Call (ReadFd fd 100) (\<lambda>r.
     need (poke 0 (data r) (replicate 100 0)) (\<lambda>buf.
     need (c_str buf) (\<lambda>text.
     let converted_temp = atoi text in
     if choice = 1 then Call (Print ''%d in Farenheit is %d F'' [D temp, D converted_temp]) (\<lambda>_. Ret ())
     else if choice = 2 then Call (Print ''%d in Celsius is %d C'' [D temp, D converted_temp]) (\<lambda>_. Ret ())
     else Ret ())))))))))"

section \<open>read_write.c\<close>

text \<open>One block of 1024 bytes from \<open>kmalloc\<close> when the module is loaded; it is never freed.\<close>

definition rw_start :: "int \<Rightarrow> bytes \<Rightarrow> (int \<times> bytes option) option" where
  "rw_start major garbage = (if major < 0 then Some (major, None)
     else map_option (\<lambda>b. (0, Some b)) (strcpy garbage (bytes_of ''Hello World'')))"

definition rw_read :: "nat \<Rightarrow> bool \<Rightarrow> bytes \<Rightarrow> (int \<times> bytes) option" where
  "rw_read len fault b = map_option (\<lambda>out. if fault then (- EFAULT, []) else (8, out)) (peek 0 len b)"

definition rw_write :: "bytes \<Rightarrow> nat option \<Rightarrow> bytes \<Rightarrow> (bytes \<times> int) option" where
  "rw_write buff fault b =
     (case fault of None \<Rightarrow> map_option (\<lambda>b. (b, int (length buff))) (poke 0 buff b)
      | Some n \<Rightarrow> map_option (\<lambda>b. (b, - EFAULT)) (poke 0 (take n buff @ replicate (length buff - n) 0) b))"

section \<open>ticktock.c\<close>

text \<open>\<open>reverse\<close>, two indices that meet.\<close>

fun reverse_loop :: "nat \<Rightarrow> int \<Rightarrow> int \<Rightarrow> bytes \<Rightarrow> bytes" where
  "reverse_loop 0 start end' str = str"
| "reverse_loop (Suc n) start end' str =
     (if start < end' then reverse_loop n (start + 1) (end' - 1)
        (str[nat start := str ! nat end', nat end' := str ! nat start]) else str)"

definition reverse :: "bytes \<Rightarrow> nat \<Rightarrow> bytes option" where
  "reverse str len = (if len \<le> length str then Some (reverse_loop len 0 (int len - 1) str) else None)"

record ticktock =
  clock :: int
  leaked :: nat

text \<open>\<open>sprintf("%lld")\<close> into a block of 40 bytes, which is not freed; \<open>strlen(b)\<close> bytes are copied,
  whatever room the reader has.\<close>

definition readtime :: "bytes \<Rightarrow> nat \<Rightarrow> ticktock \<Rightarrow> (ticktock \<times> int \<times> bytes) option" where
  "readtime garbage len s = do {
     b \<leftarrow> strcpy garbage (sprintf_d (clock s));
     text \<leftarrow> c_str b;
     Some (s\<lparr>leaked := Suc (leaked s)\<rparr>, int len, text) }"

definition writetime :: "bytes \<Rightarrow> bytes \<Rightarrow> ticktock \<Rightarrow> (ticktock \<times> int) option" where
  "writetime garbage buff s = do {
     b \<leftarrow> poke 0 buff garbage;
     i \<leftarrow> atoi_loop 0 b;
     Some (s\<lparr>clock := i, leaked := Suc (leaked s)\<rparr>, int (length buff)) }"

section \<open>The drivers' text\<close>

lemma to_int_to_int [simp]: "to_int (to_int a * 10 + d) = to_int (a * 10 + d)" "to_int (- to_int a) = to_int (- a)"
  by (simp_all add: to_int_def)

lemma sint_digit: "is_digit b \<Longrightarrow> sint b - 48 = int (digit_value b)"
proof -
  assume d: "is_digit b"
  then have "unat b < 128" by (simp add: is_digit_def)
  moreover have "uint b = int (unat b)" by simp
  ultimately have "sint b = int (unat b)"
    using \<open>unat b < 128\<close> by (simp only: sint_uint) (simp add: signed_take_bit_int_eq_self del: of_nat_unat)
  with d show ?thesis by (simp add: is_digit_def digit_value_def)
qed

lemma atoi_loop_digits:
  "\<forall>b \<in> set ds. is_digit b \<Longrightarrow> atoi_loop (to_int (int a)) (ds @ 0 # rest) = Some (to_int (int (value_from a ds)))"
proof (induction ds arbitrary: a)
  case (Cons b ds)
  then have d: "is_digit b" by simp
  then have "b \<noteq> 0" by (auto simp: is_digit_def)
  moreover have "to_int (to_int (int a) * 10 + sint b - 48) = to_int (int (10 * a + digit_value b))"
    using sint_digit [OF d] by (simp flip: add_diff_eq) (simp add: mult.commute)
  moreover have "atoi_loop (to_int (int (10 * a + digit_value b))) (ds @ 0 # rest) =
      Some (to_int (int (value_from (10 * a + digit_value b) ds)))"
    by (rule Cons.IH) (use Cons.prems in simp)
  ultimately show ?case using d by (simp only: atoi_loop.simps append_Cons value_from.simps if_False if_True)
qed simp

lemma atoi_loop_dec: "atoi_loop 0 (dec n @ 0 # rest) = Some (to_int (int n))"
proof -
  have "to_int (int 0) = 0" by (simp add: to_int_def)
  with atoi_loop_digits [OF dec_digits, of 0 n rest] show ?thesis by (simp add: value_from_dec)
qed

lemma cel_far_atoi_text:
  assumes "is_int i"
  shows "cel_far_atoi (sprintf_d i @ 0 # rest) = Some i"
proof (cases "i < 0")
  case True
  then have "- int (nat (- i)) = i" by simp
  with True show ?thesis
    using to_int_id [OF assms] by (simp add: cel_far_atoi_def sprintf_d_def atoi_loop_dec)
next
  case False
  obtain b bs where d: "dec (nat i) = b # bs" "is_digit b" using dec_Cons by blast
  with atoi_loop_dec [of "nat i" rest] False digit_not_space(2) [OF d(2)] to_int_id [OF assms]
  show ?thesis by (auto simp: cel_far_atoi_def sprintf_d_def)
qed

interpretation driver_text: text_codec sprintf_d "\<lambda>s. the (cel_far_atoi s)" is_int
  by unfold_locales (simp_all add: cel_far_atoi_text)

lemma length_dec: "n < 10 ^ k \<Longrightarrow> 0 < k \<Longrightarrow> length (dec n) \<le> k"
proof (induction n arbitrary: k rule: dec.induct)
  case (1 n)
  show ?case
  proof (cases "n < 10")
    case True
    with 1(3) show ?thesis by (subst dec.simps) simp
  next
    case False
    then obtain k' where k: "k = Suc k'" "0 < k'" using 1(2,3) by (cases k; cases "k - 1") auto
    then have "n div 10 < 10 ^ k'" using 1(2) by (simp add: less_mult_imp_div_less mult.commute)
    with 1(1) [OF False this k(2)] k False show ?thesis by (subst dec.simps) simp
  qed
qed

lemma length_sprintf_d: "is_int i \<Longrightarrow> length (sprintf_d i) \<le> 11"
proof -
  assume "is_int i"
  then have "nat i < 10 ^ 10" "nat (- i) < 10 ^ 10" by (auto simp: is_int_def)
  then have "length (dec (nat i)) \<le> 10" "length (dec (nat (- i))) \<le> 10" by (simp_all add: length_dec)
  then show ?thesis by (simp add: sprintf_d_def)
qed

lemma is_int_to_int: "is_int (to_int v)"
  using sint_range_size [of "word_of_int v :: u32"] by (simp add: to_int_def is_int_def word_size)

section \<open>Sessions\<close>

text \<open>What a caller may ask for: at most the size of the block, and text that ends.\<close>

fun fits :: "file_op \<Rightarrow> bool" where
  "fits (Open g) = (case g of None \<Rightarrow> False | Some b \<Rightarrow> length b = 100)"
| "fits Release = True"
| "fits (Read len fault) = (len \<le> 100)"
| "fits (Write buff fault) = (3 \<le> length buff \<and> length buff \<le> 100 \<and> 0 \<in> set (drop 2 buff))"

text \<open>The file system's side: a release for every open, reading and writing in between; and whether
  no second open comes before the release.\<close>

fun balanced :: "nat \<Rightarrow> file_op list \<Rightarrow> bool" where
  "balanced d [] = (d = 0)"
| "balanced d (Open g # xs) = balanced (Suc d) xs"
| "balanced d (Release # xs) = (0 < d \<and> balanced (d - 1) xs)"
| "balanced d (x # xs) = (0 < d \<and> balanced d xs)"

fun exclusive :: "nat \<Rightarrow> file_op list \<Rightarrow> bool" where
  "exclusive d [] = True"
| "exclusive d (Open g # xs) = (d = 0 \<and> exclusive (Suc d) xs)"
| "exclusive d (Release # xs) = exclusive (d - 1) xs"
| "exclusive d (x # xs) = exclusive d xs"

definition live :: "cel_far \<Rightarrow> bool" where
  "live s \<longleftrightarrow> (\<exists>b. read_block s = Some b \<and> length b = 100) \<and> is_int (out_temp s)"

definition dangling :: "cel_far \<Rightarrow> bool" where
  "dangling s \<longleftrightarrow> (\<exists>k. mybuf s = Some k \<and> blocks s k = None) \<and> is_int (out_temp s)"

lemma live_open: "is_int (out_temp s) \<Longrightarrow> fits (Open g) \<Longrightarrow> live (open_dev g s)"
  by (auto simp: live_def open_dev_def read_block_def split: option.splits)

lemma live_release: "live s \<Longrightarrow> \<exists>s'. release_dev s = Some s' \<and> dangling s'"
  by (auto simp: live_def dangling_def release_dev_def read_block_def bind_eq_Some_conv)

lemma live_write_block: "live s \<Longrightarrow> length b = 100 \<Longrightarrow> live (write_block b s)"
  by (auto simp: live_def write_block_def read_block_def bind_eq_Some_conv)

lemma live_read:
  assumes "live s" "len \<le> 100"
  shows "\<exists>s' r. read_dev len fault s = Some (s', r) \<and> live s'"
proof -
  obtain b where b: "read_block s = Some b" "length b = 100" and i: "is_int (out_temp s)"
    using assms(1) by (auto simp: live_def)
  obtain b' where b': "strcpy b (sprintf_d (out_temp s)) = Some b'"
    using strcpy_defined [of "sprintf_d (out_temp s)" b] length_sprintf_d [OF i] b(2) by auto
  have "length b' = 100" using strcpy_length [OF b'] b(2) by simp
  then show ?thesis using b b' assms(2) live_write_block [OF assms(1)] by (simp add: read_dev_def peek_def)
qed

lemma atoi_loop_defined: "0 \<in> set s \<Longrightarrow> \<exists>v. atoi_loop acc s = Some v \<and> (is_int acc \<longrightarrow> is_int v)"
  by (induction acc s rule: atoi_loop.induct) (auto simp: is_int_to_int)

lemma cel_far_atoi_defined: "0 \<in> set s \<Longrightarrow> \<exists>v. cel_far_atoi s = Some v \<and> is_int v"
  using atoi_loop_defined [of s 0] atoi_loop_defined [of "tl s" 0]
  by (cases s) (auto simp: cel_far_atoi_def is_int_to_int is_int_def [of 0])

lemma is_int_sdiv9: "is_int i \<Longrightarrow> is_int (i sdiv 9)"
proof -
  assume i: "is_int i"
  have "\<bar>i sdiv 9\<bar> \<le> \<bar>i\<bar> div 9" by (auto simp: signed_divide_int_def sgn_if)
  also have "\<dots> \<le> 2 ^ 31 div 9" by (rule zdiv_mono1) (use i in \<open>auto simp: is_int_def\<close>)
  finally have "\<bar>i sdiv 9\<bar> < 2 ^ 31" by simp
  then show ?thesis unfolding is_int_def by linarith
qed

lemma is_int_converted: "is_int (C_to_F t)" "is_int (F_to_C t)"
  by (simp_all add: C_to_F_def F_to_C_def is_int_to_int is_int_sdiv9)

lemma live_write:
  assumes "live s" "fits (Write buff fault)"
  shows "\<exists>s' r. write_dev buff fault s = Some (s', r) \<and> live s'"
proof -
  obtain b where b: "read_block s = Some b" "length b = 100" and i: "is_int (out_temp s)"
    using assms(1) by (auto simp: live_def)
  show ?thesis
  proof (cases fault)
    case (Some n)
    have "\<exists>b'. poke 0 (take n buff @ replicate (length buff - n) 0) b = Some b' \<and> length b' = 100"
      using b(2) assms(2) by (cases "n \<le> length buff") (auto simp: poke_def)
    with Some b live_write_block [OF assms(1)] show ?thesis by (auto simp: write_dev_def)
  next
    case None
    let ?b = "wr 0 buff b"
    have p: "poke 0 buff b = Some ?b" "length ?b = 100" using b(2) assms(2) by (auto simp: poke_def)
    obtain c where c: "get8 0 ?b = Some c" using p(2) b(2) using get8_in [of 0 ?b] by simp
    have "drop 2 ?b = drop 2 buff @ drop (length buff) b" using assms(2) b(2) by (simp add: wr_def)
    then have "0 \<in> set (drop 2 ?b)" using assms(2) by simp
    then obtain t where t: "cel_far_atoi (drop 2 ?b) = Some t" using cel_far_atoi_defined by blast
    have "live (write_block ?b s\<lparr>in_temp := t, out_temp := v\<rparr>)" if "is_int v" for v
      using live_write_block [OF assms(1) p(2)] that by (simp add: live_def read_block_def)
    with None b p c t is_int_converted show ?thesis by (simp add: write_dev_def)
  qed
qed

lemma dangling_fails:
  "dangling s \<Longrightarrow> release_dev s = None" "dangling s \<Longrightarrow> read_dev len fault s = None" "dangling s \<Longrightarrow> write_dev buff f s = None"
  by (auto simp: dangling_def release_dev_def read_dev_def write_dev_def read_block_def)

lemma sessions:
  assumes "\<forall>x \<in> set xs. fits x" "balanced d xs"
  shows "(live s \<and> 0 < d \<longrightarrow> (cel_far_ops xs s \<noteq> None \<longleftrightarrow> d = 1 \<and> exclusive d xs)) \<and>
    (dangling s \<longrightarrow> (cel_far_ops xs s \<noteq> None \<longleftrightarrow> d = 0 \<and> exclusive d xs))"
  using assms
proof (induction xs arbitrary: d s)
  case (Cons x xs)
  have f: "fits x" "\<forall>x \<in> set xs. fits x" using Cons.prems by simp_all
  show ?case
  proof (cases x)
    case (Open g)
    have "live s \<or> dangling s \<Longrightarrow> live (open_dev g s)" using f(1) Open live_open by (auto simp: live_def dangling_def)
    with Cons.IH [OF f(2), of "Suc d" "open_dev g s"] Cons.prems(2) Open show ?thesis by auto
  next
    case Release
    with Cons.IH [OF f(2), of "d - 1"] Cons.prems(2) live_release [of s] dangling_fails(1) [of s] show ?thesis by fastforce
  next
    case (Read len fault)
    with Cons.IH [OF f(2), of d] Cons.prems(2) live_read [of s len fault] dangling_fails(2) [of s len fault] f(1)
    show ?thesis by fastforce
  next
    case (Write buff fault)
    with Cons.IH [OF f(2), of d] Cons.prems(2) live_write [of s buff fault] dangling_fails(3) [of s buff fault] f(1)
    show ?thesis by fastforce
  qed
qed auto

section \<open>Conversion and back\<close>

lemma sdiv_nonneg: "0 \<le> a \<Longrightarrow> 0 < b \<Longrightarrow> a sdiv b = a div (b :: int)"
  by (auto simp: signed_divide_int_def sgn_if)

lemma sdiv_neg: "a < 0 \<Longrightarrow> 0 < b \<Longrightarrow> a sdiv b = - ((- a) div (b :: int))"
  by (auto simp: signed_divide_int_def sgn_if)

lemma there_and_back: "0 \<le> t \<Longrightarrow> (9 * t div 5 * 5) div 9 = (if 5 dvd t then t else t - (1 :: int))"
proof -
  assume t: "0 \<le> t"
  define q where "q = 9 * t div 5"
  have q: "5 * q \<le> 9 * t" "9 * t < 5 * q + 5" by (simp_all add: q_def)
  show ?thesis
  proof (cases "5 dvd t")
    case True
    then have "9 * t div 5 * 5 = 9 * t" by (simp add: dvd_mult)
    with True show ?thesis by simp
  next
    case False
    define r where "r = 9 * t - 5 * q"
    have "r \<noteq> 0"
    proof
      assume "r = 0"
      then have "5 dvd 9 * t" by (simp add: r_def)
      with False show False by presburger
    qed
    with q have r: "0 \<le> 9 - r" "9 - r < 9" by (simp_all add: r_def)
    have "q * 5 div 9 = (9 - r + 9 * (t - 1)) div 9" by (simp add: r_def algebra_simps)
    also have "\<dots> = t - 1" using r by (simp add: div_add1_eq)
    finally have "q * 5 div 9 = t - 1" .
    with False show ?thesis by (simp add: q_def)
  qed
qed

lemma F_to_C_C_to_F:
  assumes "is_int (9 * t)"
  shows "F_to_C (C_to_F t) = (if 5 dvd t then t else t - sgn t)"
proof -
  define q where "q = (9 * t) sdiv 5"
  have 9: "- (2 ^ 31) \<le> 9 * t" "9 * t < 2 ^ 31" using assms by (simp_all add: is_int_def)
  have q: "\<bar>q\<bar> = \<bar>9 * t\<bar> div 5" by (auto simp: q_def signed_divide_int_def sgn_if abs_if)
  then have q9: "5 * \<bar>q\<bar> \<le> \<bar>9 * t\<bar>" by simp
  have "9 * t \<noteq> - (2 ^ 31)" by simp presburger
  then have "\<bar>9 * t\<bar> < 2 ^ 31" using 9 by linarith
  then have i: "is_int (q + 32)" "is_int (q * 5)" using q9 by (auto simp: is_int_def)
  have c: "C_to_F t = q + 32" using to_int_id [OF assms] to_int_id [OF i(1)] by (simp add: C_to_F_def q_def mult.commute)
  have "to_int (to_int q * 5) = to_int (q * 5)" by (simp add: to_int_def)
  then have f: "F_to_C (C_to_F t) = (q * 5) sdiv 9" using to_int_id [OF i(2)] by (simp add: F_to_C_def c to_int_def)
  show ?thesis
  proof (cases "0 \<le> t")
    case True
    then have "0 \<le> 9 * t div 5 * 5" by simp
    with True f there_and_back [OF True] show ?thesis by (auto simp: q_def sdiv_nonneg sgn_if)
  next
    case False
    then have n: "0 \<le> - t" by simp
    have qn: "q = - (9 * (- t) div 5)" using False by (simp add: q_def sdiv_neg)
    show ?thesis
    proof (cases "q = 0")
      case True
      with qn there_and_back [OF n] f False show ?thesis by (auto simp: sgn_if split: if_splits)
    next
      case nz: False
      have "q * 5 < 0" using qn nz False by (simp add: not_le)
      then have "F_to_C (C_to_F t) = - ((9 * (- t) div 5 * 5) div 9)"
        using f sdiv_neg [of "q * 5" 9] by (simp add: qn)
      with there_and_back [OF n] False show ?thesis by (simp add: sgn_if)
    qed
  qed
qed

section \<open>The user program on the driver\<close>

lemma strcpy_front: "length s < length d \<Longrightarrow> \<exists>rest. strcpy d s = Some (s @ 0 # rest) \<and> length (s @ 0 # rest) = length d"
  by (auto simp: strcpy_def poke_def wr_def)

lemma poke_whole: "length a = length b \<Longrightarrow> poke 0 a b = Some a"
  by (simp add: poke_def wr_def)

definition converted :: "int \<Rightarrow> int \<Rightarrow> int" where
  "converted choice temp = (if choice = 1 then C_to_F temp else F_to_C temp)"

lemma driver_converts:
  assumes "live s" "choice \<in> {1, 2}" "is_int temp" "length (sprintf_d choice @ 95 # sprintf_d temp @ 0 # rest) = 100"
  shows "\<exists>s' s'' rest'. write_dev (sprintf_d choice @ 95 # sprintf_d temp @ 0 # rest) None s = Some (s', 100) \<and>
    read_dev 100 False s' = Some (s'', 1, sprintf_d (converted choice temp) @ 0 # rest') \<and>
    length (sprintf_d (converted choice temp) @ 0 # rest') = 100 \<and> live s''"
proof -
  obtain k blk where k: "mybuf s = Some k" "blocks s k = Some blk" "length blk = 100"
    using assms(1) by (auto simp: live_def read_block_def bind_eq_Some_conv)
  define d where "d = digit (nat choice)"
  have c: "sprintf_d choice = [d]" using assms(2) by (auto simp: sprintf_d_def dec.simps d_def)
  have cv: "sint d - 48 = choice"
    using assms(2) sint_digit [of d] by (auto simp: d_def)
  define b where "b = d # 95 # sprintf_d temp @ 0 # rest"
  have b: "length b = 100" "get8 0 b = Some d" "drop 2 b = sprintf_d temp @ 0 # rest"
    using assms(4) by (simp_all add: b_def c get8_def)
  note p = poke_whole [of b blk, unfolded b(1) k(3), OF refl]
  define s' where "s' = write_block b s\<lparr>in_temp := temp, out_temp := converted choice temp\<rparr>"
  have w: "write_dev b None s = Some (s', 100)"
    using k p b cv cel_far_atoi_text [OF assms(3)] by (simp add: write_dev_def read_block_def s'_def converted_def)
  have i: "is_int (converted choice temp)" by (simp add: converted_def is_int_converted)
  obtain rest' where r: "strcpy b (sprintf_d (converted choice temp)) = Some (sprintf_d (converted choice temp) @ 0 # rest')"
      "length (sprintf_d (converted choice temp) @ 0 # rest') = 100"
    using strcpy_front [of "sprintf_d (converted choice temp)" b] length_sprintf_d [OF i] b(1) by auto
  have live': "live s'" using live_write_block [OF assms(1) b(1)] i by (simp add: live_def s'_def read_block_def)
  have "read_block s' = Some b" using k by (simp add: s'_def write_block_def read_block_def)
  moreover have "out_temp s' = converted choice temp" by (simp add: s'_def)
  ultimately have "read_dev 100 False s' = Some (write_block (sprintf_d (converted choice temp) @ 0 # rest') s', 1,
      sprintf_d (converted choice temp) @ 0 # rest')"
    using r by (simp add: read_dev_def peek_def)
  moreover have "live (write_block (sprintf_d (converted choice temp) @ 0 # rest') s')" using live_write_block [OF live' r(2)] .
  ultimately show ?thesis using w r(2) by (auto simp: b_def c)
qed

section \<open>The other drivers\<close>

lemma reverse_loop_nth:
  "0 \<le> i \<Longrightarrow> j < int (length str) \<Longrightarrow> j - i < int n \<Longrightarrow> k < length str \<Longrightarrow>
   reverse_loop n i j str ! k = (if i \<le> int k \<and> int k \<le> j then str ! nat (i + j - int k) else str ! k)"
proof (induction n arbitrary: i j str)
  case (Suc n)
  show ?case
  proof (cases "i < j")
    case True
    let ?s = "str[nat i := str ! nat j, nat j := str ! nat i]"
    have "reverse_loop n (i + 1) (j - 1) ?s ! k =
        (if i + 1 \<le> int k \<and> int k \<le> j - 1 then ?s ! nat (i + 1 + (j - 1) - int k) else ?s ! k)"
      using Suc.prems True by (intro Suc.IH) auto
    also have "\<dots> = (if i \<le> int k \<and> int k \<le> j then str ! nat (i + j - int k) else str ! k)"
    proof -
      have l: "nat i < length str" "nat j < length str" "nat i \<noteq> nat j" using Suc.prems True by linarith+
      have s: "?s ! m = (if m = nat j then str ! nat i else if m = nat i then str ! nat j else str ! m)" if "m < length str" for m
        using l that by (simp add: nth_list_update)
      consider "int k = i" | "int k = j" | "i < int k" "int k < j" | "int k < i \<or> j < int k" by linarith
      then show ?thesis
      proof cases
        case 3
        define m where "m = nat (i + j - int k)"
        have "m < length str" "m \<noteq> nat i" "m \<noteq> nat j" using 3 Suc.prems by (simp_all add: m_def nat_less_iff eq_nat_nat_iff)
        then have "?s ! m = str ! m" by (simp add: s)
        moreover have "i + 1 + (j - 1) - int k = i + j - int k" by simp
        ultimately show ?thesis using 3 by (simp add: m_def)
      next
        case 4
        then have "k \<noteq> nat i" "k \<noteq> nat j" using Suc.prems(1) True by linarith+
        with 4 s [OF Suc.prems(4)] show ?thesis by auto
      qed (use s [OF Suc.prems(4)] l True Suc.prems(1) in auto)
    qed
    finally show ?thesis using True by simp
  next
    case False
    with Suc.prems(1) have "i \<le> int k \<and> int k \<le> j \<Longrightarrow> nat (i + j - int k) = k" by auto
    with False show ?thesis by auto
  qed
qed auto

lemma length_reverse_loop [simp]: "length (reverse_loop n i j str) = length str"
  by (induction n arbitrary: i j str) auto

lemma reverse_rev: "len \<le> length str \<Longrightarrow> reverse str len = Some (rev (take len str) @ drop len str)"
proof -
  assume len: "len \<le> length str"
  have "reverse_loop len 0 (int len - 1) str = rev (take len str) @ drop len str"
  proof (rule nth_equalityI)
    fix k
    assume "k < length (reverse_loop len 0 (int len - 1) str)"
    then have k: "k < length str" by simp
    have r: "reverse_loop len 0 (int len - 1) str ! k =
        (if 0 \<le> int k \<and> int k \<le> int len - 1 then str ! nat (0 + (int len - 1) - int k) else str ! k)"
      by (rule reverse_loop_nth) (use len k in simp_all)
    have "nat (int len - 1 - int k) = len - Suc k" if "k < len" using that by linarith
    then show "reverse_loop len 0 (int len - 1) str ! k = (rev (take len str) @ drop len str) ! k"
      using len k by (simp add: r nth_append rev_nth min_def)
  qed (use len in simp)
  with len show ?thesis by (simp add: reverse_def)
qed

text \<open>read_write.c returns what was written, and ticktock.c the time that was set, each time leaving
  a block behind.\<close>

lemma rw_roundtrip:
  assumes "rw_write buff None b = Some (b', r)"
  shows "rw_read (length buff) False b' = Some (8, buff)"
  using assms by (auto simp: rw_write_def rw_read_def poke_def wr_def peek_def split: if_splits)

lemma ticktock_roundtrip:
  assumes "is_int i" "0 \<le> i" "length g = 30" "length g' = 40"
  shows "\<exists>s' s''. writetime g (sprintf_d i @ [0]) s = Some (s', int (length (sprintf_d i @ [0]))) \<and>
    readtime g' len s' = Some (s'', int len, sprintf_d i) \<and> leaked s'' = leaked s + 2"
proof -
  have l: "length (sprintf_d i) \<le> 11" by (rule length_sprintf_d [OF assms(1)])
  have "poke 0 (sprintf_d i @ [0]) g = Some (dec (nat i) @ 0 # drop (Suc (length (sprintf_d i))) g)"
    using assms(2,3) l by (simp add: poke_def wr_def sprintf_d_def)
  moreover obtain b where "strcpy g' (sprintf_d i) = Some b"
    using strcpy_defined [of "sprintf_d i" g'] l assms(4) by auto
  moreover from this have "c_str b = Some (sprintf_d i)" by (rule c_str_strcpy) simp
  ultimately show ?thesis
    using assms(1,2) atoi_loop_dec [of "nat i"] to_int_id [OF assms(1)] by (simp add: writetime_def readtime_def)
qed

section \<open>Properties\<close>

text \<open>
  C27. One block behind one pointer: sessions with the driver (a release for every open, requests
  that fit) go well exactly when no process opens the device while another has it open; otherwise
  a block is freed twice or used after it was freed.
\<close>

theorem cel_far_sessions_iff:
  assumes "start_func major = (0, Some s)" "\<forall>x \<in> set xs. fits x" "balanced 0 xs"
  shows "cel_far_ops xs s \<noteq> None \<longleftrightarrow> exclusive 0 xs"
proof (cases xs)
  case (Cons x ys)
  then obtain g where x: "x = Open g" using assms(3) by (cases x) auto
  have "out_temp s = 0" using assms(1) by (auto simp: start_func_def split: if_splits)
  then have "live (open_dev g s)" using assms(2) Cons x by (intro live_open) (auto simp: is_int_def)
  with sessions [of ys 1 "open_dev g s"] assms(2,3) Cons x show ?thesis by simp
qed simp

text \<open>
  C28. The program with the driver: for choice 1 or 2 and any \<open>int\<close> the text written is understood
  by the driver, and the number that comes back and is printed is the converted one.
\<close>

theorem user_sees_conversion:
  assumes "live s" "choice \<in> {1, 2}" "is_int temp" "length buf = 100"
  shows "\<exists>b out s' s''. write_dev b None s = Some (s', 100) \<and> read_dev 100 False s' = Some (s'', 1, out) \<and> live s'' \<and>
    (\<forall>r0 r1 rc rt rw rr rp. num rc = choice \<and> num rt = temp \<and> data rr = out \<longrightarrow>
      execs (user_round fd buf)
       [(Print ''1. Celsis to Farenheit;2. Farenheit to Celsius;'' [], r0),
        (Print ''Enter your choice, and value of temperature: '' [], r1), (ScanInt, rc), (ScanInt, rt),
        (WriteFd fd b, rw), (ReadFd fd 100, rr),
        (Print (if choice = 1 then ''%d in Farenheit is %d F'' else ''%d in Celsius is %d C'')
          [D temp, D (if choice = 1 then C_to_F temp else F_to_C temp)], rp)] (Done ()))"
proof -
  let ?text = "sprintf_d choice @ 95 # sprintf_d temp"
  have "length (sprintf_d choice) = 1" using assms(2) by (auto simp: sprintf_d_def dec.simps)
  then have "length ?text < length buf" using length_sprintf_d [OF assms(3)] assms(4) by simp
  then obtain rest where b: "strcpy buf ?text = Some (?text @ 0 # rest)" "length (?text @ 0 # rest) = 100"
    using strcpy_front [of ?text buf] assms(4) by auto
  obtain s' s'' rest' where d: "write_dev (?text @ 0 # rest) None s = Some (s', 100)"
      "read_dev 100 False s' = Some (s'', 1, sprintf_d (converted choice temp) @ 0 # rest')"
      "length (sprintf_d (converted choice temp) @ 0 # rest') = 100" "live s''"
    using driver_converts [OF assms(1-3), of rest] b(2) by auto
  let ?out = "sprintf_d (converted choice temp) @ 0 # rest'"
  have p: "poke 0 ?out (replicate 100 0) = Some ?out" by (rule poke_whole) (simp only: d(3) length_replicate)
  have a: "atoi (sprintf_d (converted choice temp)) = converted choice temp"
    using atoi_sprintf_d [of "converted choice temp" "[]"] by (simp add: ends_number_def converted_def is_int_converted)
  have u: "strcpy buf (sprintf_d choice @ bytes_of ''_'' @ sprintf_d temp) = Some (?text @ 0 # rest)"
    using b(1) by (simp add: bytes_of_def)
  show ?thesis
  proof (rule exI [of _ "?text @ 0 # rest"], rule exI [of _ ?out], rule exI [of _ s'], rule exI [of _ s''], intro conjI allI impI)
    fix r0 r1 rc rt rw rr rp :: resp
    assume "num rc = choice \<and> num rt = temp \<and> data rr = ?out"
    then show "execs (user_round fd buf)
       [(Print ''1. Celsis to Farenheit;2. Farenheit to Celsius;'' [], r0),
        (Print ''Enter your choice, and value of temperature: '' [], r1), (ScanInt, rc), (ScanInt, rt),
        (WriteFd fd (?text @ 0 # rest), rw), (ReadFd fd 100, rr),
        (Print (if choice = 1 then ''%d in Farenheit is %d F'' else ''%d in Celsius is %d C'')
          [D temp, D (if choice = 1 then C_to_F temp else F_to_C temp)], rp)] (Done ())"
      using assms(2) p a by (auto simp: user_round_def execs_Call Let_def u c_str_append converted_def)
  qed (use d in auto)
qed

text \<open>
  From Celsius to Fahrenheit and back loses a degree, towards zero, unless the temperature is
  a multiple of five.
\<close>

theorem celsius_there_and_back:
  assumes "is_int (9 * t)"
  shows "F_to_C (C_to_F t) = (if 5 dvd t then t else t - sgn t)"
  by (rule F_to_C_C_to_F [OF assms])

section \<open>Witnesses\<close>

text \<open>Two processes that have the device open at once.\<close>

theorem cel_far_sessions_iff_witness:
  "\<exists>s. start_func 240 = (0, Some s) \<and>
     cel_far_ops [Open (Some (replicate 100 0)), Release] s \<noteq> None \<and>
     cel_far_ops [Open (Some (replicate 100 0)), Open (Some (replicate 100 0)), Release, Release] s = None"
proof -
  obtain s where s: "start_func 240 = (0, Some s)" by (simp add: start_func_def)
  have f: "fits (Open (Some (replicate 100 0)))" by simp
  then have "cel_far_ops [Open (Some (replicate 100 0)), Release] s \<noteq> None \<longleftrightarrow>
      exclusive 0 [Open (Some (replicate 100 0)), Release]"
    by (intro cel_far_sessions_iff [OF s]) simp_all
  moreover from f have "cel_far_ops [Open (Some (replicate 100 0)), Open (Some (replicate 100 0)), Release, Release] s \<noteq> None \<longleftrightarrow>
      exclusive 0 [Open (Some (replicate 100 0)), Open (Some (replicate 100 0)), Release, Release]"
    by (intro cel_far_sessions_iff [OF s]) simp_all
  ultimately show ?thesis using s by (intro exI [of _ s]) simp
qed

theorem user_sees_conversion_witness:
  "\<exists>b out s s' s''. write_dev b None s = Some (s', 100) \<and> read_dev 100 False s' = Some (s'', 1, out) \<and> C_to_F 25 = 77 \<and>
     execs (user_round 3 (replicate 100 0))
       [(Print ''1. Celsis to Farenheit;2. Farenheit to Celsius;'' [], answered),
        (Print ''Enter your choice, and value of temperature: '' [], answered), (ScanInt, answered\<lparr>num := 1\<rparr>),
        (ScanInt, answered\<lparr>num := 25\<rparr>), (WriteFd 3 b, answered), (ReadFd 3 100, answered\<lparr>data := out\<rparr>),
        (Print ''%d in Farenheit is %d F'' [D 25, D 77], answered)] (Done ())"
proof -
  define s where "s = open_dev (Some (replicate 100 0)) \<lparr>blocks = (\<lambda>_. None), fresh = 0, mybuf = None, in_temp = 0, out_temp = 0\<rparr>"
  have l: "live s" by (simp add: s_def live_def open_dev_def read_block_def is_int_def)
  have c: "C_to_F 25 = 77" by (simp add: C_to_F_def to_int_def signed_divide_int_def)
  have h: "(1 :: int) \<in> {1, 2}" "is_int 25" "length (replicate 100 (0 :: u8)) = 100" by (simp_all add: is_int_def)
  obtain b out s' s'' where "write_dev b None s = Some (s', 100)" "read_dev 100 False s' = Some (s'', 1, out)"
      "execs (user_round 3 (replicate 100 0))
       [(Print ''1. Celsis to Farenheit;2. Farenheit to Celsius;'' [], answered),
        (Print ''Enter your choice, and value of temperature: '' [], answered), (ScanInt, answered\<lparr>num := 1\<rparr>),
        (ScanInt, answered\<lparr>num := 25\<rparr>), (WriteFd 3 b, answered), (ReadFd 3 100, answered\<lparr>data := out\<rparr>),
        (Print (if (1 :: int) = 1 then ''%d in Farenheit is %d F'' else ''%d in Celsius is %d C'')
          [D 25, D (if (1 :: int) = 1 then C_to_F 25 else F_to_C 25)], answered)] (Done ())"
    using user_sees_conversion [OF l h, of 3] by fastforce
  with c show ?thesis by (intro exI conjI) simp_all
qed

theorem celsius_there_and_back_witness:
  "F_to_C (C_to_F 25) = 25 \<and> F_to_C (C_to_F 37) = 36"
  using celsius_there_and_back [of 25] celsius_there_and_back [of 37] by (simp add: is_int_def)

end
