(* ===== verification/Cricket.thy ===== *)
theory Cricket
  imports SocketHelpers
begin

text \<open>
  The cricket match of 15-3-22_RAW/cricket: the bowler (bowl.c) writes a ball into a file and
  passes its descriptor to the batsman (bat.c), who hits or misses, broadcasts the score over a raw
  socket and passes the ball to the umpire (umpire.c), who counts and returns it to the bowler.
  Fielders (fielder.c) hear the score as well, and the closest one says that it caught the ball.
\<close>

text \<open>A number broadcast over a raw socket, received over zeros: the text behind the IP header.\<close>

definition raw_number :: "bytes \<Rightarrow> int option" where
  "raw_number d = Option.bind (poke 0 d (replicate 100 0)) (\<lambda>buf.
     Option.bind (get8 0 buf) (\<lambda>vhl. atoi_array (drop (unat vhl mod 16 * 4) buf)))"

definition catchable :: "int \<Rightarrow> bool" where
  "catchable score \<longleftrightarrow> score mod 6 \<noteq> 0 \<and> score mod 4 \<noteq> 0"

section \<open>The fielders\<close>

definition fielders :: "int list" where "fielders = [10, 20, 30, 40]"

text \<open>\<open>abs(a - b)\<close> on \<open>int\<close>.\<close>

definition dist :: "int \<Rightarrow> int \<Rightarrow> int option" where
  "dist a b = (if is_int (a - b) \<and> a - b \<noteq> - (2 ^ 31) then Some \<bar>a - b\<bar> else None)"

fun closest_loop :: "int \<Rightarrow> nat list \<Rightarrow> nat option \<Rightarrow> nat option option" where
  "closest_loop score [] closest = Some closest"
| "closest_loop score (i # is) closest =
     (case closest of None \<Rightarrow> closest_loop score is (Some i)
      | Some c \<Rightarrow> Option.bind (dist score (fielders ! i)) (\<lambda>d. Option.bind (dist score (fielders ! c)) (\<lambda>e.
          closest_loop score is (if d < e then Some i else closest))))"

definition findClosestFielder :: "int \<Rightarrow> int option" where
  "findClosestFielder score = map_option (\<lambda>c. case c of None \<Rightarrow> -1 | Some i \<Rightarrow> int i) (closest_loop score [0..<4] None)"

text \<open>One round of the loop; \<open>port\<close> is uninitialised.\<close>

definition fielder_round :: "int \<Rightarrow> int \<Rightarrow> u16 \<Rightarrow> int \<Rightarrow> unit sys" where
  "fielder_round rsfd1 rsfd2 port my_id =
     Call (Recvfrom rsfd1 100) (\<lambda>r.
     if res r < 0 then handle_error
     else need (raw_number (data r)) (\<lambda>score.
     Call (Print ''score = %d'' [D score]) (\<lambda>_.
     if catchable score then
       need (findClosestFielder score) (\<lambda>closest.
       if my_id = closest then
         Call (Print ''I caught the ball, hurray!'' []) (\<lambda>_.
         need (strcpy (replicate 100 0) (bytes_of ''Fielder '' @ sprintf_d my_id @ bytes_of '' caught the ball'')) (\<lambda>msg.
         Call (Sendto rsfd2 msg (AddrIn port localhost)) (\<lambda>_. Ret ())))
       else need (if 0 \<le> closest \<and> closest < 4 then Some (fielders ! nat closest) else None) (\<lambda>f.
         Call (Print ''%d caught the ball'' [D f]) (\<lambda>_. Ret ())))
     else Ret ())))"

primrec fielder_loop :: "nat \<Rightarrow> int \<Rightarrow> int \<Rightarrow> u16 \<Rightarrow> int \<Rightarrow> unit option sys" where
  "fielder_loop 0 rsfd1 rsfd2 port my_id = Ret None"
| "fielder_loop (Suc n) rsfd1 rsfd2 port my_id =
     bind (fielder_round rsfd1 rsfd2 port my_id) (\<lambda>_. fielder_loop n rsfd1 rsfd2 port my_id)"

definition main_fielder :: "nat \<Rightarrow> u16 \<Rightarrow> bytes list \<Rightarrow> unit option sys" where
  "main_fielder n port argv =
     need (if length argv < 2 then Some 0 else atoi_array (argv ! 1 @ [0])) (\<lambda>my_id.
     Call (Socket AF_INET SOCK_RAW 2) (\<lambda>r. let rsfd1 = res r in
     if rsfd1 < 0 then handle_error
     else Call (Socket AF_INET SOCK_RAW 3) (\<lambda>r. let rsfd2 = res r in
     if rsfd2 < 0 then handle_error
     else fielder_loop n rsfd1 rsfd2 port my_id)))"

section \<open>The umpire\<close>

record match =
  batsman_score :: "int list"
  current_batsman :: int
  total_score :: int

text \<open>\<open>buf\<close> is the uninitialised byte of \<open>recv_fd\<close>: the ball goes from batsman to bowler.\<close>

definition return_ball :: "u8 \<Rightarrow> int \<Rightarrow> int \<Rightarrow> 'a \<Rightarrow> 'a sys" where
  "return_ball buf bunsfd bowl_usfd m =
     bind (recv_fd buf bunsfd) (\<lambda>fd.
     bind (send_fd bowl_usfd fd) (\<lambda>_.
     Call (CloseFd fd) (\<lambda>_. Ret m)))"

definition batsman_out :: "match \<Rightarrow> match sys" where
  "batsman_out m = (let m = m\<lparr>current_batsman := current_batsman m + 1\<rparr> in
     Call (Print ''The batsman %d is out'' [D (current_batsman m)]) (\<lambda>_. Ret m))"

definition add_score :: "int \<Rightarrow> match \<Rightarrow> match option" where
  "add_score score m =
     (if 0 \<le> current_batsman m \<and> current_batsman m < int (length (batsman_score m)) \<and> is_int (total_score m + score)
      then Some (m\<lparr>total_score := total_score m + score,
        batsman_score := (batsman_score m)[nat (current_batsman m) := batsman_score m ! nat (current_batsman m) + score]\<rparr>)
      else None)"

definition count_hit :: "int \<Rightarrow> match \<Rightarrow> match sys" where
  "count_hit score m =
     Call (Print ''Number  = %d, '' [D score]) (\<lambda>_.
     let score = (if score mod 6 = 0 then 6 else if score mod 4 = 0 then 4 else score) in
     Call (Print ''The hit is %d'' [D score]) (\<lambda>_.
     need (add_score score m) (\<lambda>m.
     Call (Print ''batsman %d score: %d'' [D (current_batsman m + 1), D (batsman_score m ! nat (current_batsman m))]) (\<lambda>_.
     Call (Print ''total score: %d'' [D (total_score m)]) (\<lambda>_. Ret m)))))"

text \<open>\<open>EAGAIN\<close> is 11; \<open>num\<close> of the response is \<open>errno\<close>.\<close>

definition umpire_round :: "u8 \<Rightarrow> int \<Rightarrow> int \<Rightarrow> int \<Rightarrow> int \<Rightarrow> match \<Rightarrow> match sys" where
  "umpire_round buf rsfd1 rsfd2 bunsfd bowl_usfd m =
     Call Pause (\<lambda>_.
     Call (Print ''Bowler has bowled the ball'' []) (\<lambda>_.
     Call (SigBlock SIGUSR2) (\<lambda>_.
     Call (SigTimedWait SIGUSR2 3) (\<lambda>r.
     if res r \<noteq> SIGUSR2 then
       bind (if num r = 11 then Call (Print ''Batsman has missed the ball'' []) (\<lambda>_. batsman_out m) else Ret m) (\<lambda>m.
       return_ball buf bunsfd bowl_usfd m)
     else Call (Print ''Batsman has hit the ball'' []) (\<lambda>_.
       Call (Recvfrom rsfd1 100) (\<lambda>r.
       if res r < 0 then handle_error
       else need (raw_number (data r)) (\<lambda>score.
       bind (if catchable score then
           Call (Recvfrom rsfd2 100) (\<lambda>r.
           if res r < 0 then handle_error
           else need (poke 0 (data r) (replicate 100 0)) (\<lambda>caught.
           need (get8 0 caught) (\<lambda>vhl.
           need (c_str (drop (unat vhl mod 16 * 4) caught)) (\<lambda>text.
           Call (Print ''%s'' [S text]) (\<lambda>_. batsman_out m)))))
         else count_hit score m) (\<lambda>m.
       return_ball buf bunsfd bowl_usfd m))))))))"

primrec umpire_loop :: "nat \<Rightarrow> u8 \<Rightarrow> int \<Rightarrow> int \<Rightarrow> int \<Rightarrow> int \<Rightarrow> match \<Rightarrow> match sys" where
  "umpire_loop 0 buf rsfd1 rsfd2 bunsfd bowl_usfd m = Ret m"
| "umpire_loop (Suc n) buf rsfd1 rsfd2 bunsfd bowl_usfd m =
     bind (umpire_round buf rsfd1 rsfd2 bunsfd bowl_usfd m) (umpire_loop n buf rsfd1 rsfd2 bunsfd bowl_usfd)"

text \<open>\<open>n\<close> bounds the balls; the result is the state after them.\<close>

definition main_umpire :: "nat \<Rightarrow> u8 \<Rightarrow> match sys" where
  "main_umpire n buf =
     Call (Signal SIGUSR1) (\<lambda>_.
     Call (Signal SIGUSR2) (\<lambda>_.
     Call (Socket AF_INET SOCK_RAW 2) (\<lambda>r. let rsfd1 = res r in
     if rsfd1 < 0 then handle_error
     else Call (Socket AF_INET SOCK_RAW 3) (\<lambda>r. let rsfd2 = res r in
     if rsfd2 < 0 then handle_error
     else bind (cli_uds_conn (bytes_of ''ump_bowl'')) (\<lambda>bowl_usfd.
     bind (serv_uds_listen (bytes_of ''bat_ump'')) (\<lambda>busfd.
     Call (Accept busfd) (\<lambda>r. let bunsfd = res r in
     Call (Print ''Batsman is accepted %d'' [D bunsfd]) (\<lambda>_.
     Call (Print ''value of bowl_usfd is: %d'' [D bowl_usfd]) (\<lambda>_.
     Call (Print ''value of busfd is: %d'' [D busfd]) (\<lambda>_.
     Call (Print ''value of bunsfd is: %d'' [D bunsfd]) (\<lambda>_.
     umpire_loop n buf rsfd1 rsfd2 bunsfd bowl_usfd
       \<lparr>batsman_score = replicate 20 0, current_batsman = 0, total_score = 0\<rparr>)))))))))))"

section \<open>The batsman and the bowler\<close>

text \<open>\<open>g\<close> is what the uninitialised \<open>speed\<close>, \<open>spin\<close> and \<open>c_score\<close> hold, \<open>s\<close> the array of \<open>pidof\<close>.\<close>

definition read_number :: "int \<Rightarrow> bytes \<Rightarrow> (int \<Rightarrow> 'a sys) \<Rightarrow> 'a sys" where
  "read_number fd g f = Call (ReadFd fd 4) (\<lambda>r.
     need (poke 0 (data r) g) (\<lambda>b. need (get32 0 b) (\<lambda>v. f (sint v))))"

definition bat_round :: "u8 \<Rightarrow> bytes \<Rightarrow> bytes \<Rightarrow> bytes \<Rightarrow> u16 \<Rightarrow> int \<Rightarrow> int \<Rightarrow> int \<Rightarrow> int \<Rightarrow> int sys" where
  "bat_round buf g c s port rsfd bowl_usfd ump_usfd umpire_pid =
     bind (recv_fd buf bowl_usfd) (\<lambda>fd.
     read_number fd g (\<lambda>speed.
     read_number fd g (\<lambda>spin.
     Call (Print ''speed = %d, spin = %d'' [D speed, D spin]) (\<lambda>_.
     need (if is_int (speed + spin) then Some (speed + spin) else None) (\<lambda>sum.
     bind (if sum mod 4 = 0 then Call (Print ''missed the ball!!'' []) (\<lambda>_. Ret umpire_pid)
       else bind (if umpire_pid = -1 then pidof s (bytes_of ''./umpire.exe'') else Ret umpire_pid) (\<lambda>umpire_pid.
         Call (Kill umpire_pid SIGUSR2) (\<lambda>_.
         Call Rand (\<lambda>r. let score = num r mod 41 in
         Call (Print ''generated score = %d'' [D score]) (\<lambda>_.
         need (strcpy c (sprintf_d score)) (\<lambda>c_score.
         Call (Sendto rsfd c_score (AddrIn port localhost)) (\<lambda>_. Ret umpire_pid))))))) (\<lambda>umpire_pid.
     bind (send_fd ump_usfd fd) (\<lambda>_.
     Call (CloseFd fd) (\<lambda>_. Ret umpire_pid))))))))"

primrec bat_loop :: "nat \<Rightarrow> u8 \<Rightarrow> bytes \<Rightarrow> bytes \<Rightarrow> bytes \<Rightarrow> u16 \<Rightarrow> int \<Rightarrow> int \<Rightarrow> int \<Rightarrow> int \<Rightarrow> unit option sys" where
  "bat_loop 0 buf g c s port rsfd bowl_usfd ump_usfd umpire_pid = Ret None"
| "bat_loop (Suc n) buf g c s port rsfd bowl_usfd ump_usfd umpire_pid =
     bind (bat_round buf g c s port rsfd bowl_usfd ump_usfd umpire_pid) (bat_loop n buf g c s port rsfd bowl_usfd ump_usfd)"

definition main_bat :: "nat \<Rightarrow> u8 \<Rightarrow> bytes \<Rightarrow> bytes \<Rightarrow> bytes \<Rightarrow> u16 \<Rightarrow> unit option sys" where
  "main_bat n buf g c s port =
     Call (Socket AF_INET SOCK_RAW 2) (\<lambda>r. let rsfd = res r in
     if rsfd < 0 then handle_error
     else bind (cli_uds_conn (bytes_of ''bat_bowl'')) (\<lambda>bowl_usfd.
     bind (cli_uds_conn (bytes_of ''bat_ump'')) (\<lambda>ump_usfd.
     Call (Print ''value of bowl_usfd is: %d'' [D bowl_usfd]) (\<lambda>_.
     Call (Print ''value of ump_usfd is: %d'' [D ump_usfd]) (\<lambda>_.
     bat_loop n buf g c s port rsfd bowl_usfd ump_usfd (-1))))))"

text \<open>The bowler: the ball's two numbers go to the end of the file, and the offset, which the
  batsman's descriptor shares, goes back to where they start.\<close>

definition bowl_round :: "u8 \<Rightarrow> bytes \<Rightarrow> int \<Rightarrow> int \<Rightarrow> int \<Rightarrow> int \<Rightarrow> (int \<times> int) sys" where
  "bowl_round buf s uunsfd bunsfd fd umpire_pid =
     Call (Sleep 5) (\<lambda>_.
     Call Rand (\<lambda>r. let speed = num r mod 10 + 1 in
     Call Rand (\<lambda>r. let spin = num r mod 20 + 1 in
     Call (Lseek fd 0 1) (\<lambda>r. let pointer = res r in
     Call (WriteFd fd (le32 (word_of_int speed))) (\<lambda>_.
     Call (WriteFd fd (le32 (word_of_int spin))) (\<lambda>_.
     Call (Print ''speed = %d, spin = %d'' [D speed, D spin]) (\<lambda>_.
     Call (Lseek fd pointer 0) (\<lambda>_.
     bind (send_fd bunsfd fd) (\<lambda>_.
     bind (if umpire_pid = -1 then pidof s (bytes_of ''./umpire.exe'') else Ret umpire_pid) (\<lambda>umpire_pid.
     Call (Kill umpire_pid SIGUSR1) (\<lambda>_.
     bind (recv_fd buf uunsfd) (\<lambda>fd. Ret (fd, umpire_pid)))))))))))))"

primrec bowl_loop :: "nat \<Rightarrow> u8 \<Rightarrow> bytes \<Rightarrow> int \<Rightarrow> int \<Rightarrow> int \<Rightarrow> int \<Rightarrow> unit option sys" where
  "bowl_loop 0 buf s uunsfd bunsfd fd umpire_pid = Ret None"
| "bowl_loop (Suc n) buf s uunsfd bunsfd fd umpire_pid =
     bind (bowl_round buf s uunsfd bunsfd fd umpire_pid) (\<lambda>(fd, umpire_pid). bowl_loop n buf s uunsfd bunsfd fd umpire_pid)"

definition main_bowl :: "nat \<Rightarrow> u8 \<Rightarrow> bytes \<Rightarrow> unit option sys" where
  "main_bowl n buf s =
     bind (serv_uds_listen (bytes_of ''ump_bowl'')) (\<lambda>uusfd.
     Call (Accept uusfd) (\<lambda>r. let uunsfd = res r in
     Call (Print ''umpire is accepted. %d'' [D uunsfd]) (\<lambda>_.
     bind (serv_uds_listen (bytes_of ''bat_bowl'')) (\<lambda>busfd.
     Call (Accept busfd) (\<lambda>r. let bunsfd = res r in
     Call (Print ''batsman is accepted. %d'' [D bunsfd]) (\<lambda>_.
     Call (Print ''value of uusfd is: %d'' [D uusfd]) (\<lambda>_.
     Call (Print ''value of uunsfd is: %d'' [D uunsfd]) (\<lambda>_.
     Call (Print ''value of busfd is: %d'' [D busfd]) (\<lambda>_.
     Call (Print ''value of bunsfd is: %d'' [D bunsfd]) (\<lambda>_.
     Call (OpenFile ''ball.txt'') (\<lambda>r. let fd = res r in
     if fd < 0 then handle_error
     else bowl_loop n buf s uunsfd bunsfd fd (-1))))))))))))"

section \<open>The closest fielder\<close>

lemma dist_defined: "- (2 ^ 31) + 40 < score \<Longrightarrow> is_int score \<Longrightarrow> 10 \<le> f \<Longrightarrow> f \<le> 40 \<Longrightarrow> dist score f = Some \<bar>score - f\<bar>"
  by (auto simp: dist_def is_int_def)

lemma findClosestFielder_correct:
  assumes "- (2 ^ 31) + 40 < score" "is_int score"
  shows "\<exists>i < 4. findClosestFielder score = Some (int i) \<and>
    (\<forall>j < 4. \<bar>score - fielders ! i\<bar> \<le> \<bar>score - fielders ! j\<bar>) \<and>
    (\<forall>j < i. \<bar>score - fielders ! i\<bar> < \<bar>score - fielders ! j\<bar>)"
proof -
  note d = dist_defined [OF assms]
  have e: "[0..<4] = [0, 1, 2, 3 :: nat]" by (simp add: upt_rec)
  define i :: nat where "i = (if score \<le> 15 then 0 else if score \<le> 25 then 1 else if score \<le> 35 then 2 else 3)"
  have c: "findClosestFielder score = Some (int i)"
    by (simp add: findClosestFielder_def e fielders_def d i_def abs_if split: if_split)
  have l: "(\<forall>j < 4. P j) \<longleftrightarrow> P 0 \<and> P 1 \<and> P 2 \<and> P (3 :: nat)" for P
    by (auto simp: less_Suc_eq numeral_eq_Suc)
  have "\<forall>j < 4. \<bar>score - fielders ! i\<bar> \<le> \<bar>score - fielders ! j\<bar> \<and> (j < i \<longrightarrow> \<bar>score - fielders ! i\<bar> < \<bar>score - fielders ! j\<bar>)"
    unfolding l by (simp add: i_def fielders_def abs_if)
  moreover have "i < 4" by (simp add: i_def)
  ultimately show ?thesis using c by (intro exI [of _ i]) auto
qed

section \<open>The scoreboard\<close>

definition scoreboard :: "match \<Rightarrow> bool" where
  "scoreboard m \<longleftrightarrow> length (batsman_score m) = 20 \<and> total_score m = sum_list (batsman_score m) \<and> 0 \<le> current_batsman m \<and>
     (\<forall>x \<in> set (batsman_score m). even x \<and> 0 \<le> x)"

text \<open>\<open>yields p Q\<close>: whenever \<open>p\<close> returns, its result satisfies \<open>Q\<close>.\<close>

definition yields :: "'a sys \<Rightarrow> ('a \<Rightarrow> bool) \<Rightarrow> bool" where
  "yields p Q = always any (\<lambda>_ s. s) (\<lambda>_. True) p (\<lambda>a _. Q a) ()"

lemma yields_simps [simp]:
  "yields (Ret a) Q = Q a" "yields (Exit n) Q" "yields Ub Q" "yields handle_error Q"
  "yields (Call c k) Q = (\<forall>r. yields (k r) Q)" "yields (need x f) Q = (\<forall>v. x = Some v \<longrightarrow> yields (f v) Q)"
  by (cases x; simp add: yields_def handle_error_def)+

lemma yields_bind [simp]: "yields (bind p f) Q = yields p (\<lambda>a. yields (f a) Q)"
  by (simp add: yields_def always_bind)

lemma yields_mono: "yields p Q \<Longrightarrow> (\<And>a. Q a \<Longrightarrow> Q' a) \<Longrightarrow> yields p Q'"
  unfolding yields_def by (erule always_mono)

lemma yields_any: "yields p (\<lambda>_. True)"
  by (induction p) simp_all

lemma yieldsD: "yields p Q \<Longrightarrow> execs p tr (Done a) \<Longrightarrow> Q a"
  unfolding yields_def by (drule (1) always_result) auto

lemma yields_return_ball: "Q m \<Longrightarrow> yields (return_ball buf b w m) Q"
  by (auto simp: return_ball_def intro: yields_mono [OF yields_any])

lemma sum_list_add: "i < length xs \<Longrightarrow> sum_list (xs[i := xs ! i + x]) = sum_list xs + (x :: int)"
  by (induction xs arbitrary: i) (auto split: nat.splits)

lemma scoreboard_add:
  assumes "scoreboard m" "add_score x m = Some m'" "even x" "0 \<le> x"
  shows "scoreboard m'"
  using assms by (auto simp: scoreboard_def add_score_def sum_list_add split: if_splits dest!: set_update_subset_insert [THEN subsetD])

lemma scoreboard_count_hit: "scoreboard m \<Longrightarrow> \<not> catchable score \<Longrightarrow> yields (count_hit score m) scoreboard"
  by (auto simp: count_hit_def Let_def catchable_def intro: scoreboard_add)

lemma scoreboard_out: "scoreboard m \<Longrightarrow> yields (batsman_out m) scoreboard"
  by (simp add: batsman_out_def scoreboard_def Let_def)

lemma scoreboard_round:
  assumes "scoreboard m"
  shows "yields (umpire_round buf rsfd1 rsfd2 b w m) scoreboard"
proof -
  have r: "yields p scoreboard \<Longrightarrow> yields p (\<lambda>m. yields (return_ball buf b w m) scoreboard)" for p
    by (erule yields_mono) (rule yields_return_ball)
  show ?thesis
    unfolding umpire_round_def
    using assms scoreboard_out [OF assms] scoreboard_count_hit [OF assms]
    by (auto intro!: r yields_return_ball)
qed

lemma scoreboard_loop: "scoreboard m \<Longrightarrow> yields (umpire_loop n buf rsfd1 rsfd2 b w m) scoreboard"
  by (induction n arbitrary: m) (auto intro: yields_mono [OF scoreboard_round])

lemma scoreboard_start: "scoreboard \<lparr>batsman_score = replicate 20 0, current_batsman = 0, total_score = 0\<rparr>"
  by (simp add: scoreboard_def sum_list_replicate)

lemma scoreboard_main: "yields (main_umpire n buf) scoreboard"
  unfolding main_umpire_def Let_def
  by (auto simp: scoreboard_loop scoreboard_start intro!: yields_mono [OF yields_any])

section \<open>Who waits for whom\<close>

definition announces :: "int \<Rightarrow> trace \<Rightarrow> bool" where
  "announces fd tr \<longleftrightarrow> (\<exists>b a. Sendto fd b a \<in> fst ` set tr)"

lemma fielder_announces:
  assumes "raw_number (data r) = Some score" "0 \<le> res r" "findClosestFielder score = Some c" "0 \<le> c" "c < 4" "0 \<le> i" "i < 4"
  shows "(\<exists>tr out. execs (fielder_round rsfd1 rsfd2 port i) ((Recvfrom rsfd1 100, r) # tr) out \<and> announces rsfd2 tr) \<longleftrightarrow>
    catchable score \<and> i = c"
proof -
  have "length (bytes_of ''Fielder '' @ sprintf_d i @ bytes_of '' caught the ball'') < length (replicate 100 (0 :: u8))"
    using assms(6,7) by (simp add: sprintf_d_def dec.simps)
  then obtain b where b: "strcpy (replicate 100 0) (bytes_of ''Fielder '' @ sprintf_d i @ bytes_of '' caught the ball'') = Some b"
    using strcpy_defined by blast
  show ?thesis
  proof
    assume "\<exists>tr out. execs (fielder_round rsfd1 rsfd2 port i) ((Recvfrom rsfd1 100, r) # tr) out \<and> announces rsfd2 tr"
    then show "catchable score \<and> i = c"
      using assms b by (auto simp: fielder_round_def execs_Call announces_def split: if_splits)
  next
    assume c: "catchable score \<and> i = c"
    let ?tr = "[(Print ''score = %d'' [D score], answered), (Print ''I caught the ball, hurray!'' [], answered),
      (Sendto rsfd2 b (AddrIn port localhost), answered)]"
    have "execs (fielder_round rsfd1 rsfd2 port i) ((Recvfrom rsfd1 100, r) # ?tr) (Done ())"
      using assms b c by (simp add: fielder_round_def execs_Call)
    moreover have "announces rsfd2 ?tr" by (simp add: announces_def)
    ultimately show "\<exists>tr out. execs (fielder_round rsfd1 rsfd2 port i) ((Recvfrom rsfd1 100, r) # tr) out \<and> announces rsfd2 tr"
      by blast
  qed
qed

lemma one_announcer:
  assumes "raw_number (data r) = Some score" "0 \<le> res r" "- (2 ^ 31) + 40 < score" "is_int score"
  shows "card {i \<in> {0..3}. \<exists>tr out. execs (fielder_round rsfd1 rsfd2 port i) ((Recvfrom rsfd1 100, r) # tr) out \<and> announces rsfd2 tr} =
    (if catchable score then 1 else 0)"
proof -
  obtain c where c: "c < 4" "findClosestFielder score = Some (int c)"
    using findClosestFielder_correct [OF assms(3,4)] by blast
  define A where "A i \<longleftrightarrow> (\<exists>tr out. execs (fielder_round rsfd1 rsfd2 port i) ((Recvfrom rsfd1 100, r) # tr) out \<and> announces rsfd2 tr)" for i
  have "A i \<longleftrightarrow> catchable score \<and> i = int c" if "0 \<le> i" "i < 4" for i
    unfolding A_def by (rule fielder_announces [OF assms(1,2) c(2)]) (use c(1) that in simp_all)
  then have "{i \<in> {0..3}. A i} = (if catchable score then {int c} else {})"
    using c(1) by auto
  then show ?thesis unfolding A_def by simp
qed

section \<open>Properties\<close>

text \<open>
  C29. The scoreboard adds up: however the match goes, the total the umpire prints is the sum of the
  batsmen's scores, which are even.
\<close>

theorem umpire_scoreboard:
  assumes "execs (main_umpire n buf) tr (Done m)"
  shows "length (batsman_score m) = 20 \<and> total_score m = sum_list (batsman_score m) \<and> 0 \<le> current_batsman m \<and>
    (\<forall>x \<in> set (batsman_score m). even x \<and> 0 \<le> x)"
  using yieldsD [OF scoreboard_main assms] by (simp add: scoreboard_def)

text \<open>
  C30. Umpire and fielders agree: of the fielders 0 to 3 who hear a score exactly one says that it
  caught the ball when the score can be caught, none otherwise; and the umpire who hears the same
  score waits for a fielder in exactly the same case.
\<close>

theorem umpire_hears_one_fielder:
  assumes "raw_number (data r) = Some score" "0 \<le> res r" "- (2 ^ 31) + 40 < score" "is_int score" "rsfd1 \<noteq> rsfd2"
    and "res h = SIGUSR2"
    and "execs (umpire_round buf rsfd1 rsfd2 b w m) (p0 # p1 # p2 # (SigTimedWait SIGUSR2 3, h) # p4 # (Recvfrom rsfd1 100, r) # e # tr) out"
  shows "card {i \<in> {0..3}. \<exists>tr out. execs (fielder_round rsfd1 rsfd2 port i) ((Recvfrom rsfd1 100, r) # tr) out \<and> announces rsfd2 tr} =
      (if catchable score then 1 else 0) \<and>
    (fst e = Recvfrom rsfd2 100 \<longleftrightarrow> catchable score)"
  using one_announcer [OF assms(1-4)] assms(1,2,5-7)
  by (auto simp: umpire_round_def execs_Call count_hit_def split: if_splits)

text \<open>
  \<open>findClosestFielder\<close> returns the fielder nearest to the score, the first of them when two are
  equally near.
\<close>

theorem closest_fielder:
  assumes "- (2 ^ 31) + 40 < score" "is_int score"
  shows "\<exists>i < 4. findClosestFielder score = Some (int i) \<and>
    (\<forall>j < 4. \<bar>score - fielders ! i\<bar> \<le> \<bar>score - fielders ! j\<bar>) \<and>
    (\<forall>j < i. \<bar>score - fielders ! i\<bar> < \<bar>score - fielders ! j\<bar>)"
  by (rule findClosestFielder_correct [OF assms])

section \<open>Witnesses\<close>

definition heard :: "bytes \<Rightarrow> resp" where
  "heard text = answered\<lparr>res := 30, data := 0x45 # replicate 19 0 @ text @ [0]\<rparr>"

lemma raw_number_heard:
  assumes "is_int i" "length (sprintf_d i) < 70"
  shows "raw_number (data (heard (sprintf_d i))) = Some i"
proof -
  let ?d = "0x45 # replicate 19 0 @ sprintf_d i @ [0] :: bytes"
  have "poke 0 ?d (replicate 100 0) = Some (?d @ replicate (79 - length (sprintf_d i)) 0)"
    using assms(2) by (simp add: poke_def wr_def)
  then show ?thesis by (simp add: raw_number_def heard_def get8_def atoi_array_text [OF assms(1)])
qed

text \<open>One ball, hit for six.\<close>

theorem umpire_scoreboard_witness:
  "\<exists>tr m. execs (main_umpire 1 0) tr (Done m) \<and> total_score m = 6 \<and> sum_list (batsman_score m) = 6"
proof -
  have n: "raw_number (data (heard (sprintf_d 12))) = Some 12"
    by (rule raw_number_heard) (simp_all add: is_int_def sprintf_d_def dec.simps)
  have r: "0 \<le> res (heard (sprintf_d 12))" by (simp add: heard_def)
  let ?a = answered
  let ?start = "[(Signal SIGUSR1, ?a), (Signal SIGUSR2, ?a), (Socket AF_INET SOCK_RAW 2, ?a), (Socket AF_INET SOCK_RAW 3, ?a),
    (Socket AF_UNIX SOCK_STREAM 0, ?a), (Connect 0 (AddrUn (bytes_of ''ump_bowl'')), ?a), (Socket AF_UNIX SOCK_STREAM 0, ?a),
    (Unlink (bytes_of ''bat_ump''), ?a), (Bind 0 (AddrUn (bytes_of ''bat_ump'')), ?a), (Listen 0 5, ?a), (Accept 0, ?a),
    (Print ''Batsman is accepted %d'' [D 0], ?a), (Print ''value of bowl_usfd is: %d'' [D 0], ?a),
    (Print ''value of busfd is: %d'' [D 0], ?a), (Print ''value of bunsfd is: %d'' [D 0], ?a)]"
  let ?ball = "[(Pause, ?a), (Print ''Bowler has bowled the ball'' [], ?a), (SigBlock SIGUSR2, ?a),
    (SigTimedWait SIGUSR2 3, ?a\<lparr>res := SIGUSR2\<rparr>), (Print ''Batsman has hit the ball'' [], ?a), (Recvfrom 0 100, heard (sprintf_d 12)),
    (Print ''Number  = %d, '' [D 12], ?a), (Print ''The hit is %d'' [D 6], ?a), (Print ''batsman %d score: %d'' [D 1, D 6], ?a),
    (Print ''total score: %d'' [D 6], ?a), (RecvRights 0 1, ?a), (SendRights 0 [fd_mark] (-1), ?a), (CloseFd (-1), ?a)]"
  let ?m = "\<lparr>batsman_score = (replicate 20 0)[0 := 6], current_batsman = 0, total_score = 6\<rparr>"
  have "execs (umpire_round 0 0 0 0 0 \<lparr>batsman_score = replicate 20 0, current_batsman = 0, total_score = 0\<rparr>) ?ball (Done ?m)"
    using n r by (simp add: umpire_round_def execs_Call count_hit_def catchable_def add_score_def is_int_def return_ball_def
        recv_fd_def send_fd_def answered_def fd_mark_def Let_def)
  then have "execs (bind (umpire_round 0 0 0 0 0 \<lparr>batsman_score = replicate 20 0, current_batsman = 0, total_score = 0\<rparr>)
      (umpire_loop 0 0 0 0 0 0)) (?ball @ []) (Done ?m)"
    by (rule execs_bindI) simp
  then have e: "execs (main_umpire 1 0) (?start @ ?ball) (Done ?m)"
    by (simp add: main_umpire_def execs_Call cli_uds_conn_def serv_uds_listen_def sun_path_def Let_def answered_def)
  from umpire_scoreboard [OF e] have "6 = sum_list (batsman_score ?m)" by simp
  with e show ?thesis by (intro exI [of _ "?start @ ?ball"] exI [of _ ?m]) simp
qed

theorem umpire_hears_one_fielder_witness:
  "card {i \<in> {0..3}. \<exists>tr out. execs (fielder_round 3 4 0 i) ((Recvfrom 3 100, heard (sprintf_d 13)) # tr) out \<and> announces 4 tr} = 1"
proof -
  have n: "raw_number (data (heard (sprintf_d 13))) = Some 13"
    by (rule raw_number_heard) (simp_all add: is_int_def sprintf_d_def dec.simps)
  let ?h = "answered\<lparr>res := SIGUSR2\<rparr>"
  let ?tr = "(Pause, answered) # (Print ''Bowler has bowled the ball'' [], answered) # (SigBlock SIGUSR2, answered) #
    (SigTimedWait SIGUSR2 3, ?h) # (Print ''Batsman has hit the ball'' [], answered) # (Recvfrom 3 100, heard (sprintf_d 13)) #
    (Recvfrom 4 100, answered\<lparr>res := -1\<rparr>) # []"
  let ?m = "\<lparr>batsman_score = replicate 20 0, current_batsman = 0, total_score = 0\<rparr>"
  have r: "0 \<le> res (heard (sprintf_d 13))" by (simp add: heard_def)
  have c: "catchable 13" by (simp add: catchable_def)
  have e: "execs (umpire_round 0 3 4 5 6 ?m) ?tr (Exited 1)"
    using n r c by (simp add: umpire_round_def execs_Call)
  have b: "- (2 ^ 31) + 40 < (13 :: int)" "is_int 13" "(3 :: int) \<noteq> 4" "res ?h = SIGUSR2" by (simp_all add: is_int_def)
  from umpire_hears_one_fielder [OF n r b e] c show ?thesis by simp
qed

theorem closest_fielder_witness:
  "\<exists>i < 4. findClosestFielder 13 = Some (int i) \<and> \<bar>13 - fielders ! i\<bar> \<le> 3"
proof -
  have h: "- (2 ^ 31) + 40 < (13 :: int)" "is_int 13" by (simp_all add: is_int_def)
  from closest_fielder [OF h] obtain i where i: "i < 4" "findClosestFielder 13 = Some (int i)"
      "\<forall>j < 4. \<bar>13 - fielders ! i\<bar> \<le> \<bar>13 - fielders ! j\<bar>"
    by blast
  from i(3) have "\<bar>13 - fielders ! i\<bar> \<le> \<bar>13 - fielders ! 0\<bar>" by simp
  then have "\<bar>13 - fielders ! i\<bar> \<le> 3" by (simp add: fielders_def)
  with i show ?thesis by blast
qed

end
