(* ===== verification/Services.thy ===== *)
theory Services
  imports SocketHelpers
begin

text \<open>
  Servers with several services: the super server 10-2-22/inet_d/inet.c, which passes a client's
  connection to the service it asks for, and 27-1-22/multisfd_poll/server.c, which polls three
  ports and starts a thread per client.
\<close>

section \<open>inet.c\<close>

text \<open>Its \<open>serv_tcp_listen\<close> sets no option.\<close>

definition inet_tcp_listen :: "int \<Rightarrow> int sys" where
  "inet_tcp_listen port =
     Call (Socket AF_INET SOCK_STREAM 0) (\<lambda>r. let fd = res r in
     if fd < 0 then Ret (-1)
     else Call (Bind fd (AddrIn (port_of port) localhost)) (\<lambda>r.
     if res r < 0 then Ret (-1)
     else Call (Listen fd 5) (\<lambda>r.
     if res r < 0 then Ret (-1) else Ret fd)))"

text \<open>One round; \<^term>\<open>True\<close>: the loop goes on, \<^term>\<open>False\<close>: main returns -1.\<close>

definition inet_round :: "int \<Rightarrow> int \<Rightarrow> int \<Rightarrow> bool sys" where
  "inet_round usfd1 usfd2 sfd =
     Call (Accept sfd) (\<lambda>r. let nsfd = res r in
     if nsfd < 0 then Ret False
     else Call (Recv nsfd 3) (\<lambda>r.
     need (poke 0 (data r) (replicate 3 0)) (\<lambda>client_choice.
     need (atoi_array client_choice) (\<lambda>choice.
     Call (Print ''Clients choice is %d'' [D choice]) (\<lambda>_.
     if choice \<noteq> 1 \<and> choice \<noteq> 2 then Call (Print ''Invalid choice'' []) (\<lambda>_. Ret True)
     else Call (Accept (if choice = 1 then usfd1 else usfd2)) (\<lambda>r.
     bind (send_fd (res r) nsfd) (\<lambda>sent.
     if sent < 0 then Ret True
     else Call (Print ''Sent client fd to Si'' []) (\<lambda>_. Ret True))))))))"

primrec inet_loop :: "nat \<Rightarrow> int \<Rightarrow> int \<Rightarrow> int \<Rightarrow> int option sys" where
  "inet_loop 0 usfd1 usfd2 sfd = Ret None"
| "inet_loop (Suc n) usfd1 usfd2 sfd =
     bind (inet_round usfd1 usfd2 sfd) (\<lambda>on. if on then inet_loop n usfd1 usfd2 sfd else Ret (Some (-1)))"

definition main_inet :: "nat \<Rightarrow> int option sys" where
  "main_inet n =
     bind (serv_uds_listen (bytes_of ''mysocket1'')) (\<lambda>usfd1.
     bind (serv_uds_listen (bytes_of ''mysocket2'')) (\<lambda>usfd2.
     bind (inet_tcp_listen 8080) (\<lambda>sfd.
     if sfd < 0 then Ret (Some (-1)) else inet_loop n usfd1 usfd2 sfd)))"

section \<open>The service threads\<close>

definition hello :: "string \<Rightarrow> bytes" where
  "hello k = bytes_of (''Hello from service_thread_'' @ k) @ [10]"

text \<open>The threads are given the address of main's variable \<open>nsfd\<close> and read it when they start.\<close>

primrec service_loop_1 :: "nat \<Rightarrow> int \<Rightarrow> unit option sys" where
  "service_loop_1 0 nsfd = Ret None"
| "service_loop_1 (Suc n) nsfd =
     Call (Recv nsfd 1024) (\<lambda>r.
     if res r \<le> 0 then Call (CloseFd nsfd) (\<lambda>_. Ret (Some ()))
     else need (poke 0 (data r) (replicate 1024 0)) (\<lambda>msg.
     need (strcmp_eq msg (bytes_of ''exit'' @ [0])) (\<lambda>quit.
     if quit then Call (Print ''Service_thread_1 exiting'' []) (\<lambda>_. Call (CloseFd nsfd) (\<lambda>_. Ret (Some ())))
     else need (c_str msg) (\<lambda>text. Call (Print ''%s'' [S text]) (\<lambda>_. service_loop_1 n nsfd)))))"

definition service_thread_1 :: "nat \<Rightarrow> unit option sys" where
  "service_thread_1 n =
     Call (Print ''Service thread 1 started'' []) (\<lambda>_.
     Call (Load ''nsfd'') (\<lambda>r. let nsfd = num r in
     Call (Send nsfd (hello ''1'')) (\<lambda>_. service_loop_1 n nsfd)))"

text \<open>\<open>toupper\<close> and \<open>tolower\<close> of the C locale.  The source passes a \<open>char\<close>, which is negative from 0x80
  on; glibc's tables cover these values and leave them alone.\<close>

definition c_toupper :: "u8 \<Rightarrow> u8" where
  "c_toupper b = (if 97 \<le> unat b \<and> unat b \<le> 122 then b - 32 else b)"

definition c_tolower :: "u8 \<Rightarrow> u8" where
  "c_tolower b = (if 65 \<le> unat b \<and> unat b \<le> 90 then b + 32 else b)"

text \<open>\<open>for (i = 0; i < strlen(msg); i++) msg[i] = f(msg[i]);\<close> with \<open>strlen\<close> at every iteration;
  \<open>n\<close> bounds them.\<close>

fun case_loop :: "(u8 \<Rightarrow> u8) \<Rightarrow> nat \<Rightarrow> nat \<Rightarrow> bytes \<Rightarrow> bytes option" where
  "case_loop f 0 i msg = None"
| "case_loop f (Suc n) i msg = Option.bind (c_str msg) (\<lambda>text.
     if i < length text then case_loop f n (Suc i) (msg[i := f (msg ! i)]) else Some msg)"

definition service_thread_case :: "(u8 \<Rightarrow> u8) \<Rightarrow> string \<Rightarrow> unit sys" where
  "service_thread_case f k =
     Call (Print (''Service thread '' @ k @ '' started'') []) (\<lambda>_.
     Call (Load ''nsfd'') (\<lambda>r. let nsfd = num r in
     Call (Send nsfd (hello k)) (\<lambda>_.
     Call (Recv nsfd 1024) (\<lambda>r.
     need (poke 0 (data r) (replicate 1024 0)) (\<lambda>msg.
     need (case_loop f (Suc (length msg)) 0 msg) (\<lambda>msg.
     need (c_str msg) (\<lambda>text.
     Call (Send nsfd text) (\<lambda>_.
     Call (Print (''Service_thread_'' @ k @ '' exiting'') []) (\<lambda>_.
     Call (CloseFd nsfd) (\<lambda>_. Ret ()))))))))))"

definition service_thread_2 :: "unit sys" where "service_thread_2 = service_thread_case c_toupper ''2''"
definition service_thread_3 :: "unit sys" where "service_thread_3 = service_thread_case c_tolower ''3''"

section \<open>server.c\<close>

fun services_listen :: "nat list \<Rightarrow> int list \<Rightarrow> int list option sys" where
  "services_listen [] sfds = Ret (Some sfds)"
| "services_listen (i # is) sfds =
     Call (Socket AF_INET SOCK_STREAM 0) (\<lambda>r. let sfd = res r in
     Call (Setsockopt sfd) (\<lambda>r.
     if res r \<noteq> 0 then Ret None
     else Call (Bind sfd (AddrIn (port_of (8080 + int i)) [0, 0, 0, 0])) (\<lambda>r.
     if res r = -1 then Ret None
     else Call (Listen sfd 5) (\<lambda>r.
     if res r = -1 then Ret None else services_listen is (sfds @ [sfd])))))"

text \<open>\<open>nsfd\<close> is a variable of the loop's block: each client's is stored where the last one was.\<close>

fun services_ready :: "resp \<Rightarrow> nat \<Rightarrow> int list \<Rightarrow> unit sys" where
  "services_ready r i [] = Ret ()"
| "services_ready r i (sfd # sfds) =
     (if readable r i then Call (Accept sfd) (\<lambda>a.
        if res a = -1 then services_ready r (Suc i) sfds
        else Call (Store ''nsfd'' (res a)) (\<lambda>_.
        Call (Thread (if i = 0 then ''service_thread_1'' else if i = 1 then ''service_thread_2'' else ''service_thread_3'')) (\<lambda>_.
        services_ready r (Suc i) sfds)))
      else services_ready r (Suc i) sfds)"

primrec services_loop :: "nat \<Rightarrow> int list \<Rightarrow> int option sys" where
  "services_loop 0 sfds = Ret None"
| "services_loop (Suc n) sfds =
     Call (Poll sfds) (\<lambda>r.
     if res r = -1 then Ret (Some 0)
     else bind (services_ready r 0 sfds) (\<lambda>_. services_loop n sfds))"

definition main_services :: "nat \<Rightarrow> int option sys" where
  "main_services n =
     bind (services_listen [0..<3] []) (\<lambda>sfds. case sfds of None \<Rightarrow> Ret (Some 1) | Some sfds \<Rightarrow>
     Call (Print ''Starting to poll..'' []) (\<lambda>_. services_loop n sfds))"

section \<open>Changing case in place\<close>

text \<open>A character function that keeps the terminator.\<close>

locale char_map =
  fixes f :: "u8 \<Rightarrow> u8"
  assumes keeps_zero: "f b = 0 \<longleftrightarrow> b = 0"
begin

lemma no_zero_map: "0 \<notin> set t \<Longrightarrow> 0 \<notin> set (map f t)"
  using keeps_zero by auto

lemma case_loop_from:
  "0 \<notin> set u \<Longrightarrow> 0 \<notin> set t \<Longrightarrow> length t < n \<Longrightarrow>
   case_loop f n (length u) (u @ t @ 0 # rest) = Some (u @ map f t @ 0 # rest)"
proof (induction t arbitrary: u n)
  case Nil
  then obtain m where "n = Suc m" by (cases n) auto
  moreover have "c_str (u @ 0 # rest) = Some u" using Nil.prems(1) by (rule c_str_append)
  ultimately show ?case by simp
next
  case (Cons b t)
  then obtain m where n: "n = Suc m" "length t < m" by (cases n) auto
  have "c_str ((u @ b # t) @ 0 # rest) = Some (u @ b # t)" using Cons.prems by (intro c_str_append) auto
  then have c: "c_str (u @ b # t @ 0 # rest) = Some (u @ b # t)" by simp
  have "f b \<noteq> 0" using Cons.prems(2) keeps_zero [of b] by auto
  then have "0 \<notin> set (u @ [f b])" using Cons.prems(1) by auto
  from Cons.IH [OF this _ n(2)] Cons.prems(2)
  have "case_loop f m (Suc (length u)) ((u @ [f b]) @ t @ 0 # rest) = Some ((u @ [f b]) @ map f t @ 0 # rest)" by simp
  then show ?case using n c by simp
qed

lemma case_loop_map:
  "0 \<notin> set t \<Longrightarrow> case_loop f (Suc (length (t @ 0 # rest))) 0 (t @ 0 # rest) = Some (map f t @ 0 # rest)"
  using case_loop_from [of "[]" t] by (simp del: case_loop.simps)

text \<open>An array without a terminator runs the loop off its end.\<close>

lemma case_loop_undefined: "0 \<notin> set msg \<Longrightarrow> case_loop f n i msg = None"
proof -
  have "0 \<notin> set msg \<Longrightarrow> c_str msg = None" by (induction msg) auto
  then show "0 \<notin> set msg \<Longrightarrow> case_loop f n i msg = None" by (cases n) simp_all
qed

lemma service:
  assumes "execs (service_thread_case f k) ((Print p [], r0) # (Load ''nsfd'', l) # (Send n h, r1) # (Recv n 1024, r) # tr) out"
    and "length (data r) \<le> 1024"
  shows "if length (data r) = 1024 \<and> 0 \<notin> set (data r) then out = Undefined \<and> tr = []
    else \<exists>text r2 r3 r4. c_str (data r @ [0]) = Some text \<and> out = Done () \<and>
      tr = [(Send (num l) (map f text), r2), (Print (''Service_thread_'' @ k @ '' exiting'') [], r3), (CloseFd (num l), r4)]"
proof -
  define msg where "msg = data r @ replicate (1024 - length (data r)) 0"
  have p: "poke 0 (data r) (replicate 1024 0) = Some msg" using assms(2) by (simp add: poke_def wr_def msg_def)
  have e: "execs (need (case_loop f (Suc (length msg)) 0 msg) (\<lambda>msg. need (c_str msg) (\<lambda>text.
      Call (Send (num l) text) (\<lambda>_. Call (Print (''Service_thread_'' @ k @ '' exiting'') []) (\<lambda>_.
      Call (CloseFd (num l)) (\<lambda>_. Ret ())))))) tr out"
    using assms(1) by (simp add: service_thread_case_def execs_Call p Let_def del: case_loop.simps)
  show ?thesis
  proof (cases "length (data r) = 1024 \<and> 0 \<notin> set (data r)")
    case True
    then have "msg = data r" by (simp add: msg_def)
    with True e case_loop_undefined [of msg] show ?thesis by simp
  next
    case False
    have "\<exists>text rest. c_str (data r @ [0]) = Some text \<and> msg = text @ 0 # rest"
    proof (cases "0 \<in> set (data r)")
      case True
      then obtain t rest where "data r = t @ 0 # rest" "0 \<notin> set t" by (meson split_list_first)
      then show ?thesis by (simp add: msg_def c_str_append)
    next
      case no: False
      then obtain m where "1024 - length (data r) = Suc m" using False assms(2) by (cases "1024 - length (data r)") auto
      with no show ?thesis by (simp add: msg_def c_str_append)
    qed
    then obtain s rest where t: "c_str (data r @ [0]) = Some s" "msg = s @ 0 # rest" by blast
    have z: "0 \<notin> set s" by (rule c_str_no_zero [OF t(1)])
    have "case_loop f (Suc (length msg)) 0 msg = Some (map f s @ 0 # rest)"
      unfolding t(2) by (rule case_loop_map [OF z])
    moreover have "c_str (map f s @ 0 # rest) = Some (map f s)" by (rule c_str_append [OF no_zero_map [OF z]])
    ultimately show ?thesis using e False t(1) by (auto simp: execs_Call simp del: case_loop.simps)
  qed
qed

end

lemma c_toupper_zero: "c_toupper b = 0 \<longleftrightarrow> b = 0"
proof -
  have "b = 32 \<Longrightarrow> unat b = 32" for b :: u8 by simp
  then show ?thesis by (auto simp: c_toupper_def)
qed

lemma c_tolower_zero: "c_tolower b = 0 \<longleftrightarrow> b = 0"
proof -
  have "unat b = 224" if "b + 32 = 0" for b :: u8
  proof -
    from that have "b = - 32" by (simp add: eq_neg_iff_add_eq_0)
    then show ?thesis by simp
  qed
  from this [of b] show ?thesis by (auto simp: c_tolower_def)
qed

interpretation upper: char_map c_toupper
  by unfold_locales (rule c_toupper_zero)

interpretation lower: char_map c_tolower
  by unfold_locales (rule c_tolower_zero)

section \<open>Properties\<close>

text \<open>
  C31. Service threads 2 and 3 answer with the client's text in upper and lower case and close the
  connection; only a client that sends 1024 bytes without a zero makes them run off their buffer.
\<close>

theorem service_threads_answer:
  assumes "execs t ((Print p [], r0) # (Load ''nsfd'', l) # (Send n h, r1) # (Recv n 1024, r) # tr) out"
    and "t = service_thread_2 \<and> f = c_toupper \<and> k = ''2'' \<or> t = service_thread_3 \<and> f = c_tolower \<and> k = ''3''"
    and "length (data r) \<le> 1024"
  shows "if length (data r) = 1024 \<and> 0 \<notin> set (data r) then out = Undefined \<and> tr = []
    else \<exists>text r2 r3 r4. c_str (data r @ [0]) = Some text \<and> out = Done () \<and>
      tr = [(Send (num l) (map f text), r2), (Print (''Service_thread_'' @ k @ '' exiting'') [], r3), (CloseFd (num l), r4)]"
  using assms(2)
proof
  assume "t = service_thread_2 \<and> f = c_toupper \<and> k = ''2''"
  with upper.service [of k p r0 l n h r1 r tr out] assms(1,3) show ?thesis unfolding service_thread_2_def by blast
next
  assume "t = service_thread_3 \<and> f = c_tolower \<and> k = ''3''"
  with lower.service [of k p r0 l n h r1 r tr out] assms(1,3) show ?thesis unfolding service_thread_3_def by blast
qed

text \<open>
  C32. The super server reads the choice out of what the client sent, as \<open>atoi\<close> of the three bytes
  received over zeros; it passes the client to the service it asked for and to no other, ignores
  any other choice, and closes nothing: the client's connection stays open in every case.
\<close>

theorem inet_routes_client:
  assumes "execs (inet_round usfd1 usfd2 sfd) ((Accept sfd, ra) # (Recv nsfd 3, rr) # (Print p [D choice], rp) # tr) (Done b)" "0 \<le> res ra"
  shows "nsfd = res ra \<and> b \<and>
    (\<exists>client_choice. poke 0 (data rr) (replicate 3 0) = Some client_choice \<and> atoi_array client_choice = Some choice) \<and>
    (if choice = 1 \<or> choice = 2 then \<exists>ru rs. take 2 tr = [(Accept (if choice = 1 then usfd1 else usfd2), ru), (SendRights (res ru) [fd_mark] nsfd, rs)]
     else \<exists>r. tr = [(Print ''Invalid choice'' [], r)]) \<and>
    (\<exists>held. fds_from {} ((Accept sfd, ra) # (Recv nsfd 3, rr) # (Print p [D choice], rp) # tr) = Some held \<and> nsfd \<in> held)"
  using assms by (auto simp: inet_round_def execs_Call execs_need_Done execs_bind unix_fds.sends Let_def split: if_splits)

section \<open>Witnesses\<close>

theorem service_threads_answer_witness:
  "\<exists>tr s. execs service_thread_2 tr (Done ()) \<and> c_str [104, 105, 0] = Some s \<and> Send 5 (map c_toupper s) \<in> fst ` set tr"
proof -
  let ?r = "answered\<lparr>data := [104, 105]\<rparr>"
  let ?tr0 = "[(Print ''Service thread 2 started'' [], answered), (Load ''nsfd'', answered\<lparr>num := 5\<rparr>), (Send 5 (hello ''2''), answered),
    (Recv 5 1024, ?r)]"
  have z: "0 \<notin> set [104, 105 :: u8]" by simp
  have p: "poke 0 [104, 105] (replicate 1024 0) = Some ([104, 105] @ 0 # replicate 1021 (0 :: u8))"
    using replicate_Suc [of 1021 "0 :: u8"] by (simp add: poke_def wr_def)
  have c: "case_loop c_toupper (Suc (length ([104, 105 :: u8] @ 0 # replicate 1021 0))) 0 ([104, 105] @ 0 # replicate 1021 0) =
      Some (map c_toupper [104, 105] @ 0 # replicate 1021 0)"
    by (rule upper.case_loop_map [OF z])
  have s: "c_str (map c_toupper [104, 105] @ 0 # replicate 1021 0) = Some (map c_toupper [104, 105])"
    by (rule c_str_append [OF upper.no_zero_map [OF z]])
  have u: "map c_toupper [104, 105] = [72, 73]" by (simp add: c_toupper_def)
  let ?tail = "[(Send 5 [72, 73], answered), (Print ''Service_thread_2 exiting'' [], answered), (CloseFd 5, answered)]"
  have e: "execs service_thread_2 (?tr0 @ ?tail) (Done ())"
    unfolding service_thread_2_def service_thread_case_def
    using c s u by (simp only: execs_Call append_Cons append_Nil Let_def) (simp add: execs_Call p del: case_loop.simps)
  have l: "length (data ?r) \<le> 1024" "\<not> (length (data ?r) = 1024 \<and> 0 \<notin> set (data ?r))" by simp_all
  have t: "service_thread_2 = service_thread_2 \<and> c_toupper = c_toupper \<and> ''2'' = ''2'' \<or>
      service_thread_2 = service_thread_3 \<and> c_toupper = c_tolower \<and> ''2'' = ''3''" by simp
  have e': "execs service_thread_2 ((Print ''Service thread 2 started'' [], answered) # (Load ''nsfd'', answered\<lparr>num := 5\<rparr>) #
      (Send 5 (hello ''2''), answered) # (Recv 5 1024, ?r) # ?tail) (Done ())" using e by simp
  from service_threads_answer [OF e' t l(1), unfolded if_not_P [OF l(2)]]
  obtain w r2 r3 r4 where w: "c_str (data ?r @ [0]) = Some w"
    "?tail = [(Send (num (answered\<lparr>num := 5\<rparr>)) (map c_toupper w), r2), r3, r4]"
    by (elim exE conjE) (rule that)
  have "fst (hd ?tail) = Send 5 (map c_toupper w)" unfolding w(2) by simp
  then have "Send 5 (map c_toupper w) \<in> fst ` set (?tr0 @ ?tail)" by simp
  with e w(1) show ?thesis by (intro exI [of _ "?tr0 @ ?tail"] exI [of _ w]) simp
qed

theorem inet_routes_client_witness:
  "\<exists>tr held. execs (inet_round 4 5 3) tr (Done True) \<and> fds_from {} tr = Some held \<and> 6 \<in> held \<and>
     atoi_array [57, 0, 0] = Some 9"
proof -
  let ?a = "answered\<lparr>res := 6\<rparr>"
  have p: "poke 0 [57] (replicate 3 0) = Some [57, 0, 0 :: u8]" by (simp add: poke_def wr_def numeral_3_eq_3)
  have "atoi_array (sprintf_d 9 @ 0 # [0]) = Some 9" by (rule atoi_array_text) (simp add: is_int_def)
  then have n: "atoi_array [57, 0, 0] = Some 9" by (simp add: sprintf_d_def dec.simps digit_def)
  let ?tr = "[(Accept 3, ?a), (Recv 6 3, answered\<lparr>data := [57]\<rparr>), (Print ''Clients choice is %d'' [D 9], answered), (Print ''Invalid choice'' [], answered)]"
  have e: "execs (inet_round 4 5 3) ?tr (Done True)" by (simp add: inet_round_def execs_Call p n)
  have "0 \<le> res ?a" by simp
  from inet_routes_client [OF e this] obtain held where "fds_from {} ?tr = Some held" "6 \<in> held"
    "atoi_array [57, 0, 0] = Some 9" by (auto simp: p)
  with e show ?thesis by blast
qed

end
