(* ===== verification/Aio.thy ===== *)
theory Aio
  imports SocketHelpers "HOL-Library.Sublist"
begin

text \<open>
  The asynchronous input server minor1/Q3-AIO/S.c: it polls a listening socket, the terminal, a
  pipe, a FIFO and a \<open>popen\<close>ed program, sends what it reads to the waiting clients, and on SIGUSR1
  hands the client that has waited longest to an echo server.  The signal arrives where the
  server waits: \<open>poll\<close> then returns -1 and leaves \<open>revents\<close> as it was.
\<close>

record aio =
  nsfds :: "int list"
  nsfd_start :: int
  nsfd_count :: int

abbreviation (input) MAX_NSFD :: nat where "MAX_NSFD \<equiv> 10"

definition aio_start :: aio where
  "aio_start = \<lparr>nsfds = replicate MAX_NSFD 0, nsfd_start = 0, nsfd_count = 0\<rparr>"

text \<open>Element \<open>j\<close> of the array of ten.\<close>

definition client_at :: "aio \<Rightarrow> int \<Rightarrow> int option" where
  "client_at s j = (if 0 \<le> j \<and> j < int (length (nsfds s)) then Some (nsfds s ! nat j) else None)"

definition add_client :: "int \<Rightarrow> aio \<Rightarrow> aio option" where
  "add_client c s = (if 0 \<le> nsfd_count s \<and> nsfd_count s < int (length (nsfds s))
     then Some (s\<lparr>nsfds := (nsfds s)[nat (nsfd_count s) := c], nsfd_count := nsfd_count s + 1\<rparr>) else None)"

text \<open>\<open>char msg[20]\<close>.\<close>

definition echo_start :: bytes where
  "echo_start = bytes_of ''echo_start'' @ 10 # replicate 9 0"

definition aio_sig_usr1_handler :: "aio \<Rightarrow> aio sys" where
  "aio_sig_usr1_handler s =
     (if nsfd_start s \<ge> nsfd_count s then Ret s
      else need (client_at s (nsfd_start s)) (\<lambda>nsfd.
        let s = s\<lparr>nsfd_start := nsfd_start s + 1\<rparr> in
        Call (Send nsfd echo_start) (\<lambda>_.
        Call Fork (\<lambda>r.
        if res r > 0 then Call (CloseFd nsfd) (\<lambda>_. Ret s)
        else if res r = 0 then Call (Dup2 nsfd 1) (\<lambda>_. Call (Execv (bytes_of ''./E.exe'') []) (\<lambda>_. Exit 1))
        else Ret s))))"

section \<open>Initialisation\<close>

definition sock_tcp_init :: "int sys" where
  "sock_tcp_init =
     Call (Socket AF_INET SOCK_STREAM 0) (\<lambda>r. let sfd = res r in
     if sfd < 0 then handle_error
     else Call (Setsockopt sfd) (\<lambda>r.
     if res r \<noteq> 0 then Ret 1
     else Call (Bind sfd (AddrIn (port_of 8080) localhost)) (\<lambda>r.
     if res r < 0 then handle_error
     else Call (Listen sfd 5) (\<lambda>r.
     if res r < 0 then handle_error else Ret sfd))))"

definition p1_init :: "int sys" where
  "p1_init =
     Call Pipe (\<lambda>p.
     need (case rights p of [a, b] \<Rightarrow> Some (a, b) | _ \<Rightarrow> None) (\<lambda>(fd0, fd1).
     Call Fork (\<lambda>r.
     if res r = 0 then Call (Dup2 fd1 1) (\<lambda>_. Call (Execv (bytes_of ''./P1.exe'') []) (\<lambda>_. handle_error))
     else Ret fd0)))"

text \<open>\<open>EEXIST\<close> is 17.\<close>

definition p2_init :: "int sys" where
  "p2_init =
     Call (Mkfifo ''/tmp/aio-fifo'') (\<lambda>r.
     if res r < 0 \<and> num r \<noteq> 17 then handle_error
     else Call (OpenFile ''/tmp/aio-fifo'') (\<lambda>r.
     if res r < 0 then handle_error else Ret (res r)))"

definition p3_init :: "int sys" where
  "p3_init = Call (Popen (bytes_of ''./P3.exe'')) (\<lambda>r. if res r < 0 then Ub else Ret (res r))"

section \<open>The loop\<close>

text \<open>To the clients that were waiting when the round began.\<close>

fun broadcast :: "bytes \<Rightarrow> int list \<Rightarrow> aio \<Rightarrow> unit sys" where
  "broadcast msg [] s = Ret ()"
| "broadcast msg (j # js) s = need (client_at s j) (\<lambda>fd. Call (Send fd msg) (\<lambda>_. broadcast msg js s))"

definition aio_ready :: "int \<Rightarrow> int \<Rightarrow> nat \<Rightarrow> int \<Rightarrow> aio \<Rightarrow> aio sys" where
  "aio_ready c_start c_end i fd s =
     (if i = 0 then
        Call (Accept fd) (\<lambda>r.
        if res r = -1 then Ret s
        else Call (Print ''Client accepted'' []) (\<lambda>_. need (add_client (res r) s) Ret))
      else
        Call (ReadFd fd 100) (\<lambda>r.
        if res r = -1 then Ret s
        else need (poke 0 (data r) (replicate 100 0)) (\<lambda>msg.
          bind (if res r > 0 then broadcast msg [c_start..c_end - 1] s else Ret ()) (\<lambda>_. Ret s))))"

fun aio_descriptors :: "int list \<Rightarrow> int \<Rightarrow> int \<Rightarrow> nat \<Rightarrow> int list \<Rightarrow> aio \<Rightarrow> aio sys" where
  "aio_descriptors revents c_start c_end i [] s = Ret s"
| "aio_descriptors revents c_start c_end i (fd # fds) s =
     bind (if readable (answered\<lparr>flags := revents\<rparr>) i then aio_ready c_start c_end i fd s else Ret s)
       (aio_descriptors revents c_start c_end (Suc i) fds)"

text \<open>\<open>EINTR\<close> is 4; \<open>revents\<close> is what \<open>poll\<close> stored last.\<close>

primrec aio_loop :: "nat \<Rightarrow> int list \<Rightarrow> int list \<Rightarrow> aio \<Rightarrow> aio option sys" where
  "aio_loop 0 fds revents s = Ret None"
| "aio_loop (Suc n) fds revents s =
     (let c_start = nsfd_start s; c_end = nsfd_count s in
      Call (Poll fds) (\<lambda>r.
      bind (if res r = -1 \<and> num r = 4 then aio_sig_usr1_handler s else Ret s) (\<lambda>s.
      let revents = (if res r = -1 then revents else flags r) in
      bind (aio_descriptors revents c_start c_end 0 fds s) (aio_loop n fds revents))))"

text \<open>\<open>g\<close>: the uninitialised \<open>revents\<close>.\<close>

definition main_aio :: "nat \<Rightarrow> int list \<Rightarrow> aio option sys" where
  "main_aio n g =
     Call (Signal SIGUSR1) (\<lambda>_.
     Call Getpid (\<lambda>r.
     Call (Print ''My pid is %d'' [D (res r)]) (\<lambda>_.
     bind p1_init (\<lambda>pfd.
     Call (Print ''p1_init() returned %d'' [D pfd]) (\<lambda>_.
     bind p2_init (\<lambda>ffd.
     Call (Print ''p2_init() returned %d'' [D ffd]) (\<lambda>_.
     bind p3_init (\<lambda>fd.
     Call (Print ''p3_init() returned %d'' [D fd]) (\<lambda>_.
     bind sock_tcp_init (\<lambda>sfd.
     Call (Print ''init done'' []) (\<lambda>_.
     aio_loop n [sfd, 0, pfd, ffd, fd] g aio_start)))))))))))"

section \<open>A queue of clients\<close>

text \<open>The contract of a bounded queue; \<open>front\<close> and \<open>rest\<close> are what the handler takes and leaves.\<close>

locale fifo =
  fixes wf :: "'s \<Rightarrow> bool" and waiting :: "'s \<Rightarrow> 'c list" and put :: "'c \<Rightarrow> 's \<Rightarrow> 's option"
    and empty :: "'s \<Rightarrow> bool" and front :: "'s \<Rightarrow> 'c option" and rest :: "'s \<Rightarrow> 's"
  assumes put: "wf s \<Longrightarrow> put c s = Some s' \<Longrightarrow> wf s' \<and> waiting s' = waiting s @ [c]"
    and empty: "wf s \<Longrightarrow> empty s \<longleftrightarrow> waiting s = []"
    and take_one: "wf s \<Longrightarrow> \<not> empty s \<Longrightarrow> front s = Some (hd (waiting s)) \<and> wf (rest s) \<and> waiting (rest s) = tl (waiting s)"
begin

text \<open>What has been put in is what has been taken out followed by what waits.\<close>

definition in_order :: "'s \<Rightarrow> 'c list \<times> 'c list \<Rightarrow> bool" where
  "in_order s m \<longleftrightarrow> wf s \<and> fst m = snd m @ waiting s"

lemma in_order_put: "in_order s m \<Longrightarrow> put c s = Some s' \<Longrightarrow> in_order s' (fst m @ [c], snd m)"
  using put by (auto simp: in_order_def)

lemma in_order_take: "in_order s m \<Longrightarrow> \<not> empty s \<Longrightarrow>
  \<exists>c. front s = Some c \<and> in_order (rest s) (fst m, snd m @ [c]) \<and> prefix (snd m @ [c]) (fst m)"
proof -
  assume m: "in_order s m" and e: "\<not> empty s"
  then have w: "wf s" "waiting s \<noteq> []" using empty by (auto simp: in_order_def)
  from w(2) obtain c cs where "waiting s = c # cs" by (cases "waiting s") auto
  with m take_one [OF w(1) e] show ?thesis by (auto simp: in_order_def)
qed

lemma in_order_prefix: "in_order s m \<Longrightarrow> prefix (snd m) (fst m)"
  by (auto simp: in_order_def)

end

definition aio_wf :: "aio \<Rightarrow> bool" where
  "aio_wf s \<longleftrightarrow> length (nsfds s) = MAX_NSFD \<and> 0 \<le> nsfd_start s \<and> nsfd_start s \<le> nsfd_count s \<and> nsfd_count s \<le> int MAX_NSFD"

definition aio_waiting :: "aio \<Rightarrow> int list" where
  "aio_waiting s = drop (nat (nsfd_start s)) (take (nat (nsfd_count s)) (nsfds s))"

lemma aio_put:
  assumes "aio_wf s" "add_client c s = Some s'"
  shows "aio_wf s' \<and> aio_waiting s' = aio_waiting s @ [c]"
proof -
  have k: "0 \<le> nsfd_count s" "nsfd_count s < int (length (nsfds s))"
    and s': "s' = s\<lparr>nsfds := (nsfds s)[nat (nsfd_count s) := c], nsfd_count := nsfd_count s + 1\<rparr>"
    using assms(2) by (auto simp: add_client_def split: if_splits)
  have n: "nat (nsfd_count s + 1) = Suc (nat (nsfd_count s))" using k(1) by simp
  have "take (Suc (nat (nsfd_count s))) ((nsfds s)[nat (nsfd_count s) := c]) = take (nat (nsfd_count s)) (nsfds s) @ [c]"
    using k by (simp add: take_Suc_conv_app_nth)
  moreover have "nat (nsfd_start s) - nat (nsfd_count s) = 0" using assms(1) by (auto simp: aio_wf_def intro: nat_mono)
  ultimately show ?thesis using assms(1) k n by (simp add: s' aio_wf_def aio_waiting_def)
qed

lemma aio_take_one:
  assumes "aio_wf s" "\<not> nsfd_start s \<ge> nsfd_count s"
  shows "client_at s (nsfd_start s) = Some (hd (aio_waiting s)) \<and> aio_wf (s\<lparr>nsfd_start := nsfd_start s + 1\<rparr>) \<and>
    aio_waiting (s\<lparr>nsfd_start := nsfd_start s + 1\<rparr>) = tl (aio_waiting s)"
proof -
  have l: "nat (nsfd_start s) < length (take (nat (nsfd_count s)) (nsfds s))"
    using assms by (auto simp: aio_wf_def)
  have "nat (nsfd_start s + 1) = Suc (nat (nsfd_start s))" using assms(1) by (auto simp: aio_wf_def nat_add_distrib)
  then show ?thesis
    using assms l by (auto simp: aio_wf_def aio_waiting_def client_at_def hd_drop_conv_nth drop_Suc tl_drop)
qed

interpretation clients: fifo aio_wf aio_waiting add_client "\<lambda>s. nsfd_start s \<ge> nsfd_count s"
  "\<lambda>s. client_at s (nsfd_start s)" "\<lambda>s. s\<lparr>nsfd_start := nsfd_start s + 1\<rparr>"
proof unfold_locales
  fix s
  assume "aio_wf s"
  then show "nsfd_start s \<ge> nsfd_count s \<longleftrightarrow> aio_waiting s = []"
    by (auto simp: aio_wf_def aio_waiting_def)
qed (rule aio_put aio_take_one; assumption)+

section \<open>The order of service\<close>

text \<open>A monitor of the calls: the clients accepted and those that were sent \<open>echo_start\<close>.\<close>

definition turns :: "call \<times> resp \<Rightarrow> int list \<times> int list \<Rightarrow> int list \<times> int list" where
  "turns e m = (case e of
     (Accept fd, r) \<Rightarrow> if res r = -1 then m else (fst m @ [res r], snd m)
   | (Send fd b, r) \<Rightarrow> if b = echo_start then (fst m, snd m @ [fd]) else m
   | _ \<Rightarrow> m)"

definition fair :: "int list \<times> int list \<Rightarrow> bool" where
  "fair m \<longleftrightarrow> prefix (snd m) (fst m)"

abbreviation (input) on_turns :: "'a sys \<Rightarrow> ('a \<Rightarrow> int list \<times> int list \<Rightarrow> bool) \<Rightarrow> int list \<times> int list \<Rightarrow> bool" where
  "on_turns \<equiv> always (\<lambda>_ _. True) turns fair"

lemma turns_simps [simp]:
  "turns (Accept fd, r) m = (if res r = -1 then m else (fst m @ [res r], snd m))"
  "turns (Send fd b, r) m = (if b = echo_start then (fst m, snd m @ [fd]) else m)"
  by (simp_all add: turns_def)

lemma turns_other [simp]:
  "(\<forall>fd. c \<noteq> Accept fd) \<Longrightarrow> (\<forall>fd b. c \<noteq> Send fd b) \<Longrightarrow> turns (c, r) m = m"
  by (cases c) (simp_all add: turns_def)

lemma on_turns_need [simp]: "on_turns (need x f) Q m \<longleftrightarrow> (case x of None \<Rightarrow> fair m | Some v \<Rightarrow> on_turns (f v) Q m)"
  by (cases x) auto

lemma on_turns_handle_error [simp]: "on_turns handle_error Q = fair"
  by (simp add: handle_error_def)

lemma fair_order: "clients.in_order s m \<Longrightarrow> fair m"
  unfolding fair_def by (rule clients.in_order_prefix)

lemma fair_more: "fair m \<Longrightarrow> fair (fst m @ xs, snd m)"
  by (simp add: fair_def)

lemma turns_handler:
  assumes "clients.in_order s m"
  shows "on_turns (aio_sig_usr1_handler s) clients.in_order m"
proof (cases "nsfd_start s \<ge> nsfd_count s")
  case True
  then show ?thesis using assms fair_order [OF assms] by (simp add: aio_sig_usr1_handler_def)
next
  case False
  obtain c where c: "client_at s (nsfd_start s) = Some c"
      "clients.in_order (s\<lparr>nsfd_start := nsfd_start s + 1\<rparr>) (fst m, snd m @ [c])"
    using clients.in_order_take [OF assms False] by blast
  with False fair_order [OF assms] fair_order [OF c(2)] show ?thesis
    by (simp add: aio_sig_usr1_handler_def Let_def)
qed

lemma length_echo_start: "length echo_start = 20"
  by (simp add: echo_start_def)

lemma turns_broadcast: "length msg = 100 \<Longrightarrow> clients.in_order s m \<Longrightarrow> on_turns (broadcast msg js s) (\<lambda>_. clients.in_order s) m"
proof (induction js)
  case (Cons j js)
  then have "msg \<noteq> echo_start" using length_echo_start by auto
  with Cons fair_order [OF Cons.prems(2)] show ?case by (auto split: option.split)
qed (simp add: fair_order)

lemma turns_ready:
  assumes "clients.in_order s m"
  shows "on_turns (aio_ready c_start c_end i fd s) clients.in_order m"
proof -
  note f = fair_order [OF assms] fair_more [OF fair_order [OF assms]]
  have b: "on_turns (broadcast msg js s) (\<lambda>_. clients.in_order s) m" if "poke 0 d (replicate 100 0) = Some msg" for d msg js
    using that assms by (intro turns_broadcast) (auto dest: length_poke)
  show ?thesis
    using assms f clients.in_order_put [OF assms]
    by (auto simp: aio_ready_def always_bind fair_order split: option.split
        intro!: always_mono [OF b])
qed

lemma turns_descriptors:
  "clients.in_order s m \<Longrightarrow> on_turns (aio_descriptors revents c_start c_end i fds s) clients.in_order m"
proof (induction fds arbitrary: i s m)
  case (Cons fd fds)
  have "on_turns (if readable (answered\<lparr>flags := revents\<rparr>) i then aio_ready c_start c_end i fd s else Ret s) clients.in_order m"
    using Cons.prems turns_ready fair_order by auto
  then show ?case unfolding aio_descriptors.simps always_bind
    by (rule always_mono) (rule Cons.IH)
qed (simp add: fair_order)

lemma turns_loop: "clients.in_order s m \<Longrightarrow> on_turns (aio_loop n fds revents s) (\<lambda>_ _. True) m"
proof (induction n arbitrary: s m revents)
  case (Suc n)
  have h: "on_turns (if res r = -1 \<and> num r = 4 then aio_sig_usr1_handler s else Ret s) clients.in_order m" for r :: resp
    using turns_handler [OF Suc.prems] Suc.prems fair_order [OF Suc.prems] by simp
  have d: "on_turns (aio_descriptors revents c_start c_end 0 fds t)
      (\<lambda>t. on_turns (aio_loop n fds revents t) (\<lambda>_ _. True)) m'" if "clients.in_order t m'" for revents c_start c_end t m'
    by (rule always_mono [OF turns_descriptors [OF that]]) (rule Suc.IH)
  show ?case
    unfolding aio_loop.simps Let_def always.simps always_bind
    by (intro conjI allI impI fair_order [OF Suc.prems]) (simp only: turns_other call.distinct simp_thms, rule always_mono [OF h], rule d)
qed (simp add: fair_order)

lemma turns_steady:
  "fair m \<Longrightarrow> on_turns p1_init (\<lambda>_ m'. m' = m) m" "fair m \<Longrightarrow> on_turns p2_init (\<lambda>_ m'. m' = m) m"
  "fair m \<Longrightarrow> on_turns p3_init (\<lambda>_ m'. m' = m) m" "fair m \<Longrightarrow> on_turns sock_tcp_init (\<lambda>_ m'. m' = m) m"
  by (auto simp: p1_init_def p2_init_def p3_init_def sock_tcp_init_def Let_def split: option.split)

lemma turns_bind: "on_turns p (\<lambda>_ m'. m' = m) m \<Longrightarrow> (\<And>a. on_turns (f a) Q m) \<Longrightarrow> on_turns (bind p f) Q m"
  unfolding always_bind by (erule always_mono) simp

lemma in_order_start: "clients.in_order aio_start ([], [])"
  by (simp add: clients.in_order_def aio_wf_def aio_waiting_def aio_start_def)

lemma turns_main: "on_turns (main_aio n g) (\<lambda>_ _. True) ([], [])"
proof -
  have f: "fair ([], [])" by (simp add: fair_def)
  show ?thesis
    unfolding main_aio_def
    by (auto simp: f intro!: turns_bind turns_steady turns_loop in_order_start)
qed

text \<open>Read off a trace: who was accepted, who was told to start.\<close>

definition accepted :: "trace \<Rightarrow> int list" where
  "accepted tr = concat (map (\<lambda>(c, r). case c of Accept fd \<Rightarrow> if res r = -1 then [] else [res r] | _ \<Rightarrow> []) tr)"

definition started :: "trace \<Rightarrow> int list" where
  "started tr = concat (map (\<lambda>(c, r). case c of Send fd b \<Rightarrow> if b = echo_start then [fd] else [] | _ \<Rightarrow> []) tr)"

lemma fold_turns: "fold turns tr m = (fst m @ accepted tr, snd m @ started tr)"
  by (induction tr arbitrary: m) (auto simp: accepted_def started_def turns_def split: call.split)

section \<open>Properties\<close>

text \<open>
  C33. First come, first served: at every moment of every run of the server, signals and failing
  calls included, the clients handed to the echo server are the first of those accepted, in the
  order in which they came.
\<close>

theorem aio_first_come_first_served:
  assumes "performs (main_aio n g) tr"
  shows "prefix (started tr) (accepted tr)"
  using always_holds [OF turns_main assms] by (simp add: fold_turns fair_def)

section \<open>Witness\<close>

text \<open>A client is accepted, then the signal comes.\<close>

theorem aio_first_come_first_served_witness:
  "\<exists>tr. performs (main_aio 2 []) tr \<and> accepted tr = [11] \<and> started tr = [11] \<and> prefix (started tr) (accepted tr)"
proof -
  define ok where "ok v = answered\<lparr>res := v, num := v\<rparr>" for v :: int
  define pr where "pr = answered\<lparr>rights := [3, 4]\<rparr>"
  define rd where "rd = answered\<lparr>res := 1, flags := [1, 0, 0, 0, 0]\<rparr>"
  define intr where "intr = answered\<lparr>res := -1, num := 4\<rparr>"
  let ?fds = "[8, 0, 3, 5, 6]"
  let ?tr = "[(Signal SIGUSR1, ok 0), (Getpid, ok 7), (Print ''My pid is %d'' [D 7], ok 0), (Pipe, pr), (Fork, ok 9),
    (Print ''p1_init() returned %d'' [D 3], ok 0), (Mkfifo ''/tmp/aio-fifo'', ok 0), (OpenFile ''/tmp/aio-fifo'', ok 5),
    (Print ''p2_init() returned %d'' [D 5], ok 0), (Popen (bytes_of ''./P3.exe''), ok 6), (Print ''p3_init() returned %d'' [D 6], ok 0),
    (Socket AF_INET SOCK_STREAM 0, ok 8), (Setsockopt 8, ok 0), (Bind 8 (AddrIn (port_of 8080) localhost), ok 0), (Listen 8 5, ok 0),
    (Print ''init done'' [], ok 0), (Poll ?fds, rd), (Accept 8, ok 11), (Print ''Client accepted'' [], ok 0), (Poll ?fds, intr),
    (Send 11 echo_start, ok 20)]"
  have p: "performs (main_aio 2 []) ?tr"
    by (simp add: main_aio_def p1_init_def p2_init_def p3_init_def sock_tcp_init_def Let_def performs_Call numeral_2_eq_2
        ok_def pr_def rd_def intr_def answered_def readable_def aio_ready_def add_client_def aio_start_def
        aio_sig_usr1_handler_def client_at_def performs.start)
  have "prefix (started ?tr) (accepted ?tr)" by (rule aio_first_come_first_served [OF p])
  moreover have "accepted ?tr = [11]" "started ?tr = [11]" by (simp_all add: accepted_def started_def ok_def answered_def)
  ultimately show ?thesis using p by blast
qed

end
