(* ===== verification/Hamming.thy ===== *)
theory Hamming
  imports Unix
begin

text \<open>
  The Hamming code: 12-2-22/HammingCode/gen.cpp computes the code of a string of zeros and ones,
  check.cpp finds and corrects a flipped bit, and hammingcode/hamming.cpp of the RPC practice
  computes the code of a vector of integers.  Positions count from one; those that are a power of
  two hold the parity bits.  The strings are short enough for their lengths to be \<open>int\<close>s;
  \<open>pow\<close> and \<open>log2\<close> are exact on them.
\<close>

section \<open>gen.cpp\<close>

text \<open>\<open>while (pow(2, r) < l + r + 1) r++;\<close>\<close>

function redundant :: "nat \<Rightarrow> nat \<Rightarrow> nat" where
  "redundant l r = (if 2 ^ r < l + r + 1 then redundant l (Suc r) else r)"
  by pat_completeness auto

lemma less_exp_bound: "2 ^ r < l + r + 1 \<Longrightarrow> r < l + 2"
proof (rule ccontr)
  assume a: "2 ^ r < l + r + 1" "\<not> r < l + 2"
  then obtain s where s: "r = Suc s" by (cases r) auto
  have "s < 2 ^ s" by (rule less_exp)
  with a s show False by simp
qed

termination redundant
proof (relation "measure (\<lambda>(l, r). l + 2 - r)")
  fix l r :: nat
  assume "2 ^ r < l + r + 1"
  from less_exp_bound [OF this] show "((l, Suc r), (l, r)) \<in> measure (\<lambda>(l, r). l + 2 - r)" by simp
qed simp

declare redundant.simps [simp del]

definition hammingLength :: "nat \<Rightarrow> nat" where
  "hammingLength l = l + redundant l 0"

text \<open>The characters 0, 1 and -.\<close>

abbreviation (input) ch0 :: u8 where "ch0 \<equiv> 48"
abbreviation (input) ch1 :: u8 where "ch1 \<equiv> 49"
abbreviation (input) dash :: u8 where "dash \<equiv> 45"

text \<open>\<open>b[i]\<close> of a \<open>std::string\<close>: reading at the length is the null character, writing there and
  everything beyond is undefined.\<close>

definition at_string :: "bytes \<Rightarrow> nat \<Rightarrow> u8 option" where
  "at_string b i = (if i < length b then Some (b ! i) else if i = length b then Some 0 else None)"

definition set_string :: "nat \<Rightarrow> u8 \<Rightarrow> bytes \<Rightarrow> bytes option" where
  "set_string i c hc = (if i < length hc then Some (hc[i := c]) else None)"

fun fill_data :: "bytes \<Rightarrow> nat list \<Rightarrow> nat \<Rightarrow> bytes \<Rightarrow> bytes option" where
  "fill_data b [] idx hc = Some hc"
| "fill_data b (i # is) idx hc =
     (if (i + 1) AND i \<noteq> 0 then
        Option.bind (at_string b idx) (\<lambda>c.
        Option.bind (set_string i c hc) (fill_data b is (idx + 1)))
      else fill_data b is idx hc)"

definition one_count :: "nat \<Rightarrow> bytes \<Rightarrow> nat" where
  "one_count check hc = fold (\<lambda>j n. if (j + 1) AND check \<noteq> 0 \<and> hc ! j = ch1 then n + 1 else n) [0..<length hc] 0"

fun fill_checks :: "nat list \<Rightarrow> bytes \<Rightarrow> bytes option" where
  "fill_checks [] hc = Some hc"
| "fill_checks (i # is) hc =
     (let check = 2 ^ i in
      Option.bind (set_string (check - 1) (if one_count check hc mod 2 = 1 then ch1 else ch0) hc) (fill_checks is))"

definition hammingCodeGen :: "bytes \<Rightarrow> bytes sys" where
  "hammingCodeGen b =
     (let l = length b; hl = hammingLength l in
      need (fill_data b [0..<hl] 0 (replicate hl dash)) (\<lambda>hc.
      Call (Print ''Intermediate hamming code: %s'' [S hc]) (\<lambda>_.
      need (fill_checks [0..<hl - l] hc) Ret)))"

definition main_gen :: "int sys" where
  "main_gen =
     Call (Print ''Enter a binary string: '' []) (\<lambda>_.
     Call ScanStr (\<lambda>r.
     bind (hammingCodeGen (data r)) (\<lambda>hammingCode.
     Call (Print ''Hamming Code: %s'' [S hammingCode]) (\<lambda>_. Ret 0))))"

section \<open>check.cpp\<close>

definition flipped :: "u8 \<Rightarrow> u8" where
  "flipped c = (if c = ch1 then ch0 else ch1)"

definition mutated_bit :: "bytes \<Rightarrow> nat" where
  "mutated_bit hc = fold (\<lambda>i m. if (i + 1) AND i = 0 \<and> one_count (i + 1) hc mod 2 = 1 then m + (i + 1) else m)
     [0..<length hc] 0"

definition checkAndCorrect :: "bytes \<Rightarrow> bytes sys" where
  "checkAndCorrect hc =
     (let m = mutated_bit hc in
      if m = 0 then Call (Print ''The hamming code does not have any errors'' []) (\<lambda>_. Ret hc)
      else Call (Print ''Error detected at bit %d'' [D (int m)]) (\<lambda>_.
        need (at_string hc (m - 1)) (\<lambda>c. need (set_string (m - 1) (flipped c) hc) Ret)))"

text \<open>\<open>hammingCode[bit - 1]\<close> with an \<open>int\<close> read from the user: a negative index is a huge one.\<close>

definition flip_bit_at :: "int \<Rightarrow> bytes \<Rightarrow> bytes option" where
  "flip_bit_at k hc =
     (if k = 0 then Some hc
      else if k < 1 then None
      else Option.bind (at_string hc (nat k - 1)) (\<lambda>c. set_string (nat k - 1) (flipped c) hc))"

definition main_check :: "int sys" where
  "main_check =
     Call (Print ''Enter the hamming Code to check: '' []) (\<lambda>_.
     Call ScanStr (\<lambda>r. let hammingCode = data r in
     Call (Print ''Enter any bit(1 - %d) to flip, or 0 to skip: '' [D (int (length hammingCode))]) (\<lambda>_.
     Call ScanInt (\<lambda>r.
     need (flip_bit_at (num r) hammingCode) (\<lambda>hammingCode.
     bind (checkAndCorrect hammingCode) (\<lambda>corrected.
     Call (Print ''The corrected hamming code is: %s'' [S corrected]) (\<lambda>_. Ret 0)))))))"

section \<open>hamming.cpp\<close>

text \<open>On vectors of \<open>int\<close>s, -1 marks the positions of the parity bits.\<close>

fun mark_checks :: "nat list \<Rightarrow> int list \<Rightarrow> int list option" where
  "mark_checks [] code = Some code"
| "mark_checks (i # is) code =
     (if 2 ^ i - 1 < length code then mark_checks is (code[2 ^ i - 1 := -1]) else None)"

fun place_message :: "int list \<Rightarrow> nat list \<Rightarrow> nat \<Rightarrow> int list \<Rightarrow> int list option" where
  "place_message msgBits [] j code = Some code"
| "place_message msgBits (i # is) j code =
     (if code ! i \<noteq> -1 then
        (if j < length msgBits then place_message msgBits is (j + 1) (code[i := msgBits ! j]) else None)
      else place_message msgBits is j code)"

text \<open>\<open>log2(i + 1)\<close> rounded down, \<open>j & (1 << x)\<close>.\<close>

fun log2 :: "nat \<Rightarrow> nat" where
  "log2 n = (if n < 2 then 0 else Suc (log2 (n div 2)))"

definition ones_above :: "nat \<Rightarrow> int list \<Rightarrow> nat" where
  "ones_above i code = (let x = log2 (i + 1) in
     fold (\<lambda>j n. if j AND 2 ^ x \<noteq> 0 \<and> code ! (j - 1) = 1 then n + 1 else n) [i + 2..<length code + 1] 0)"

fun set_checks :: "nat list \<Rightarrow> int list \<Rightarrow> int list" where
  "set_checks [] code = code"
| "set_checks (i # is) code =
     (if code ! i \<noteq> -1 then set_checks is code
      else set_checks is (code[i := if ones_above i code mod 2 = 0 then 0 else 1]))"

definition generateHammingCode :: "int list \<Rightarrow> nat \<Rightarrow> nat \<Rightarrow> int list option" where
  "generateHammingCode msgBits m r =
     Option.bind (mark_checks [0..<r] (replicate (r + m) 0)) (\<lambda>code.
     Option.bind (place_message msgBits [0..<r + m] 0 code) (\<lambda>code.
     Some (set_checks [0..<r + m] code)))"

fun print_ints :: "int list \<Rightarrow> unit sys" where
  "print_ints [] = Ret ()"
| "print_ints (x # xs) = Call (Print ''%d '' [D x]) (\<lambda>_. print_ints xs)"

definition findHammingCode :: "int list \<Rightarrow> unit sys" where
  "findHammingCode msgBit =
     (let m = length msgBit; r = redundant m 1 in
      need (generateHammingCode msgBit m r) (\<lambda>ans.
      Call (Print ''Message bits are: '' []) (\<lambda>_.
      bind (print_ints msgBit) (\<lambda>_.
      Call (Print ''Hamming code is: '' []) (\<lambda>_.
      print_ints ans)))))"

definition main_hamming :: "int sys" where
  "main_hamming = bind (findHammingCode [0, 1, 0, 1]) (\<lambda>_. Ret 0)"

section \<open>Powers of two\<close>

lemma and_pred_even: "(2 * m + 1) AND (2 * m) = (2 * m :: nat)"
  by (simp add: and_rec [of "Suc (2 * m)"])

lemma pow2_iff: "(i + 1) AND i = 0 \<longleftrightarrow> (\<exists>k. i + 1 = (2::nat) ^ k)"
proof (induction i rule: less_induct)
  case (less i)
  show ?case
  proof (cases "even i")
    case True
    then obtain m where m: "i = 2 * m" by blast
    have "(i + 1) AND i = i" using and_pred_even [of m] by (simp add: m)
    moreover have "(\<exists>k. i + 1 = 2 ^ k) \<longleftrightarrow> i = 0"
    proof
      assume "\<exists>k. i + 1 = 2 ^ k"
      then obtain k where k: "i + 1 = 2 ^ k" by blast
      with True have "odd ((2::nat) ^ k)" by presburger
      then show "i = 0" using k by simp
    qed (auto intro: exI [of _ 0])
    ultimately show ?thesis by simp
  next
    case False
    then obtain m where m: "i = 2 * m + 1" by (auto elim: oddE)
    have "(i + 1) AND i = 2 * ((m + 1) AND m)" by (simp add: m and_rec [of "Suc (Suc (2 * m))"])
    moreover have "(\<exists>k. i + 1 = 2 ^ k) \<longleftrightarrow> (\<exists>k. m + 1 = 2 ^ k)"
    proof
      assume "\<exists>k. i + 1 = 2 ^ k"
      then obtain k where k: "i + 1 = 2 ^ k" by blast
      then obtain k' where "k = Suc k'" using m by (cases k) auto
      with k m show "\<exists>k. m + 1 = 2 ^ k" by (intro exI [of _ k']) simp
    next
      assume "\<exists>k. m + 1 = 2 ^ k"
      then obtain k where "m + 1 = 2 ^ k" by blast
      then show "\<exists>k. i + 1 = 2 ^ k" using m by (intro exI [of _ "Suc k"]) simp
    qed
    ultimately show ?thesis using less.IH [of m] m by simp
  qed
qed

text \<open>The number of parity bits is minimal.\<close>

lemma redundant_spec:
  "l + redundant l r < 2 ^ redundant l r \<and> (\<forall>k. r \<le> k \<and> k < redundant l r \<longrightarrow> 2 ^ k \<le> l + k) \<and> r \<le> redundant l r"
proof (induction l r rule: redundant.induct)
  case (1 l r)
  show ?case
  proof (cases "2 ^ r < l + r + 1")
    case True
    then have e: "redundant l r = redundant l (Suc r)" by (simp add: redundant.simps [of l r])
    have "2 ^ r \<le> l + r" using True by simp
    from 1 [OF True] have ih: "l + redundant l r < 2 ^ redundant l r" "Suc r \<le> redundant l r"
      "\<And>k. Suc r \<le> k \<Longrightarrow> k < redundant l r \<Longrightarrow> 2 ^ k \<le> l + k" by (simp_all add: e)
    have "2 ^ k \<le> l + k" if "r \<le> k" "k < redundant l r" for k
      using that ih(3) [of k] \<open>2 ^ r \<le> l + r\<close> by (cases "k = r") auto
    with ih(1,2) show ?thesis by simp
  next
    case False
    then have e: "redundant l r = r" by (simp add: redundant.simps [of l r])
    show ?thesis using False unfolding e by simp
  qed
qed

lemma redundant_checks: "2 ^ k \<le> l + redundant l 0 \<longleftrightarrow> k < redundant l 0"
proof
  assume "k < redundant l 0"
  then have "2 ^ k \<le> l + k" using redundant_spec [of l 0] by simp
  with \<open>k < redundant l 0\<close> show "2 ^ k \<le> l + redundant l 0" by linarith
next
  assume a: "2 ^ k \<le> l + redundant l 0"
  show "k < redundant l 0"
  proof (rule ccontr)
    assume "\<not> k < redundant l 0"
    then have "(2::nat) ^ redundant l 0 \<le> 2 ^ k" by (intro power_increasing) auto
    then show False using a redundant_spec [of l 0] by linarith
  qed
qed

section \<open>Parities\<close>

text \<open>The ones among the positions with bit \<open>k\<close>.\<close>

definition ones :: "nat \<Rightarrow> bytes \<Rightarrow> nat" where
  "ones k hc = (\<Sum>j<length hc. of_bool (bit (Suc j) k \<and> hc ! j = ch1))"

lemma fold_count: "fold (\<lambda>j n. if P j then n + 1 else n) xs a = a + length (filter P xs)"
  by (induction xs arbitrary: a) auto

lemma length_filter_upt: "length (filter P [0..<n]) = (\<Sum>j<n. of_bool (P j))"
  by (induction n) auto

lemma one_count_ones: "one_count (2 ^ k) hc = ones k hc"
  unfolding one_count_def fold_count length_filter_upt ones_def
  by (simp add: and_exp_eq_0_iff_not_bit)

lemma ones_update:
  assumes "p < length hc"
  shows "ones k (hc[p := c]) + of_bool (bit (Suc p) k \<and> hc ! p = ch1) = ones k hc + of_bool (bit (Suc p) k \<and> c = ch1)"
proof -
  have e: "(\<Sum>j \<in> {..<length hc} - {p}. of_bool (bit (Suc j) k \<and> hc[p := c] ! j = ch1) :: nat)
      = (\<Sum>j \<in> {..<length hc} - {p}. of_bool (bit (Suc j) k \<and> hc ! j = ch1))"
    by (intro sum.cong) auto
  have r: "ones k h = of_bool (bit (Suc p) k \<and> h ! p = ch1) + (\<Sum>j \<in> {..<length hc} - {p}. of_bool (bit (Suc j) k \<and> h ! j = ch1))"
    if "length h = length hc" for h
    unfolding ones_def that using assms by (subst sum.remove [of _ p]) auto
  show ?thesis using r [of hc] r [of "hc[p := c]"] e assms by simp
qed

lemma odd_ones_flipped:
  "p < length hc \<Longrightarrow> hc ! p \<in> {ch0, ch1} \<Longrightarrow>
   odd (ones k (hc[p := flipped (hc ! p)])) \<longleftrightarrow> odd (ones k hc) \<noteq> bit (Suc p) k"
  using arg_cong [OF ones_update [of p hc k "flipped (hc ! p)"], of even] by (auto simp: flipped_def)

lemma exp_pred_less: "2 ^ k \<le> n \<Longrightarrow> 2 ^ k - Suc 0 < (n :: nat)"
  by (rule less_le_trans [of _ "2 ^ k"]) simp_all

lemma inj_pow2_pred: "inj_on (\<lambda>k. 2 ^ k - 1 :: nat) A"
proof (rule inj_onI)
  fix x y assume "2 ^ x - 1 = (2 ^ y - 1 :: nat)"
  then have "2 ^ x = (2 ^ y :: nat)" by (metis Suc_diff_1 zero_less_numeral zero_less_power)
  then show "x = y" by simp
qed

lemma bit_exp: "bit ((2::nat) ^ m) k \<longleftrightarrow> m = k"
  by (auto simp: bit_exp_iff)

section \<open>The code\<close>

definition data_idx :: "nat list \<Rightarrow> nat list" where
  "data_idx is = filter (\<lambda>i. (i + 1) AND i \<noteq> 0) is"

lemma data_idx_Cons: "data_idx (i # is) = (if (i + 1) AND i \<noteq> 0 then i # data_idx is else data_idx is)"
  by (simp add: data_idx_def)

lemma data_idx_iff: "i \<in> set (data_idx is) \<longleftrightarrow> i \<in> set is \<and> (\<forall>k. i + 1 \<noteq> 2 ^ k)"
  using pow2_iff [of i] by (auto simp: data_idx_def)

lemma fill_data_spec:
  "distinct is \<Longrightarrow> (\<forall>i \<in> set is. i < length hc) \<Longrightarrow> idx + length (data_idx is) \<le> length b \<Longrightarrow>
   \<exists>hc'. fill_data b is idx hc = Some hc' \<and> length hc' = length hc \<and> (\<forall>i. i \<notin> set (data_idx is) \<longrightarrow> hc' ! i = hc ! i) \<and>
     map ((!) hc') (data_idx is) = take (length (data_idx is)) (drop idx b)"
proof (induction "is" arbitrary: idx hc)
  case Nil
  then show ?case by (simp add: data_idx_def)
next
  case (Cons i "is")
  show ?case
  proof (cases "(i + 1) AND i = 0")
    case True
    then show ?thesis using Cons.IH [of hc idx] Cons.prems by (simp add: data_idx_Cons)
  next
    case False
    have len: "idx < length b" "Suc idx + length (data_idx is) \<le> length b" using Cons.prems(3) False by (simp_all add: data_idx_Cons)
    have i: "i < length hc" "i \<notin> set (data_idx is)" using Cons.prems(1,2) by (auto simp: data_idx_def)
    obtain hc' where h: "fill_data b is (Suc idx) (hc[i := b ! idx]) = Some hc'" "length hc' = length hc"
        "\<And>j. j \<notin> set (data_idx is) \<Longrightarrow> hc' ! j = hc[i := b ! idx] ! j"
        "map ((!) hc') (data_idx is) = take (length (data_idx is)) (drop (Suc idx) b)"
      using Cons.IH [of "hc[i := b ! idx]" "Suc idx"] Cons.prems(1,2) len(2) by auto
    have "hc' ! i = b ! idx" using h(3) [OF i(2)] i(1) by simp
    moreover have "drop idx b = b ! idx # drop (Suc idx) b" using len(1) by (simp add: Cons_nth_drop_Suc)
    ultimately show ?thesis using False h len(1) i
      by (intro exI [of _ hc']) (auto simp: data_idx_Cons at_string_def set_string_def)
  qed
qed

lemma fill_checks_spec:
  "(\<And>k. m \<le> k \<Longrightarrow> k < m + d \<Longrightarrow> 2 ^ k \<le> length hc \<and> hc ! (2 ^ k - 1) \<noteq> ch1) \<Longrightarrow>
   \<exists>hc'. fill_checks [m..<m + d] hc = Some hc' \<and> length hc' = length hc \<and>
     (\<forall>i. (\<forall>k. m \<le> k \<and> k < m + d \<longrightarrow> i + 1 \<noteq> 2 ^ k) \<longrightarrow> hc' ! i = hc ! i) \<and>
     (\<forall>k. m \<le> k \<and> k < m + d \<longrightarrow> even (ones k hc') \<and> hc' ! (2 ^ k - 1) \<in> {ch0, ch1}) \<and>
     (\<forall>k<m. ones k hc' = ones k hc)"
proof (induction d arbitrary: m hc)
  case 0
  then show ?case by (intro exI [of _ hc]) auto
next
  case (Suc d)
  define p :: nat where "p = 2 ^ m - 1"
  define c where "c = (if one_count (2 ^ m) hc mod 2 = 1 then ch1 else ch0)"
  have "2 ^ m \<le> length hc \<and> hc ! (2 ^ m - 1) \<noteq> ch1" by (rule Suc.prems) simp_all
  then have p: "Suc p = 2 ^ m" "p < length hc" "hc ! p \<noteq> ch1" by (simp_all add: p_def exp_pred_less)
  have other: "2 ^ k - 1 \<noteq> p" if "k \<noteq> m" for k
    using that p(1) inj_pow2_pred [of UNIV] by (auto simp: p_def dest: injD)
  have o: "ones k (hc[p := c]) = ones k hc" if "k \<noteq> m" for k
    using ones_update [OF p(2), of k c] that by (simp add: p(1) bit_exp)
  have "ones m (hc[p := c]) = ones m hc + of_bool (c = ch1)"
    using ones_update [OF p(2), of m c] p(3) by (simp add: p(1) bit_exp)
  then have e: "even (ones m (hc[p := c]))"
    by (auto simp: c_def one_count_ones odd_iff_mod_2_eq_one)
  have pre: "2 ^ k \<le> length (hc[p := c]) \<and> hc[p := c] ! (2 ^ k - 1) \<noteq> ch1" if "Suc m \<le> k" "k < Suc m + d" for k
    using Suc.prems [of k] other [of k] that by (simp add: nth_list_update_neq)
  obtain hc' where ih: "fill_checks [Suc m..<Suc m + d] (hc[p := c]) = Some hc' \<and> length hc' = length (hc[p := c]) \<and>
     (\<forall>i. (\<forall>k. Suc m \<le> k \<and> k < Suc m + d \<longrightarrow> i + 1 \<noteq> 2 ^ k) \<longrightarrow> hc' ! i = hc[p := c] ! i) \<and>
     (\<forall>k. Suc m \<le> k \<and> k < Suc m + d \<longrightarrow> even (ones k hc') \<and> hc' ! (2 ^ k - 1) \<in> {ch0, ch1}) \<and>
     (\<forall>k<Suc m. ones k hc' = ones k (hc[p := c]))"
    using Suc.IH [OF pre] by blast
  then have h: "fill_checks [Suc m..<Suc m + d] (hc[p := c]) = Some hc'" "length hc' = length hc"
      "\<And>i. (\<forall>k. Suc m \<le> k \<and> k < Suc m + d \<longrightarrow> i + 1 \<noteq> 2 ^ k) \<Longrightarrow> hc' ! i = hc[p := c] ! i"
      "\<And>k. Suc m \<le> k \<Longrightarrow> k < Suc m + d \<Longrightarrow> even (ones k hc') \<and> hc' ! (2 ^ k - 1) \<in> {ch0, ch1}"
      "\<And>k. k < Suc m \<Longrightarrow> ones k hc' = ones k (hc[p := c])"
    by simp_all
  have hp: "hc' ! p = c" using h(3) [of p] p by (simp add: power_inject_exp)
  have l: "[m..<m + Suc d] = m # [Suc m..<Suc m + d]" by (simp add: upt_conv_Cons)
  show ?case
  proof (intro exI [of _ hc'] conjI allI impI)
    show "fill_checks [m..<m + Suc d] hc = Some hc'"
      unfolding l using h(1) p(2) by (simp add: Let_def set_string_def p_def [symmetric] c_def del: One_nat_def)
    fix i :: nat
    assume "\<forall>k. m \<le> k \<and> k < m + Suc d \<longrightarrow> i + 1 \<noteq> 2 ^ k"
    then show "hc' ! i = hc ! i" using h(3) [of i] p(1) by (auto simp: nth_list_update)
  next
    fix k assume k: "m \<le> k \<and> k < m + Suc d"
    show "even (ones k hc')" using k h(4) [of k] h(5) [of m] e by (cases "k = m") auto
    show "hc' ! (2 ^ k - 1) \<in> {ch0, ch1}"
      using k h(4) [of k] hp by (cases "k = m") (auto simp: p_def c_def)
  qed (use h(2,5) o in auto)
qed

section \<open>The syndrome\<close>

lemma pow2_positions:
  assumes "\<And>k. 2 ^ k \<le> (n :: nat) \<longleftrightarrow> k < R"
  shows "{i. i < n \<and> (i + 1) AND i = 0} = (\<lambda>k. 2 ^ k - 1) ` {..<R}"
proof (intro equalityI subsetI)
  fix i :: nat assume "i \<in> {i. i < n \<and> (i + 1) AND i = 0}"
  then obtain k where k: "i + 1 = (2::nat) ^ k" "i < n" using pow2_iff [of i] by auto
  then have "2 ^ k \<le> n" by simp
  with k assms show "i \<in> (\<lambda>k. 2 ^ k - 1) ` {..<R}" by (intro image_eqI [of _ _ k]) auto
next
  fix i :: nat assume "i \<in> (\<lambda>k. 2 ^ k - 1) ` {..<R}"
  then obtain k where k: "k < R" "i = 2 ^ k - 1" by blast
  with assms [of k] show "i \<in> {i. i < n \<and> (i + 1) AND i = 0}"
    using pow2_iff [of i] by (auto simp: exp_pred_less)
qed

lemma fold_add: "fold (\<lambda>i m. if P i then m + f i else m) xs a = a + (\<Sum>i\<leftarrow>xs. if P i then f i else (0::nat))"
  by (induction xs arbitrary: a) auto

lemma mutated_bit_sum:
  assumes "\<And>k. 2 ^ k \<le> length hc \<longleftrightarrow> k < R"
  shows "mutated_bit hc = (\<Sum>k<R. of_bool (odd (ones k hc)) * 2 ^ k)"
proof -
  let ?P = "\<lambda>i. (i + 1) AND i = 0 \<and> one_count (i + 1) hc mod 2 = 1"
  have "mutated_bit hc = (\<Sum>i<length hc. if ?P i then i + 1 else 0)"
    unfolding mutated_bit_def fold_add interv_sum_list_conv_sum_set_nat by (simp add: lessThan_atLeast0)
  also have "\<dots> = (\<Sum>i \<in> {i. i < length hc \<and> (i + 1) AND i = 0}. if ?P i then i + 1 else 0)"
    by (rule sum.mono_neutral_right) auto
  also have "\<dots> = (\<Sum>k<R. if ?P (2 ^ k - 1) then 2 ^ k - 1 + 1 else 0)"
    unfolding pow2_positions [OF assms] by (simp add: sum.reindex [OF inj_pow2_pred] del: One_nat_def)
  also have "\<dots> = (\<Sum>k<R. of_bool (odd (ones k hc)) * 2 ^ k)"
  proof (intro sum.cong refl)
    fix k
    have s: "2 ^ k - 1 + 1 = (2 ^ k :: nat)" by simp
    then have "(2 ^ k - 1 + 1) AND (2 ^ k - 1) = (0 :: nat)" unfolding pow2_iff by blast
    then show "(if ?P (2 ^ k - 1) then 2 ^ k - 1 + 1 else 0 :: nat) = of_bool (odd (ones k hc)) * 2 ^ k"
      by (simp only: s one_count_ones odd_iff_mod_2_eq_one of_bool_def if_True if_False simp_thms split: if_splits) simp
  qed
  finally show ?thesis .
qed

text \<open>What \<open>hammingCodeGen\<close> produces.\<close>

definition codeword :: "nat \<Rightarrow> bytes \<Rightarrow> bool" where
  "codeword R hc \<longleftrightarrow> set hc \<subseteq> {ch0, ch1} \<and> (\<forall>k. 2 ^ k \<le> length hc \<longleftrightarrow> k < R) \<and> (\<forall>k<R. even (ones k hc))"

lemma codeword_nth: "codeword R hc \<Longrightarrow> p < length hc \<Longrightarrow> hc ! p \<in> {ch0, ch1}"
  using nth_mem [of p hc] unfolding codeword_def by blast

lemma syndrome_zero: "codeword R hc \<Longrightarrow> mutated_bit hc = 0"
  using mutated_bit_sum [of hc R] by (simp add: codeword_def)

lemma syndrome_flipped:
  assumes "codeword R hc" "p < length hc"
  shows "mutated_bit (hc[p := flipped (hc ! p)]) = p + 1"
proof -
  let ?h = "hc[p := flipped (hc ! p)]"
  have b: "hc ! p \<in> {ch0, ch1}" by (rule codeword_nth [OF assms])
  have "mutated_bit ?h = (\<Sum>k<R. of_bool (odd (ones k ?h)) * 2 ^ k)"
    using assms(1) by (intro mutated_bit_sum) (simp add: codeword_def)
  also have "\<dots> = (\<Sum>k<R. push_bit k (of_bool (bit (Suc p) k)))"
    using assms odd_ones_flipped [OF assms(2) b] by (intro sum.cong) (auto simp: codeword_def push_bit_eq_mult)
  also have "\<dots> = take_bit R (Suc p)"
    by (simp add: take_bit_sum atLeast0LessThan)
  also have "\<dots> = Suc p"
  proof -
    have "\<not> 2 ^ R \<le> length hc" using assms(1) by (simp add: codeword_def)
    then show ?thesis using assms(2) by (simp add: take_bit_nat_eq_self)
  qed
  finally show ?thesis by simp
qed

lemma flipped_flipped: "c \<in> {ch0, ch1} \<Longrightarrow> flipped (flipped c) = c"
  by (auto simp: flipped_def)

lemma check_codeword: "codeword R hc \<Longrightarrow>
  checkAndCorrect hc = Call (Print ''The hamming code does not have any errors'' []) (\<lambda>_. Ret hc)"
  by (simp add: checkAndCorrect_def syndrome_zero)

lemma check_flipped:
  assumes "codeword R hc" "p < length hc"
  shows "checkAndCorrect (hc[p := flipped (hc ! p)]) = Call (Print ''Error detected at bit %d'' [D (int p + 1)]) (\<lambda>_. Ret hc)"
proof -
  from flipped_flipped [OF codeword_nth [OF assms]] show ?thesis
    using assms(2) by (simp add: checkAndCorrect_def syndrome_flipped [OF assms] at_string_def set_string_def)
qed

lemma length_data_idx:
  assumes "\<And>k. 2 ^ k \<le> l + R \<longleftrightarrow> k < R"
  shows "length (data_idx [0..<l + R]) = l"
proof -
  have "length (filter (\<lambda>i. (i + 1) AND i = 0) [0..<l + R]) = card {i. i < l + R \<and> (i + 1) AND i = 0}"
    by (subst distinct_length_filter) (auto intro: arg_cong [of _ _ card])
  also have "\<dots> = R"
    unfolding pow2_positions [OF assms] by (simp add: card_image [OF inj_pow2_pred] del: One_nat_def)
  finally show ?thesis
    using sum_length_filter_compl [of "\<lambda>i. (i + 1) AND i = 0" "[0..<l + R]"] by (simp add: data_idx_def)
qed

lemma hammingCodeGen_codeword:
  assumes "set b \<subseteq> {ch0, ch1}"
  obtains hc0 hc where "hammingCodeGen b = Call (Print ''Intermediate hamming code: %s'' [S hc0]) (\<lambda>_. Ret hc)"
    "length hc = hammingLength (length b)" "map ((!) hc) (data_idx [0..<length hc]) = b" "codeword (redundant (length b) 0) hc"
proof -
  let ?l = "length b" and ?R = "redundant (length b) 0"
  let ?D = "data_idx [0..<?l + ?R]"
  note R = redundant_checks [of _ ?l]
  have d: "length ?D = ?l" by (rule length_data_idx) (rule R)
  obtain hc0 where h0: "fill_data b [0..<?l + ?R] 0 (replicate (?l + ?R) dash) = Some hc0" "length hc0 = ?l + ?R"
      "\<And>i. i \<notin> set ?D \<Longrightarrow> hc0 ! i = replicate (?l + ?R) dash ! i" "map ((!) hc0) ?D = b"
    using fill_data_spec [of "[0..<?l + ?R]" "replicate (?l + ?R) dash" 0 b] d by auto
  have "2 ^ k \<le> length hc0 \<and> hc0 ! (2 ^ k - 1) \<noteq> ch1" if "k < ?R" for k
  proof -
    have k: "2 ^ k \<le> ?l + ?R" using that R by simp
    then have "2 ^ k - 1 < ?l + ?R" using exp_pred_less by simp
    moreover have "2 ^ k - 1 \<notin> set ?D" by (auto simp: data_idx_iff)
    ultimately show ?thesis using k h0(2,3) by simp
  qed
  then obtain hc where h: "fill_checks [0..<0 + ?R] hc0 = Some hc" "length hc = length hc0"
      "\<And>i. (\<forall>k. k < ?R \<longrightarrow> i + 1 \<noteq> 2 ^ k) \<Longrightarrow> hc ! i = hc0 ! i"
      "\<And>k. k < ?R \<Longrightarrow> even (ones k hc) \<and> hc ! (2 ^ k - 1) \<in> {ch0, ch1}"
    using fill_checks_spec [of 0 ?R hc0] by auto
  have "map ((!) hc) ?D = map ((!) hc0) ?D"
    using h(3) by (auto simp: data_idx_iff simp del: map_eq_conv intro!: map_cong)
  with h0(4) have same: "map ((!) hc) ?D = b" by simp
  have "hc ! i \<in> {ch0, ch1}" if i: "i < length hc" for i
  proof (cases "i \<in> set ?D")
    case True
    then have "hc ! i \<in> set (map ((!) hc) ?D)" by simp
    then have "hc ! i \<in> set b" by (simp only: same)
    then show ?thesis using assms by blast
  next
    case False
    then obtain k where k: "i + 1 = 2 ^ k" using i h(2) h0(2) by (auto simp: data_idx_iff)
    moreover have "2 ^ k \<le> ?l + ?R" using i k h(2) h0(2) by simp
    then have "k < ?R" using R by simp
    ultimately show ?thesis using h(4) [of k] by (metis add_diff_cancel_right')
  qed
  then have "set hc \<subseteq> {ch0, ch1}" by (metis in_set_conv_nth subsetI)
  then have "codeword ?R hc" using h(2,4) h0(2) R by (simp add: codeword_def)
  moreover have "hammingCodeGen b = Call (Print ''Intermediate hamming code: %s'' [S hc0]) (\<lambda>_. Ret hc)"
    using h0(1) h(1) by (simp add: hammingCodeGen_def hammingLength_def)
  ultimately show ?thesis using that same h(2) h0(2) by (simp add: hammingLength_def)
qed

section \<open>The vector version computes the same code\<close>

definition glyph :: "int \<Rightarrow> u8" where
  "glyph x = (if x = 1 then ch1 else if x = 0 then ch0 else dash)"

lemma glyph_simps [simp]: "glyph 0 = ch0" "glyph 1 = ch1" "glyph (-1) = dash" "glyph x = ch1 \<longleftrightarrow> x = 1"
  by (simp_all add: glyph_def)

lemma log2_exp: "log2 (2 ^ m) = m"
proof (induction m)
  case (Suc m)
  have "log2 (2 ^ Suc m) = Suc (log2 (2 ^ Suc m div 2))" by (subst log2.simps) simp
  with Suc show ?case by (simp del: log2.simps)
qed simp

declare log2.simps [simp del]

lemma ones_above_ones:
  assumes "i + 1 = 2 ^ m" "i < length code" "code ! i \<noteq> 1"
  shows "ones_above i code = ones m (map glyph code)"
proof -
  let ?P = "\<lambda>j. bit (Suc j) m \<and> code ! j = 1"
  have "filter ?P [0..<i + 1] = []"
  proof (rule filter_False, rule ballI)
    fix j assume "j \<in> set [0..<i + 1]"
    then have "j = i \<or> Suc j < 2 ^ m" using assms(1) by auto
    then show "\<not> ?P j" using assms(3) by (auto simp: bit_nat_iff bit_iff_odd)
  qed
  moreover have "[0..<length code] = [0..<i + 1] @ [i + 1..<length code]"
  proof -
    obtain e where "length code = i + 1 + e" using assms(2) by (auto dest: less_imp_Suc_add)
    with upt_add_eq_append [of 0 "i + 1" e] show ?thesis by (simp del: upt_Suc)
  qed
  ultimately have "length (filter ?P [0..<length code]) = length (filter ?P [i + 1..<length code])"
    by (simp only: filter_append append_Nil)
  moreover have "[i + 2..<length code + 1] = map Suc [i + 1..<length code]" by (simp add: map_Suc_upt)
  ultimately show ?thesis
    unfolding ones_above_def Let_def fold_count assms(1) log2_exp ones_def
    by (simp add: filter_map comp_def and_exp_eq_0_iff_not_bit length_filter_upt)
qed

lemma mark_checks_spec:
  "(\<And>k. m \<le> k \<Longrightarrow> k < m + d \<Longrightarrow> 2 ^ k \<le> length code) \<Longrightarrow>
   \<exists>code'. mark_checks [m..<m + d] code = Some code' \<and> length code' = length code \<and>
     (\<forall>i<length code. code' ! i = (if \<exists>k. m \<le> k \<and> k < m + d \<and> i + 1 = 2 ^ k then -1 else code ! i))"
proof (induction d arbitrary: m code)
  case (Suc d)
  have p: "2 ^ m - 1 < length code" using Suc.prems [of m] exp_pred_less by simp
  have pre: "2 ^ k \<le> length (code[2 ^ m - 1 := -1])" if "Suc m \<le> k" "k < Suc m + d" for k
    using Suc.prems [of k] that by simp
  obtain code' where h: "mark_checks [Suc m..<Suc m + d] (code[2 ^ m - 1 := -1]) = Some code'" "length code' = length code"
      "\<And>i. i < length code \<Longrightarrow>
         code' ! i = (if \<exists>k. Suc m \<le> k \<and> k < Suc m + d \<and> i + 1 = 2 ^ k then -1 else code[2 ^ m - 1 := -1] ! i)"
    using Suc.IH [of "Suc m" "code[2 ^ m - 1 := -1]", OF pre] by auto
  have "[m..<m + Suc d] = m # [Suc m..<Suc m + d]" by (simp add: upt_conv_Cons)
  then have "mark_checks [m..<m + Suc d] code = Some code'" using p h(1) by (simp del: One_nat_def)
  moreover have "code' ! i = (if \<exists>k. m \<le> k \<and> k < m + Suc d \<and> i + 1 = 2 ^ k then -1 else code ! i)"
    if "i < length code" for i
  proof (cases "i + 1 = 2 ^ m")
    case True
    then have "i = 2 ^ m - 1" by simp
    then show ?thesis using h(3) [OF that] that True by auto
  next
    case False
    then have "i \<noteq> 2 ^ m - 1" by auto
    moreover have "(\<exists>k. m \<le> k \<and> k < m + Suc d \<and> i + 1 = 2 ^ k) \<longleftrightarrow> (\<exists>k. Suc m \<le> k \<and> k < Suc m + d \<and> i + 1 = 2 ^ k)"
      using False by (metis Suc_leI add_Suc_shift le_neq_implies_less Suc_leD)
    ultimately show ?thesis using h(3) [OF that] by (metis nth_list_update_neq)
  qed
  ultimately show ?case using h(2) by blast
qed auto

lemma place_message_spec:
  "distinct is \<Longrightarrow> (\<forall>i \<in> set is. i < length code \<and> (code ! i = -1 \<longleftrightarrow> (i + 1) AND i = 0)) \<Longrightarrow>
   j + length (data_idx is) \<le> length msg \<Longrightarrow>
   \<exists>code'. place_message msg is j code = Some code' \<and> length code' = length code \<and>
     (\<forall>i. i \<notin> set (data_idx is) \<longrightarrow> code' ! i = code ! i) \<and>
     map ((!) code') (data_idx is) = take (length (data_idx is)) (drop j msg)"
proof (induction "is" arbitrary: j code)
  case Nil
  then show ?case by (simp add: data_idx_def)
next
  case (Cons i "is")
  show ?case
  proof (cases "(i + 1) AND i = 0")
    case True
    then show ?thesis using Cons.IH [of code j] Cons.prems by (simp add: data_idx_Cons)
  next
    case False
    have len: "j < length msg" "Suc j + length (data_idx is) \<le> length msg" using Cons.prems(3) False by (simp_all add: data_idx_Cons)
    have i: "i < length code" "code ! i \<noteq> -1" "i \<notin> set (data_idx is)" "i \<notin> set is"
      using Cons.prems(1,2) False by (auto simp: data_idx_def)
    have pre: "\<forall>i' \<in> set is. i' < length (code[i := msg ! j]) \<and> (code[i := msg ! j] ! i' = -1 \<longleftrightarrow> (i' + 1) AND i' = 0)"
      using Cons.prems(2) i(4) by (auto simp: nth_list_update)
    obtain code' where h: "place_message msg is (Suc j) (code[i := msg ! j]) = Some code'" "length code' = length code"
        "\<And>i'. i' \<notin> set (data_idx is) \<Longrightarrow> code' ! i' = code[i := msg ! j] ! i'"
        "map ((!) code') (data_idx is) = take (length (data_idx is)) (drop (Suc j) msg)"
      using Cons.IH [OF _ pre len(2)] Cons.prems(1) by auto
    have "code' ! i = msg ! j" using h(3) [OF i(3)] i(1) by simp
    moreover have "drop j msg = msg ! j # drop (Suc j) msg" using len(1) by (simp add: Cons_nth_drop_Suc)
    ultimately show ?thesis using False h len(1) i
      by (intro exI [of _ code']) (auto simp: data_idx_Cons)
  qed
qed

text \<open>Going through all positions sets the parity bits in order.\<close>

lemma set_checks_spec:
  "i \<le> length code \<Longrightarrow> (\<And>k. 2 ^ k \<le> length code \<longleftrightarrow> k < R) \<Longrightarrow> (\<And>k. m \<le> k \<longleftrightarrow> i < 2 ^ k) \<Longrightarrow>
   (\<And>j. i \<le> j \<Longrightarrow> j < length code \<Longrightarrow> code ! j = -1 \<longleftrightarrow> (\<exists>k. j + 1 = 2 ^ k)) \<Longrightarrow>
   fill_checks [m..<R] (map glyph code) = Some (map glyph (set_checks [i..<length code] code))"
proof (induction "length code - i" arbitrary: i code m)
  case 0
  then have i: "i = length code" by simp
  have "\<not> 2 ^ R \<le> length code" "m \<le> R \<longleftrightarrow> i < 2 ^ R" "\<And>k. k < R \<Longrightarrow> 2 ^ k \<le> length code" "\<And>k. m \<le> k \<Longrightarrow> i < 2 ^ k"
    using 0 by auto
  then have "m = R" unfolding i by (metis le_neq_implies_less not_le order_refl)
  with i show ?case by simp
next
  case (Suc d)
  then have i: "i < length code" by simp
  have u: "[i..<length code] = i # [Suc i..<length code]" using i by (simp add: upt_conv_Cons)
  show ?case
  proof (cases "\<exists>k. i + 1 = 2 ^ k")
    case False
    then have s: "set_checks [i..<length code] code = set_checks [Suc i..<length code] code"
      using Suc.prems(4) [of i] i unfolding u by simp
    have mk: "m \<le> k \<longleftrightarrow> Suc i < 2 ^ k" for k
    proof -
      have "Suc i \<noteq> 2 ^ k" using False by auto
      then show ?thesis using Suc.prems(3) [of k] by auto
    qed
    show ?thesis unfolding s
    proof (rule Suc.hyps(1))
      show "d = length code - Suc i" "Suc i \<le> length code" using Suc.hyps(2) i by simp_all
      show "code ! j = -1 \<longleftrightarrow> (\<exists>k. j + 1 = 2 ^ k)" if "Suc i \<le> j" "j < length code" for j
        using Suc.prems(4) [of j] that by simp
    qed (rule Suc.prems(2) mk)+
  next
    case True
    then obtain k where k: "Suc i = 2 ^ k" by auto
    have "m \<le> k" using Suc.prems(3) [of k] k by simp
    moreover have "\<not> m < k"
    proof
      assume "m < k"
      then have "(2::nat) ^ m < 2 ^ k" by simp
      moreover have "i < 2 ^ m" using Suc.prems(3) [of m] by simp
      ultimately show False using k by linarith
    qed
    ultimately have km: "Suc i = 2 ^ m" "i = 2 ^ m - 1" using k by simp_all
    have "2 ^ m \<le> length code" using km(1) i by linarith
    then have "m < R" using Suc.prems(2) by simp
    then have um: "[m..<R] = m # [Suc m..<R]" by (simp add: upt_conv_Cons)
    have c: "code ! i = -1" using Suc.prems(4) [of i] i True by simp
    define v :: int where "v = (if ones_above i code mod 2 = 0 then 0 else 1)"
    let ?code = "code[i := v]"
    have o: "one_count (2 ^ m) (map glyph code) = ones_above i code"
      using ones_above_ones [of i m code] km(1) i c by (simp add: one_count_ones)
    have g: "map glyph ?code = (map glyph code)[i := if ones_above i code mod 2 = 1 then ch1 else ch0]"
      by (auto simp: map_update v_def)
    have "fill_checks [Suc m..<R] (map glyph ?code) = Some (map glyph (set_checks [Suc i..<length ?code] ?code))"
    proof (rule Suc.hyps(1))
      show "d = length ?code - Suc i" "Suc i \<le> length ?code" using Suc.hyps(2) i by simp_all
      show "2 ^ k \<le> length ?code \<longleftrightarrow> k < R" for k using Suc.prems(2) by simp
      show "Suc m \<le> k \<longleftrightarrow> Suc i < 2 ^ k" for k unfolding km(1) by (simp add: Suc_le_eq)
      show "?code ! j = -1 \<longleftrightarrow> (\<exists>k. j + 1 = 2 ^ k)" if "Suc i \<le> j" "j < length ?code" for j
        using Suc.prems(4) [of j] that by simp
    qed
    then show ?thesis
      unfolding um u using i c o g km
      by (cases "ones_above i code mod 2 = 0") (simp_all add: Let_def set_string_def v_def del: One_nat_def)
  qed
qed

text \<open>hamming.cpp on zeros and ones is gen.cpp on the same bits.\<close>

lemma redundant_0_1: "l \<noteq> 0 \<Longrightarrow> redundant l 1 = redundant l 0"
  by (simp add: redundant.simps [of l 0])

lemma generateHammingCode_codeGen:
  assumes "set msg \<subseteq> {0, 1}" "msg \<noteq> []"
  obtains hc0 ans where "generateHammingCode msg (length msg) (redundant (length msg) 1) = Some ans"
    "hammingCodeGen (map glyph msg) = Call (Print ''Intermediate hamming code: %s'' [S hc0]) (\<lambda>_. Ret (map glyph ans))"
proof -
  let ?l = "length msg"
  let ?R = "redundant ?l 0"
  let ?n = "?l + ?R"
  let ?D = "data_idx [0..<?n]"
  note R = redundant_checks [of _ ?l]
  have d: "length ?D = ?l" by (rule length_data_idx) (rule R)
  obtain c1 where c1: "mark_checks [0..<?R] (replicate ?n 0) = Some c1" "length c1 = ?n"
      "\<And>i. i < ?n \<Longrightarrow> c1 ! i = (if \<exists>k. k < ?R \<and> i + 1 = 2 ^ k then -1 else 0)"
  proof -
    have "2 ^ k \<le> length (replicate ?n (0 :: int))" if "k < 0 + ?R" for k using that R by simp
    from mark_checks_spec [of 0 ?R "replicate ?n 0", OF this] obtain c
      where c: "mark_checks [0..<0 + ?R] (replicate ?n 0) = Some c" "length c = length (replicate ?n (0 :: int))"
        "\<forall>i<length (replicate ?n (0 :: int)). c ! i = (if \<exists>k. 0 \<le> k \<and> k < 0 + ?R \<and> i + 1 = 2 ^ k then -1 else replicate ?n 0 ! i)"
      by blast
    show ?thesis
    proof (rule that)
      fix i assume "i < ?n"
      with c(3) show "c ! i = (if \<exists>k. k < ?R \<and> i + 1 = 2 ^ k then -1 else 0)" by simp
    qed (use c(1,2) in simp_all)
  qed
  have k: "(\<exists>k. k < ?R \<and> i + 1 = 2 ^ k) \<longleftrightarrow> (\<exists>k. i + 1 = 2 ^ k)" if "i < ?n" for i
  proof -
    have "k < ?R" if "i + 1 = 2 ^ k" for k
      using R [of k] that \<open>i < ?n\<close> by simp
    then show ?thesis by blast
  qed
  have m1: "c1 ! i = -1 \<longleftrightarrow> (i + 1) AND i = 0" if "i < ?n" for i
    using c1(3) [OF that] k [OF that] pow2_iff [of i] by simp
  obtain c2 where c2: "place_message msg [0..<?n] 0 c1 = Some c2" "length c2 = ?n"
      "\<And>i. i \<notin> set ?D \<Longrightarrow> c2 ! i = c1 ! i" "map ((!) c2) ?D = msg"
  proof -
    have "\<forall>i \<in> set [0..<?n]. i < length c1 \<and> (c1 ! i = -1 \<longleftrightarrow> (i + 1) AND i = 0)" using m1 c1(2) by simp
    from place_message_spec [OF distinct_upt this, of 0 msg] obtain c
      where c: "place_message msg [0..<?n] 0 c1 = Some c" "length c = length c1" "\<forall>i. i \<notin> set ?D \<longrightarrow> c ! i = c1 ! i"
        "map ((!) c) ?D = take (length ?D) (drop 0 msg)"
      using d by (metis add.left_neutral order_refl)
    show ?thesis by (rule that) (use c c1(2) d in simp_all)
  qed
  obtain hc0 where h0: "fill_data (map glyph msg) [0..<?n] 0 (replicate ?n dash) = Some hc0" "length hc0 = ?n"
      "\<And>i. i \<notin> set ?D \<Longrightarrow> hc0 ! i = replicate ?n dash ! i" "map ((!) hc0) ?D = map glyph msg"
  proof -
    have "\<forall>i \<in> set [0..<?n]. i < length (replicate ?n dash)" by simp
    from fill_data_spec [OF distinct_upt this, of 0 "map glyph msg"] obtain c
      where c: "fill_data (map glyph msg) [0..<?n] 0 (replicate ?n dash) = Some c" "length c = length (replicate ?n dash)"
        "\<forall>i. i \<notin> set ?D \<longrightarrow> c ! i = replicate ?n dash ! i" "map ((!) c) ?D = take (length ?D) (drop 0 (map glyph msg))"
      using d by (metis add.left_neutral order_refl length_map)
    show ?thesis by (rule that) (use c d in simp_all)
  qed
  have bits: "c2 ! i \<in> {0, 1}" if "i \<in> set ?D" for i
  proof -
    have "c2 ! i \<in> set (map ((!) c2) ?D)" using that by simp
    then have "c2 ! i \<in> set msg" by (simp only: c2(4))
    then show ?thesis using assms(1) by blast
  qed
  have same: "hc0 = map glyph c2"
  proof (rule nth_equalityI)
    show "length hc0 = length (map glyph c2)" using h0(2) c2(2) by simp
    fix i assume "i < length hc0"
    then have i: "i < ?n" using h0(2) by simp
    show "hc0 ! i = map glyph c2 ! i"
    proof (cases "i \<in> set ?D")
      case True
      have "map ((!) hc0) ?D = map glyph (map ((!) c2) ?D)" by (simp only: h0(4) c2(4))
      then have "map ((!) hc0) ?D = map (\<lambda>i. glyph (c2 ! i)) ?D" by (simp only: map_map comp_def)
      then have "hc0 ! i = glyph (c2 ! i)" using True unfolding map_eq_conv by blast
      then show ?thesis using i c2(2) by simp
    next
      case False
      then have "c1 ! i = -1" using m1 [OF i] i by (simp add: data_idx_def)
      then show ?thesis using h0(3) [OF False] c2(3) [OF False] i c2(2) by simp
    qed
  qed
  have "fill_checks [0..<?R] (map glyph c2) = Some (map glyph (set_checks [0..<length c2] c2))"
  proof (rule set_checks_spec)
    fix j assume "j < length c2"
    then have j: "j < ?n" using c2(2) by simp
    show "c2 ! j = -1 \<longleftrightarrow> (\<exists>k. j + 1 = 2 ^ k)"
    proof (cases "j \<in> set ?D")
      case True
      then show ?thesis using bits [OF True] by (auto simp: data_idx_iff)
    next
      case False
      then show ?thesis using c2(3) [OF False] m1 [OF j] pow2_iff [of j] by simp
    qed
  qed (use c2(2) R in auto)
  then have b: "hammingCodeGen (map glyph msg) = Call (Print ''Intermediate hamming code: %s'' [S hc0])
      (\<lambda>_. Ret (map glyph (set_checks [0..<?n] c2)))"
    using h0(1) c2(2) by (simp add: hammingCodeGen_def hammingLength_def Let_def same)
  have "generateHammingCode msg ?l (redundant ?l 1) = Some (set_checks [0..<?n] c2)"
    using c1(1) c2(1) redundant_0_1 [of ?l] assms(2) by (simp add: generateHammingCode_def add.commute [of ?R ?l])
  from that [OF this b] show ?thesis .
qed

section \<open>The programs\<close>

lemma hamming_corrects_from:
  assumes "codeword R hc" "0 \<le> k" "k \<le> int (length hc)"
  shows "\<exists>hc' m. flip_bit_at k hc = Some hc' \<and> checkAndCorrect hc' = Call m (\<lambda>_. Ret hc) \<and>
    m = (if k = 0 then Print ''The hamming code does not have any errors'' [] else Print ''Error detected at bit %d'' [D k])"
proof (cases "k = 0")
  case True
  then show ?thesis using check_codeword [OF assms(1)] by (simp add: flip_bit_at_def)
next
  case False
  then obtain p where p: "k = int p + 1" "nat k = Suc p" using assms(2)
    by (metis Suc_pred int_Suc nat_0_iff nat_int not_gr_zero of_nat_0_le_iff order_antisym zero_le_imp_eq_int add.commute)
  then have l: "p < length hc" using assms(3) by simp
  then have "flip_bit_at k hc = Some (hc[p := flipped (hc ! p)])"
    using p by (simp add: flip_bit_at_def at_string_def set_string_def)
  then show ?thesis using check_flipped [OF assms(1) l] p(1) False by simp
qed

section \<open>Properties\<close>

text \<open>
  C34. The code corrects every single error: \<open>gen\<close> on a string of zeros and ones prints a code word
  of the announced length with the string at the data positions, and \<open>check\<close> on that code word,
  whichever bit of it the user has flipped, reports exactly that bit, none if none was flipped,
  and prints the code word.
\<close>

theorem hamming_corrects:
  assumes "set b \<subseteq> {ch0, ch1}" and "data r = b"
    and "execs main_gen ((Print ''Enter a binary string: '' [], r0) # (ScanStr, r) # tr) out"
  shows "\<exists>hc0 hc r1 r2. out = Done 0 \<and>
    tr = [(Print ''Intermediate hamming code: %s'' [S hc0], r1), (Print ''Hamming Code: %s'' [S hc], r2)] \<and>
    length hc = hammingLength (length b) \<and> map ((!) hc) (data_idx [0..<length hc]) = b \<and>
    (\<forall>q rk q0 q1 tr' out'. data q = hc \<and> 0 \<le> num rk \<and> num rk \<le> int (length hc) \<and>
      execs main_check ((Print ''Enter the hamming Code to check: '' [], q0) # (ScanStr, q) #
        (Print ''Enter any bit(1 - %d) to flip, or 0 to skip: '' [D (int (length hc))], q1) # (ScanInt, rk) # tr') out' \<longrightarrow>
      out' = Done 0 \<and> map fst tr' =
        [if num rk = 0 then Print ''The hamming code does not have any errors'' [] else Print ''Error detected at bit %d'' [D (num rk)],
         Print ''The corrected hamming code is: %s'' [S hc]])"
proof -
  obtain hc0 hc where hc: "hammingCodeGen b = Call (Print ''Intermediate hamming code: %s'' [S hc0]) (\<lambda>_. Ret hc)"
    "length hc = hammingLength (length b)" "map ((!) hc) (data_idx [0..<length hc]) = b" "codeword (redundant (length b) 0) hc"
    using hammingCodeGen_codeword [OF assms(1)] .
  have c: "out' = Done 0 \<and> map fst tr' =
        [if num rk = 0 then Print ''The hamming code does not have any errors'' [] else Print ''Error detected at bit %d'' [D (num rk)],
         Print ''The corrected hamming code is: %s'' [S hc]]"
    if "data q = hc \<and> 0 \<le> num rk \<and> num rk \<le> int (length hc) \<and>
      execs main_check ((Print ''Enter the hamming Code to check: '' [], q0) # (ScanStr, q) #
        (Print ''Enter any bit(1 - %d) to flip, or 0 to skip: '' [D (int (length hc))], q1) # (ScanInt, rk) # tr') out'"
    for q rk q0 q1 tr' out'
  proof -
    have k: "0 \<le> num rk" "num rk \<le> int (length hc)" using that by simp_all
    obtain hc' m where "flip_bit_at (num rk) hc = Some hc'" "checkAndCorrect hc' = Call m (\<lambda>_. Ret hc)"
      "m = (if num rk = 0 then Print ''The hamming code does not have any errors'' [] else Print ''Error detected at bit %d'' [D (num rk)])"
      using hamming_corrects_from [OF hc(4) k] by blast
    with that show ?thesis by (auto simp: main_check_def execs_Call Let_def)
  qed
  have "\<exists>r1 r2. out = Done 0 \<and>
    tr = [(Print ''Intermediate hamming code: %s'' [S hc0], r1), (Print ''Hamming Code: %s'' [S hc], r2)]"
    using assms(2,3) hc(1) by (auto simp: main_gen_def execs_Call)
  with hc(2,3) c show ?thesis by blast
qed

text \<open>
  C35. hamming.cpp agrees with gen.cpp: on a non-empty vector of zeros and ones \<open>findHammingCode\<close>
  prints the digits of the code that \<open>hammingCodeGen\<close> returns for the same bits.
\<close>

theorem hamming_vector_agrees:
  assumes "set msg \<subseteq> {0, 1}" "msg \<noteq> []" and "execs (hammingCodeGen (map glyph msg)) tr (Done hc)"
  shows "\<exists>ans. hc = map glyph ans \<and> set ans \<subseteq> {0, 1} \<and> findHammingCode msg =
    Call (Print ''Message bits are: '' []) (\<lambda>_. bind (print_ints msg) (\<lambda>_.
    Call (Print ''Hamming code is: '' []) (\<lambda>_. print_ints ans)))"
proof -
  obtain hc0 ans where a: "generateHammingCode msg (length msg) (redundant (length msg) 1) = Some ans"
    "hammingCodeGen (map glyph msg) = Call (Print ''Intermediate hamming code: %s'' [S hc0]) (\<lambda>_. Ret (map glyph ans))"
    using generateHammingCode_codeGen [OF assms(1,2)] .
  have h: "hc = map glyph ans" using assms(3) by (simp add: a(2) execs_Call)
  have "set (map glyph msg) \<subseteq> {ch0, ch1}" using assms(1) by auto
  then obtain hc1 hc' where "hammingCodeGen (map glyph msg) = Call (Print ''Intermediate hamming code: %s'' [S hc1]) (\<lambda>_. Ret hc')"
    "codeword (redundant (length (map glyph msg)) 0) hc'" using hammingCodeGen_codeword by blast
  then have "set (map glyph ans) \<subseteq> {ch0, ch1}" using a(2) by (simp add: codeword_def fun_eq_iff)
  then have "set ans \<subseteq> {0, 1}" by (auto simp: glyph_def split: if_splits)
  moreover have "findHammingCode msg = Call (Print ''Message bits are: '' []) (\<lambda>_. bind (print_ints msg) (\<lambda>_.
    Call (Print ''Hamming code is: '' []) (\<lambda>_. print_ints ans)))"
    using a(1) by (simp add: findHammingCode_def Let_def)
  ultimately show ?thesis using h by blast
qed

section \<open>Witnesses\<close>

text \<open>The code of 1001 is 0011001.\<close>

lemma gen_1001:
  "run main_gen [answered, answered\<lparr>data := [ch1, ch0, ch0, ch1]\<rparr>, answered, answered] =
   Some ([(Print ''Enter a binary string: '' [], answered), (ScanStr, answered\<lparr>data := [ch1, ch0, ch0, ch1]\<rparr>),
     (Print ''Intermediate hamming code: %s'' [S [dash, dash, ch1, dash, ch0, ch0, ch1]], answered),
     (Print ''Hamming Code: %s'' [S [ch0, ch0, ch1, ch1, ch0, ch0, ch1]], answered)], Done 0)"
  by code_simp

lemma check_0011001:
  "run main_check [answered, answered\<lparr>data := [ch0, ch0, ch1, ch1, ch0, ch0, ch1]\<rparr>, answered, answered\<lparr>num := 5\<rparr>, answered, answered] =
   Some ([(Print ''Enter the hamming Code to check: '' [], answered), (ScanStr, answered\<lparr>data := [ch0, ch0, ch1, ch1, ch0, ch0, ch1]\<rparr>),
     (Print ''Enter any bit(1 - %d) to flip, or 0 to skip: '' [D 7], answered), (ScanInt, answered\<lparr>num := 5\<rparr>),
     (Print ''Error detected at bit %d'' [D 5], answered),
     (Print ''The corrected hamming code is: %s'' [S [ch0, ch0, ch1, ch1, ch0, ch0, ch1]], answered)], Done 0)"
  by code_simp

theorem hamming_corrects_witness:
  "\<exists>tr' hc. execs main_check ((Print ''Enter the hamming Code to check: '' [], answered) # (ScanStr, answered\<lparr>data := hc\<rparr>) #
     (Print ''Enter any bit(1 - %d) to flip, or 0 to skip: '' [D 7], answered) # (ScanInt, answered\<lparr>num := 5\<rparr>) # tr') (Done 0) \<and>
   hc = [ch0, ch0, ch1, ch1, ch0, ch0, ch1] \<and>
   map fst tr' = [Print ''Error detected at bit %d'' [D 5], Print ''The corrected hamming code is: %s'' [S hc]]"
proof -
  define Q where "Q hc \<longleftrightarrow> (\<forall>q rk q0 q1 tr' out'. data q = hc \<and> 0 \<le> num rk \<and> num rk \<le> int (length hc) \<and>
      execs main_check ((Print ''Enter the hamming Code to check: '' [], q0) # (ScanStr, q) #
        (Print ''Enter any bit(1 - %d) to flip, or 0 to skip: '' [D (int (length hc))], q1) # (ScanInt, rk) # tr') out' \<longrightarrow>
      out' = Done 0 \<and> map fst tr' =
        [if num rk = 0 then Print ''The hamming code does not have any errors'' [] else Print ''Error detected at bit %d'' [D (num rk)],
         Print ''The corrected hamming code is: %s'' [S hc]])" for hc
  have b: "set [ch1, ch0, ch0, ch1] \<subseteq> {ch0, ch1}" by simp
  have d: "data (answered\<lparr>data := [ch1, ch0, ch0, ch1]\<rparr>) = [ch1, ch0, ch0, ch1]" by simp
  note t = hamming_corrects [OF b d run_execs [OF gen_1001], folded Q_def]
  then have q: "Q [ch0, ch0, ch1, ch1, ch0, ch0, ch1]" by (elim exE conjE) simp
  note c = run_execs [OF check_0011001]
  let ?tr = "[(Print ''Error detected at bit %d'' [D 5], answered),
     (Print ''The corrected hamming code is: %s'' [S [ch0, ch0, ch1, ch1, ch0, ch0, ch1]], answered)]"
  have "map fst ?tr = [if num (answered\<lparr>num := 5\<rparr>) = 0 then Print ''The hamming code does not have any errors'' []
      else Print ''Error detected at bit %d'' [D (num (answered\<lparr>num := 5\<rparr>))],
      Print ''The corrected hamming code is: %s'' [S [ch0, ch0, ch1, ch1, ch0, ch0, ch1]]]"
    using q [unfolded Q_def, rule_format, of "answered\<lparr>data := [ch0, ch0, ch1, ch1, ch0, ch0, ch1]\<rparr>" "answered\<lparr>num := 5\<rparr>"
      answered answered ?tr "Done 0"] c by simp
  then show ?thesis using c by (intro exI [of _ ?tr] exI [of _ "[ch0, ch0, ch1, ch1, ch0, ch0, ch1]"]) simp
qed

lemma gen_0101:
  "run (hammingCodeGen (map glyph [0, 1, 0, 1])) [answered] =
   Some ([(Print ''Intermediate hamming code: %s'' [S [dash, dash, ch0, dash, ch1, ch0, ch1]], answered)],
     Done [ch0, ch1, ch0, ch0, ch1, ch0, ch1])"
  by code_simp

theorem hamming_vector_agrees_witness:
  "\<exists>ans. [ch0, ch1, ch0, ch0, ch1, ch0, ch1] = map glyph ans \<and> set ans \<subseteq> {0, 1} \<and> findHammingCode [0, 1, 0, 1] =
    Call (Print ''Message bits are: '' []) (\<lambda>_. bind (print_ints [0, 1, 0, 1]) (\<lambda>_.
    Call (Print ''Hamming code is: '' []) (\<lambda>_. print_ints ans)))"
  by (rule hamming_vector_agrees [OF _ _ run_execs [OF gen_0101]]) simp_all

end
