(* ===== verification/Interleaving.thy ===== *)
theory Interleaving
  imports Interaction
begin

text \<open>
  Two processes side by side.  A state is what is left of each program and the state of what
  they share; a step performs the next call of either of them, with a response and a new shared
  state that \<open>serves\<close> allows.  A call that nothing serves blocks its process.
\<close>

type_synonym ('c, 'r, 'a, 'k) duo = "('c, 'r, 'a) prog \<times> ('c, 'r, 'a) prog \<times> 'k"

inductive duo_step :: "('c \<Rightarrow> 'k \<Rightarrow> 'r \<Rightarrow> 'k \<Rightarrow> bool) \<Rightarrow> ('c, 'r, 'a, 'k) duo \<Rightarrow> ('c, 'r, 'a, 'k) duo \<Rightarrow> bool"
  for serves where
  first: "serves c k r k' \<Longrightarrow> duo_step serves (Call c f, p, k) (f r, p, k')"
| second: "serves c k r k' \<Longrightarrow> duo_step serves (p, Call c f, k) (p, f r, k')"

inductive_simps duo_step_iff: "duo_step serves (p, q, k) S'"

lemma duo_stepE:
  assumes "duo_step serves (p, q, k) S'"
  obtains (first) c f r k' where "p = Call c f" "serves c k r k'" "S' = (f r, q, k')"
    | (second) c f r k' where "q = Call c f" "serves c k r k'" "S' = (p, f r, k')"
  using assms by (auto simp: duo_step_iff)

text \<open>A program after its first calls, given the responses.\<close>

fun advance :: "'r list \<Rightarrow> ('c, 'r, 'a) prog \<Rightarrow> ('c, 'r, 'a) prog" where
  "advance (r # rs) (Call c f) = advance rs (f r)"
| "advance rs p = p"

text \<open>\<open>p\<close> becomes \<open>q\<close> after \<open>n\<close> calls satisfying \<open>L\<close>, whatever the responses allowed by \<open>E\<close>.\<close>

primrec drifts :: "('c \<Rightarrow> bool) \<Rightarrow> ('c \<Rightarrow> 'r \<Rightarrow> bool) \<Rightarrow> nat \<Rightarrow> ('c, 'r, 'a) prog \<Rightarrow> ('c, 'r, 'a) prog \<Rightarrow> bool" where
  "drifts L E 0 q p \<longleftrightarrow> p = q"
| "drifts L E (Suc n) q p \<longleftrightarrow> (\<exists>c f. p = Call c f \<and> L c \<and> (\<forall>r. E c r \<longrightarrow> drifts L E n q (f r)))"

lemma drifts_Suc_Call [simp]: "drifts L E (Suc n) q (Call c f) \<longleftrightarrow> L c \<and> (\<forall>r. E c r \<longrightarrow> drifts L E n q (f r))"
  by simp

declare drifts.simps(2) [simp del]

lemma drifts_SucE:
  assumes "drifts L E (Suc n) q p"
  obtains c f where "p = Call c f" "L c" "\<And>r. E c r \<Longrightarrow> drifts L E n q (f r)"
  using assms by (auto simp: drifts.simps(2))

section \<open>Bounded runs\<close>

text \<open>An invariant with a rank that every step lowers: runs are bounded, and where they end the
  invariant still holds.\<close>

locale ranked =
  fixes step :: "'s \<Rightarrow> 's \<Rightarrow> bool" and ranks :: "nat \<Rightarrow> 's \<Rightarrow> bool"
  assumes lower: "ranks m s \<Longrightarrow> step s s' \<Longrightarrow> \<exists>m'<m. ranks m' s'"
begin

lemma run: "(step ^^ i) s s' \<Longrightarrow> ranks m s \<Longrightarrow> \<exists>m'. ranks m' s' \<and> i + m' \<le> m"
proof (induction i arbitrary: s')
  case 0
  then show ?case by auto
next
  case (Suc i)
  then obtain t where t: "(step ^^ i) s t" "step t s'" by auto
  then obtain m' where "ranks m' t" "i + m' \<le> m" using Suc by blast
  moreover obtain m'' where "m'' < m'" "ranks m'' s'" using lower [OF \<open>ranks m' t\<close> t(2)] by blast
  ultimately show ?case by (intro exI [of _ m'']) simp
qed

lemma bounded: "(step ^^ i) s s' \<Longrightarrow> ranks m s \<Longrightarrow> i \<le> m"
  using run by fastforce

end

section \<open>Points\<close>

text \<open>
  Two programs whose control points are given by \<open>at1\<close> and \<open>at2\<close>: between two points a program
  makes at most \<open>B\<close> silent calls, which do not touch what is shared, and a call at a point
  keeps the joint invariant \<open>good\<close> and lowers the rank of the program that makes it.
\<close>

definition point_ranks :: "('c \<Rightarrow> bool) \<Rightarrow> ('c \<Rightarrow> 'r \<Rightarrow> bool) \<Rightarrow> ('p \<Rightarrow> ('c, 'r, 'a) prog) \<Rightarrow> ('q \<Rightarrow> ('c, 'r, 'a) prog) \<Rightarrow>
    ('p \<Rightarrow> 'q \<Rightarrow> 'k \<Rightarrow> bool) \<Rightarrow> ('p \<Rightarrow> nat) \<Rightarrow> ('q \<Rightarrow> nat) \<Rightarrow> nat \<Rightarrow> nat \<Rightarrow> ('c, 'r, 'a, 'k) duo \<Rightarrow> bool" where
  "point_ranks silent expects at1 at2 good rank1 rank2 B m w \<longleftrightarrow> (case w of (p, q, k) \<Rightarrow> \<exists>q1 q2 n1 n2.
     drifts silent expects n1 (at1 q1) p \<and> drifts silent expects n2 (at2 q2) q \<and> good q1 q2 k \<and>
     m = n1 + n2 + Suc B * rank1 q1 + Suc B * rank2 q2)"

lemma point_ranksI:
  "drifts silent expects n1 (at1 q1) p \<Longrightarrow> drifts silent expects n2 (at2 q2) q \<Longrightarrow> good q1 q2 k \<Longrightarrow>
   point_ranks silent expects at1 at2 good rank1 rank2 B (n1 + n2 + Suc B * rank1 q1 + Suc B * rank2 q2) (p, q, k)"
  by (auto simp: point_ranks_def)

locale pointed =
  fixes serves :: "'c \<Rightarrow> 'k \<Rightarrow> 'r \<Rightarrow> 'k \<Rightarrow> bool" and silent :: "'c \<Rightarrow> bool" and expects :: "'c \<Rightarrow> 'r \<Rightarrow> bool"
    and at1 :: "'p \<Rightarrow> ('c, 'r, 'a) prog" and at2 :: "'q \<Rightarrow> ('c, 'r, 'a) prog"
    and good :: "'p \<Rightarrow> 'q \<Rightarrow> 'k \<Rightarrow> bool" and rank1 :: "'p \<Rightarrow> nat" and rank2 :: "'q \<Rightarrow> nat" and B :: nat
  assumes quiet_serves: "silent c \<Longrightarrow> serves c k r k' \<Longrightarrow> expects c r \<and> k' = k"
    and quiet_enabled: "silent c \<Longrightarrow> \<exists>r k'. serves c k r k'"
    and first_moves: "good q1 q2 k \<Longrightarrow> at1 q1 = Call c f \<Longrightarrow> serves c k r k' \<Longrightarrow>
      \<exists>q n. n \<le> B \<and> drifts silent expects n (at1 q) (f r) \<and> good q q2 k' \<and> rank1 q < rank1 q1"
    and second_moves: "good q1 q2 k \<Longrightarrow> at2 q2 = Call c f \<Longrightarrow> serves c k r k' \<Longrightarrow>
      \<exists>q n. n \<le> B \<and> drifts silent expects n (at2 q) (f r) \<and> good q1 q k' \<and> rank2 q < rank2 q2"
begin

lemma rank_less:
  assumes "(n :: nat) \<le> B" "a < b"
  shows "n + Suc B * a < n' + Suc B * b"
proof -
  have "Suc B * Suc a \<le> Suc B * b" using assms(2) by (intro mult_le_mono2) simp
  then show ?thesis using assms(1) by simp
qed

text \<open>Whatever blocks, blocks at a point.\<close>

lemma stuck:
  assumes "point_ranks silent expects at1 at2 good rank1 rank2 B m (p, q, k)" "\<forall>w. \<not> duo_step serves (p, q, k) w"
  obtains q1 q2 where "p = at1 q1" "q = at2 q2" "good q1 q2 k"
proof -
  obtain q1 q2 n1 n2 where i: "drifts silent expects n1 (at1 q1) p" "drifts silent expects n2 (at2 q2) q" "good q1 q2 k"
    using assms(1) by (auto simp: point_ranks_def)
  have "n1 = 0"
  proof (cases n1)
    case (Suc n)
    with i(1) obtain c f where c: "p = Call c f" "silent c" by (auto elim: drifts_SucE)
    obtain r k' where "serves c k r k'" using quiet_enabled [OF c(2)] by blast
    from duo_step.first [where serves = serves, OF this] assms(2) c(1) show ?thesis by blast
  qed
  moreover have "n2 = 0"
  proof (cases n2)
    case (Suc n)
    with i(2) obtain c f where c: "q = Call c f" "silent c" by (auto elim: drifts_SucE)
    obtain r k' where "serves c k r k'" using quiet_enabled [OF c(2)] by blast
    from duo_step.second [where serves = serves, OF this] assms(2) c(1) show ?thesis by blast
  qed
  ultimately show ?thesis using i that by simp
qed

end

sublocale pointed \<subseteq> ranked "duo_step serves" "point_ranks silent expects at1 at2 good rank1 rank2 B"
proof
  fix m w w'
  assume "point_ranks silent expects at1 at2 good rank1 rank2 B m w" and st: "duo_step serves w w'"
  then obtain p q k q1 q2 n1 n2 where w: "w = (p, q, k)"
      and i: "drifts silent expects n1 (at1 q1) p" "drifts silent expects n2 (at2 q2) q" "good q1 q2 k"
      and m: "m = n1 + n2 + Suc B * rank1 q1 + Suc B * rank2 q2"
    by (cases w) (auto simp: point_ranks_def)
  note I = point_ranksI [of silent expects _ at1 _ _ _ at2 _ _ good _ rank1 rank2 B]
  from st [unfolded w] show "\<exists>m'<m. point_ranks silent expects at1 at2 good rank1 rank2 B m' w'"
  proof (cases rule: duo_stepE)
    case (first c f r k')
    note p = this
    show ?thesis
    proof (cases n1)
      case 0
      then have "at1 q1 = Call c f" using i(1) p(1) by simp
      from first_moves [OF i(3) this p(2)] obtain q1' n where
        o: "n \<le> B" "drifts silent expects n (at1 q1') (f r)" "good q1' q2 k'" "rank1 q1' < rank1 q1" by blast
      have "n + n2 + Suc B * rank1 q1' + Suc B * rank2 q2 < m" unfolding m using rank_less [OF o(1,4), of n1] by linarith
      then show ?thesis using I [OF o(2) i(2) o(3)] unfolding p(3) by blast
    next
      case (Suc n)
      with i(1) p(1) have "silent c" "\<And>r. expects c r \<Longrightarrow> drifts silent expects n (at1 q1) (f r)" by simp_all
      with quiet_serves [OF _ p(2)] have "drifts silent expects n (at1 q1) (f r)" "k' = k" by auto
      then show ?thesis using I [OF _ i(2,3)] unfolding p(3) m Suc by fastforce
    qed
  next
    case (second c f r k')
    note p = this
    show ?thesis
    proof (cases n2)
      case 0
      then have "at2 q2 = Call c f" using i(2) p(1) by simp
      from second_moves [OF i(3) this p(2)] obtain q2' n where
        o: "n \<le> B" "drifts silent expects n (at2 q2') (f r)" "good q1 q2' k'" "rank2 q2' < rank2 q2" by blast
      have "n1 + n + Suc B * rank1 q1 + Suc B * rank2 q2' < m" unfolding m using rank_less [OF o(1,4), of n2] by linarith
      then show ?thesis using I [OF i(1) o(2,3)] unfolding p(3) by blast
    next
      case (Suc n)
      with i(2) p(1) have "silent c" "\<And>r. expects c r \<Longrightarrow> drifts silent expects n (at2 q2) (f r)" by simp_all
      with quiet_serves [OF _ p(2)] have "drifts silent expects n (at2 q2) (f r)" "k' = k" by auto
      then show ?thesis using I [OF i(1) _ i(3)] unfolding p(3) m Suc by fastforce
    qed
  qed
qed

section \<open>Running a schedule\<close>

text \<open>\<open>True\<close>: the first process moves.  \<open>answer\<close> picks a response.\<close>

fun schedule :: "('c \<Rightarrow> 'k \<Rightarrow> ('r \<times> 'k) option) \<Rightarrow> bool list \<Rightarrow> ('c, 'r, 'a, 'k) duo \<Rightarrow> ('c, 'r, 'a, 'k) duo option" where
  "schedule answer [] S = Some S"
| "schedule answer (b # bs) (p, q, k) =
     (case if b then p else q of
        Call c f \<Rightarrow> (case answer c k of
          Some (r, k') \<Rightarrow> schedule answer bs (if b then (f r, q, k') else (p, f r, k'))
        | None \<Rightarrow> None)
      | _ \<Rightarrow> None)"

lemma schedule_run:
  assumes "\<And>c k r k'. answer c k = Some (r, k') \<Longrightarrow> serves c k r k'"
  shows "schedule answer bs S = Some S' \<Longrightarrow> (duo_step serves ^^ length bs) S S'"
proof (induction bs arbitrary: S)
  case (Cons b bs)
  obtain p q k where S: "S = (p, q, k)" by (cases S)
  with Cons.prems obtain c f r k' where c: "(if b then p else q) = Call c f" "answer c k = Some (r, k')"
      "schedule answer bs (if b then (f r, q, k') else (p, f r, k')) = Some S'"
    by (auto split: prog.splits option.splits)
  have "duo_step serves S (if b then (f r, q, k') else (p, f r, k'))"
    using c(1) assms [OF c(2)] by (auto simp: S intro: duo_step.intros split: if_splits)
  with Cons.IH [OF c(3)] show ?case by (simp add: relpowp_commute del: relpowp.simps(2)) (metis relcomppI relpowp_commute relpowp_Suc_I2)
qed simp

text \<open>How often each process moves in turn.\<close>

definition turns_of :: "(bool \<times> nat) list \<Rightarrow> bool list" where
  "turns_of bs = concat (map (\<lambda>(b, n). replicate n b) bs)"

text \<open>Congruence that leaves the continuation alone until the call is answered.\<close>

lemma Call_weak: "c = c' \<Longrightarrow> Call c f = Call c' f" by simp

lemma schedule_first: "answer c k = Some (r, k') \<Longrightarrow> schedule answer (True # bs) (Call c f, q, k) = schedule answer bs (f r, q, k')"
  by simp

lemma schedule_second: "answer c k = Some (r, k') \<Longrightarrow> schedule answer (False # bs) (p, Call c f, k) = schedule answer bs (p, f r, k')"
  by simp

end
