(* ===== verification/Semaphores.thy ===== *)
theory Semaphores
  imports Unix Interleaving
begin

text \<open>
  12-1-22/q4: p1.c and p2.c take turns on two shared integers \<open>x\<close> and \<open>y\<close>, with two POSIX
  semaphores S1 and S2.  Both programs initialise the integers when they start.
\<close>

section \<open>The programs\<close>

text \<open>The start of both mains, up to \<open>limit\<close>.  \<open>sem_open\<close> reports failure as -1 here; \<open>shmat\<close> is not
  checked, and its -1 is not a valid pointer.\<close>

definition q4_start :: "int option sys \<Rightarrow> int option sys" where
  "q4_start body =
     Call (Ftok ''p1.c'') (\<lambda>_.
     Call (Ftok ''p2.c'') (\<lambda>_.
     Call Shmget (\<lambda>r.
     if res r < 0 then Ret (Some 1)
     else Call Shmget (\<lambda>r.
     if res r < 0 then Ret (Some 1)
     else Call (SemOpen ''S1'') (\<lambda>a.
     Call (SemOpen ''S2'') (\<lambda>b.
     if res a = -1 \<or> res b = -1 then Ret (Some 1)
     else Call Shmat (\<lambda>a.
     Call Shmat (\<lambda>b.
     if res a = -1 \<or> res b = -1 then Ub
     else Call (Store ''x'' 1) (\<lambda>_.
     Call (Store ''y'' 1) (\<lambda>_. body))))))))))"

text \<open>The end of both mains, after the loop.\<close>

definition q4_end :: "int option sys" where
  "q4_end =
     Call (Sleep 1) (\<lambda>_.
     Call (Load ''x'') (\<lambda>a.
     Call (Load ''y'') (\<lambda>b.
     Call (Print ''x=%d and y=%d'' [D (num a), D (num b)]) (\<lambda>_.
     Call (SemClose ''S1'') (\<lambda>_.
     Call (SemUnlink ''S1'') (\<lambda>_.
     Call (SemClose ''S2'') (\<lambda>_.
     Call (SemUnlink ''S2'') (\<lambda>_.
     Call (Shmdt 0) (\<lambda>_.
     Call (Shmdt 1) (\<lambda>_.
     Call (ShmRemove 0) (\<lambda>_.
     Call (ShmRemove 1) (\<lambda>_. Ret (Some 0)))))))))))))"

text \<open>\<open>char c[10]; scanf("%s", c);\<close>\<close>

definition scan_c :: "'a sys \<Rightarrow> 'a sys" where
  "scan_c p = Call ScanStr (\<lambda>r. need (strcpy (replicate 10 0) (data r)) (\<lambda>_. p))"

primrec p1_loop :: "nat \<Rightarrow> int option sys" where
  "p1_loop 0 = Ret None"
| "p1_loop (Suc n) =
     Call (Print '''' []) (\<lambda>_.
     Call (Print ''I am reading shm y'' []) (\<lambda>_.
     Call (Load ''y'') (\<lambda>r.
     Call (Print ''y = %d'' [D (num r)]) (\<lambda>_.
     Call (Load ''y'') (\<lambda>r.
     Call (Store ''x'' (num r + 1)) (\<lambda>_.
     Call (Print ''Enter any char to signal S1 : '' []) (\<lambda>_.
     scan_c (
     Call (SemPost ''S1'') (\<lambda>_.
     Call (Load ''x'') (\<lambda>r.
     if num r \<ge> 5 then Call (Print ''length of x exceeded %d, stopping'' [D 5]) (\<lambda>_. q4_end)
     else Call (Print ''I am waiting on S2'' []) (\<lambda>_.
     Call (SemWait ''S2'') (\<lambda>_. p1_loop n))))))))))))"

primrec p2_loop :: "nat \<Rightarrow> int option sys" where
  "p2_loop 0 = Ret None"
| "p2_loop (Suc n) =
     Call (Print '''' []) (\<lambda>_.
     Call (Load ''x'') (\<lambda>r.
     if num r \<ge> 5 then Call (Print ''length of x exceeded %d, stopping'' [D 5]) (\<lambda>_. q4_end)
     else Call (Print ''I am waiting for S1'' []) (\<lambda>_.
     Call (SemWait ''S1'') (\<lambda>_.
     Call (Print ''I am reading shm x'' []) (\<lambda>_.
     Call (Load ''x'') (\<lambda>r.
     Call (Print ''x = %d'' [D (num r)]) (\<lambda>_.
     Call (Load ''x'') (\<lambda>r.
     Call (Store ''y'' (num r + 1)) (\<lambda>_.
     Call (Print ''Enter any char to signal S2 : '' []) (\<lambda>_.
     scan_c (
     Call (SemPost ''S2'') (\<lambda>_. p2_loop n))))))))))))"

definition main_p1 :: "nat \<Rightarrow> int option sys" where "main_p1 n = q4_start (p1_loop n)"
definition main_p2 :: "nat \<Rightarrow> int option sys" where "main_p2 n = q4_start (p2_loop n)"

section \<open>The shared memory and the semaphores\<close>

record shared =
  mem :: "string \<Rightarrow> int"
  sem :: "string \<Rightarrow> nat"

text \<open>What a call is answered: \<open>sem_wait\<close> waits for a positive value, the user types words shorter
  than ten characters, and the calls of the start find or create their objects.\<close>

definition q4_serves :: "call \<Rightarrow> shared \<Rightarrow> resp \<Rightarrow> shared \<Rightarrow> bool" where
  "q4_serves c k r k' = (case c of
     Load v \<Rightarrow> num r = mem k v \<and> k' = k
   | Store v a \<Rightarrow> k' = k\<lparr>mem := (mem k)(v := a)\<rparr>
   | SemPost s \<Rightarrow> k' = k\<lparr>sem := (sem k)(s := sem k s + 1)\<rparr>
   | SemWait s \<Rightarrow> sem k s > 0 \<and> k' = k\<lparr>sem := (sem k)(s := sem k s - 1)\<rparr>
   | ScanStr \<Rightarrow> length (data r) < 10 \<and> k' = k
   | _ \<Rightarrow> 0 \<le> res r \<and> k' = k)"

definition silent :: "call \<Rightarrow> bool" where
  "silent c = (case c of Store v a \<Rightarrow> False | SemPost s \<Rightarrow> False | SemWait s \<Rightarrow> False | _ \<Rightarrow> True)"

definition q4_expects :: "call \<Rightarrow> resp \<Rightarrow> bool" where
  "q4_expects c r = (case c of Load v \<Rightarrow> True | ScanStr \<Rightarrow> length (data r) < 10 | _ \<Rightarrow> 0 \<le> res r)"

lemma silent_serves: "silent c \<Longrightarrow> q4_serves c k r k' \<Longrightarrow> q4_expects c r \<and> k' = k"
  by (cases c) (auto simp: silent_def q4_serves_def q4_expects_def)

lemma silent_enabled: "silent c \<Longrightarrow> \<exists>r k'. q4_serves c k r k'"
proof -
  define r where "r = answered\<lparr>num := case c of Load v \<Rightarrow> mem k v | _ \<Rightarrow> 0\<rparr>"
  show "silent c \<Longrightarrow> ?thesis"
    by (intro exI [of _ r] exI [of _ k], cases c) (auto simp: silent_def q4_serves_def r_def answered_def)
qed

section \<open>Control points\<close>

text \<open>The points where a program is about to touch what is shared, with the number of the iteration.\<close>

datatype point1 = Init_x1 | Init_y1 | Read_y nat | Write_x nat int | Post_s1 nat | Check1 nat | Wait_s2 nat | End1
datatype point2 = Init_x2 | Init_y2 | Check2 nat | Wait_s1 nat | Read_x nat | Write_y nat int | Post_s2 nat | End2 nat

definition q4_ok :: resp where "q4_ok = answered"

fun at1 :: "nat \<Rightarrow> point1 \<Rightarrow> int option sys" where
  "at1 e Init_x1 = advance (replicate 8 q4_ok) (main_p1 (e + 4))"
| "at1 e Init_y1 = advance (replicate 9 q4_ok) (main_p1 (e + 4))"
| "at1 e (Read_y j) = advance (replicate 4 q4_ok) (p1_loop (Suc (e + (4 - j))))"
| "at1 e (Write_x j v) = Call (Store ''x'' (v + 1)) (\<lambda>_. advance (replicate 6 q4_ok) (p1_loop (Suc (e + (4 - j)))))"
| "at1 e (Post_s1 j) = advance (replicate 8 q4_ok) (p1_loop (Suc (e + (4 - j))))"
| "at1 e (Check1 j) = advance (replicate 9 q4_ok) (p1_loop (Suc (e + (4 - j))))"
| "at1 e (Wait_s2 j) = advance (replicate 11 q4_ok) (p1_loop (Suc (e + (4 - j))))"
| "at1 e End1 = Ret (Some 0)"

fun at2 :: "nat \<Rightarrow> point2 \<Rightarrow> int option sys" where
  "at2 e Init_x2 = advance (replicate 8 q4_ok) (main_p2 (e + 4))"
| "at2 e Init_y2 = advance (replicate 9 q4_ok) (main_p2 (e + 4))"
| "at2 e (Check2 j) = advance (replicate 1 q4_ok) (p2_loop (Suc (e + (4 - j))))"
| "at2 e (Wait_s1 j) = advance (replicate 3 q4_ok) (p2_loop (Suc (e + (4 - j))))"
| "at2 e (Read_x j) = advance (replicate 7 q4_ok) (p2_loop (Suc (e + (4 - j))))"
| "at2 e (Write_y j v) = Call (Store ''y'' (v + 1)) (\<lambda>_. advance (replicate 9 q4_ok) (p2_loop (Suc (e + (4 - j)))))"
| "at2 e (Post_s2 j) = advance (replicate 11 q4_ok) (p2_loop (Suc (e + (4 - j))))"
| "at2 e (End2 j) = Ret (Some 0)"

fun rank1 :: "point1 \<Rightarrow> nat" where
  "rank1 Init_x1 = 17"
| "rank1 Init_y1 = 16"
| "rank1 (Read_y j) = 5 * (4 - j)"
| "rank1 (Write_x j v) = 5 * (4 - j) - 1"
| "rank1 (Post_s1 j) = 5 * (4 - j) - 2"
| "rank1 (Check1 j) = 5 * (4 - j) - 3"
| "rank1 (Wait_s2 j) = 5 * (4 - j) - 4"
| "rank1 End1 = 0"

fun rank2 :: "point2 \<Rightarrow> nat" where
  "rank2 Init_x2 = 22"
| "rank2 Init_y2 = 21"
| "rank2 (Check2 j) = 5 * (5 - j)"
| "rank2 (Wait_s1 j) = 5 * (5 - j) - 1"
| "rank2 (Read_x j) = 5 * (5 - j) - 2"
| "rank2 (Write_y j v) = 5 * (5 - j) - 3"
| "rank2 (Post_s2 j) = 5 * (5 - j) - 4"
| "rank2 (End2 j) = 0"

section \<open>What holds at the control points\<close>

text \<open>In round \<open>j\<close> the integers are 2j or 2j - 1 and one more; \<open>x\<close> is one less when the second
  program initialised it after the first had written it.\<close>

definition in_x :: "nat \<Rightarrow> int \<Rightarrow> bool" where
  "in_x j x \<longleftrightarrow> x = 2 * int j \<or> x = 2 * int j - 1"

definition in_y :: "nat \<Rightarrow> int \<Rightarrow> bool" where
  "in_y j y \<longleftrightarrow> (if j = 1 then y = 1 else y = 2 * int j - 1 \<or> y = 2 * int j - 2)"

definition waits2 :: "nat \<Rightarrow> point2 \<Rightarrow> bool" where
  "waits2 j q \<longleftrightarrow> q = Check2 j \<or> q = Wait_s1 j \<or> (j = 1 \<and> (q = Init_x2 \<or> q = Init_y2))"

definition posted1 :: "nat \<Rightarrow> point2 \<Rightarrow> shared \<Rightarrow> bool" where
  "posted1 j q k \<longleftrightarrow> (let x = mem k ''x''; y = mem k ''y''; s1 = sem k ''S1''; s2 = sem k ''S2'' in
     in_x j x \<and>
     ((waits2 j q \<or> (j = 3 \<and> q = End2 3)) \<and> s1 = 1 \<and> s2 = 0 \<and> in_y j y \<and> (j \<noteq> 1 \<longrightarrow> x = y + 1) \<or>
      (q = Read_x j \<or> q = Write_y j x \<or> (q = Post_s2 j \<and> y = x + 1)) \<and> s1 = 0 \<and> s2 = 0 \<or>
      (q = Check2 (Suc j) \<or> (q = Wait_s1 (Suc j) \<and> j \<le> 2) \<or> (j = 3 \<and> q = End2 4)) \<and> y = x + 1 \<and> s1 = 0 \<and> s2 = 1))"

fun good :: "point1 \<Rightarrow> point2 \<Rightarrow> shared \<Rightarrow> bool" where
  "good Init_x1 q k \<longleftrightarrow> waits2 1 q \<and> sem k ''S1'' = 0 \<and> sem k ''S2'' = 0 \<and> (q = Init_y2 \<or> q = Check2 1 \<longrightarrow> mem k ''x'' = 1)"
| "good Init_y1 q k \<longleftrightarrow> waits2 1 q \<and> sem k ''S1'' = 0 \<and> sem k ''S2'' = 0 \<and> mem k ''x'' = 1"
| "good (Read_y j) q k \<longleftrightarrow> 1 \<le> j \<and> j \<le> 3 \<and> waits2 j q \<and> sem k ''S1'' = 0 \<and> sem k ''S2'' = 0 \<and> in_y j (mem k ''y'') \<and> mem k ''x'' < 5"
| "good (Write_x j v) q k \<longleftrightarrow> 1 \<le> j \<and> j \<le> 3 \<and> waits2 j q \<and> sem k ''S1'' = 0 \<and> sem k ''S2'' = 0 \<and> in_y j (mem k ''y'') \<and> mem k ''x'' < 5 \<and>
     v = mem k ''y''"
| "good (Post_s1 j) q k \<longleftrightarrow> 1 \<le> j \<and> j \<le> 3 \<and> (waits2 j q \<or> (j = 3 \<and> q = End2 3)) \<and> sem k ''S1'' = 0 \<and> sem k ''S2'' = 0 \<and>
     in_x j (mem k ''x'') \<and> in_y j (mem k ''y'') \<and> (j \<noteq> 1 \<longrightarrow> mem k ''x'' = mem k ''y'' + 1)"
| "good (Check1 j) q k \<longleftrightarrow> 1 \<le> j \<and> j \<le> 3 \<and> posted1 j q k"
| "good (Wait_s2 j) q k \<longleftrightarrow> 1 \<le> j \<and> j \<le> 2 \<and> posted1 j q k"
| "good End1 q k \<longleftrightarrow> posted1 3 q k"

abbreviation (input) soon1 :: "nat \<Rightarrow> nat \<Rightarrow> point1 \<Rightarrow> int option sys \<Rightarrow> bool" where
  "soon1 e n q \<equiv> drifts silent q4_expects n (at1 e q)"

abbreviation (input) soon2 :: "nat \<Rightarrow> nat \<Rightarrow> point2 \<Rightarrow> int option sys \<Rightarrow> bool" where
  "soon2 e n q \<equiv> drifts silent q4_expects n (at2 e q)"

section \<open>From point to point\<close>

lemma scan_strcpy: "length (data r) < 10 \<Longrightarrow> \<exists>d. strcpy (replicate 10 0) (data r) = Some d"
  using strcpy_defined [of "data r" "replicate 10 0"] by simp

lemma need_scan: "length (data r) < 10 \<Longrightarrow> need (strcpy (replicate 10 0) (data r)) (\<lambda>_. p) = p"
  using scan_strcpy [of r] by auto

lemma need_ok: "need (strcpy (replicate 10 0) (data q4_ok)) (\<lambda>_. p) = p"
  by (rule need_scan) (simp add: q4_ok_def answered_def)

lemma advance_scan: "advance (q4_ok # rs) (scan_c p) = advance rs p"
  by (simp add: scan_c_def need_ok)

lemma drifts_scan: "drifts silent q4_expects (Suc n) q (scan_c p) \<longleftrightarrow> drifts silent q4_expects n q p"
proof -
  have "q4_expects ScanStr q4_ok" by (simp add: q4_expects_def q4_ok_def answered_def)
  then show ?thesis
    by (auto simp: scan_c_def need_scan q4_expects_def silent_def)
qed

lemma silent_simps [simp]:
  "silent (Load v)" "silent (Print f a)" "silent ScanStr" "silent (Sleep n)" "silent (Ftok f)" "silent Shmget" "silent Shmat"
  "silent (SemOpen f)" "silent (SemClose f)" "silent (SemUnlink f)" "silent (Shmdt i)" "silent (ShmRemove i)"
  "\<not> silent (Store v i)" "\<not> silent (SemPost f)" "\<not> silent (SemWait f)"
  by (simp_all add: silent_def)

lemma expects_simps [simp]:
  "q4_expects (Load v) r" "q4_expects (Print f a) r \<longleftrightarrow> 0 \<le> res r" "q4_expects ScanStr r \<longleftrightarrow> length (data r) < 10" "q4_expects Shmget r \<longleftrightarrow> 0 \<le> res r"
  "q4_expects (SemOpen f) r \<longleftrightarrow> 0 \<le> res r" "q4_expects Shmat r \<longleftrightarrow> 0 \<le> res r"
  by (simp_all add: q4_expects_def)

lemma ok_simps [simp]: "res q4_ok = 0" "num q4_ok = 0"
  by (simp_all add: q4_ok_def answered_def)

lemmas unroll = numeral_eq_Suc pred_numeral_simps replicate.simps advance.simps advance_scan drifts_scan

lemma at1_points:
  "at1 e Init_x1 = Call (Store ''x'' 1) (\<lambda>_. at1 e Init_y1)"
  "at1 e Init_y1 = Call (Store ''y'' 1) (\<lambda>_. p1_loop (e + 4))"
  "at1 e (Read_y j) = Call (Load ''y'') (\<lambda>r. at1 e (Write_x j (num r)))"
  "at1 e (Post_s1 j) = Call (SemPost ''S1'') (\<lambda>_. at1 e (Check1 j))"
  "at1 e (Check1 j) = Call (Load ''x'') (\<lambda>r.
     if num r \<ge> 5 then Call (Print ''length of x exceeded %d, stopping'' [D 5]) (\<lambda>_. q4_end)
     else Call (Print ''I am waiting on S2'' []) (\<lambda>_. at1 e (Wait_s2 j)))"
  "at1 e (Wait_s2 j) = Call (SemWait ''S2'') (\<lambda>_. p1_loop (e + (4 - j)))"
  by (simp_all add: main_p1_def q4_start_def unroll fun_eq_iff)

lemma at2_points:
  "at2 e Init_x2 = Call (Store ''x'' 1) (\<lambda>_. at2 e Init_y2)"
  "at2 e Init_y2 = Call (Store ''y'' 1) (\<lambda>_. p2_loop (e + 4))"
  "at2 e (Check2 j) = Call (Load ''x'') (\<lambda>r.
     if num r \<ge> 5 then Call (Print ''length of x exceeded %d, stopping'' [D 5]) (\<lambda>_. q4_end)
     else Call (Print ''I am waiting for S1'' []) (\<lambda>_. at2 e (Wait_s1 j)))"
  "at2 e (Read_x j) = Call (Load ''x'') (\<lambda>r. at2 e (Write_y j (num r)))"
  "at2 e (Post_s2 j) = Call (SemPost ''S2'') (\<lambda>_. p2_loop (e + (4 - j)))"
  by (simp_all add: main_p2_def q4_start_def unroll fun_eq_iff)

text \<open>The silent calls between the points.\<close>

lemma soon1_start: "soon1 e 8 Init_x1 (main_p1 (e + 4))"
  by (simp add: main_p1_def q4_start_def unroll)

lemma soon1_loop: "1 \<le> j \<Longrightarrow> j \<le> 3 \<Longrightarrow> soon1 e 4 (Read_y j) (p1_loop (Suc (e + (4 - j))))"
  by (simp add: unroll)

lemma soon1_write: "soon1 e 2 (Post_s1 j) (advance (replicate 6 q4_ok) (p1_loop (Suc (e + (4 - j)))))"
  by (simp add: unroll)

lemma drifts_end: "drifts silent q4_expects 12 (Ret (Some 0)) q4_end"
  by (simp add: q4_end_def unroll)

lemma soon2_start: "soon2 e 8 Init_x2 (main_p2 (e + 4))"
  by (simp add: main_p2_def q4_start_def unroll)

lemma soon2_loop: "soon2 e 1 (Check2 j) (p2_loop (Suc (e + (4 - j))))"
  by (simp add: unroll)

lemma soon2_wait: "at2 e (Wait_s1 j) = Call (SemWait ''S1'') f \<Longrightarrow> soon2 e 3 (Read_x j) (f r)"
  by (auto simp: unroll)

lemma soon2_write: "soon2 e 2 (Post_s2 j) (advance (replicate 9 q4_ok) (p2_loop (Suc (e + (4 - j)))))"
  by (simp add: unroll)

lemma serves_simps:
  "q4_serves (Load v) k r k' \<longleftrightarrow> num r = mem k v \<and> k' = k"
  "q4_serves (Store v i) k r k' \<longleftrightarrow> k' = k\<lparr>mem := (mem k)(v := i)\<rparr>"
  "q4_serves (SemPost f) k r k' \<longleftrightarrow> k' = k\<lparr>sem := (sem k)(f := sem k f + 1)\<rparr>"
  "q4_serves (SemWait f) k r k' \<longleftrightarrow> sem k f > 0 \<and> k' = k\<lparr>sem := (sem k)(f := sem k f - 1)\<rparr>"
  by (simp_all add: q4_serves_def)

lemmas good_defs = posted1_def waits2_def in_x_def in_y_def Let_def

text \<open>Every move of the first program from one of its points leads towards the next one.\<close>

lemma move1:
  assumes g: "good q1 q2 k" and c: "at1 e q1 = Call c f" and s: "q4_serves c k r k'"
  shows "\<exists>q n. n \<le> 13 \<and> soon1 e n q (f r) \<and> good q q2 k' \<and> rank1 q < rank1 q1"
proof (cases q1)
  case Init_x1
  then have "f r = at1 e Init_y1" "k' = k\<lparr>mem := (mem k)(''x'' := 1)\<rparr>"
    using c s at1_points(1) [of e] by (auto simp: serves_simps simp del: at1.simps)
  then show ?thesis using g Init_x1
    by (intro exI [of _ Init_y1] exI [of _ 0]) (simp del: at1.simps)
next
  case Init_y1
  then have "f r = p1_loop (Suc (e + (4 - 1)))" "k' = k\<lparr>mem := (mem k)(''y'' := 1)\<rparr>"
    using c s at1_points(2) [of e] by (auto simp: serves_simps add.commute simp del: at1.simps)
  then show ?thesis using g Init_y1 soon1_loop [of 1 e]
    by (intro exI [of _ "Read_y 1"] exI [of _ 4]) (simp add: in_y_def del: at1.simps)
next
  case (Read_y j)
  then have "f r = at1 e (Write_x j (num r))" "k' = k" "num r = mem k ''y''"
    using c s at1_points(3) [of e j] by (auto simp: serves_simps simp del: at1.simps)
  then show ?thesis using g Read_y
    by (intro exI [of _ "Write_x j (num r)"] exI [of _ 0]) (auto simp del: at1.simps)
next
  case (Write_x j v)
  then have "f r = advance (replicate 6 q4_ok) (p1_loop (Suc (e + (4 - j))))" "k' = k\<lparr>mem := (mem k)(''x'' := v + 1)\<rparr>"
    using c s by (auto simp: serves_simps)
  then show ?thesis using g Write_x soon1_write [of e j]
    by (intro exI [of _ "Post_s1 j"] exI [of _ 2]) (auto simp: in_x_def in_y_def simp del: at1.simps p1_loop.simps replicate.simps advance.simps split: if_splits)
next
  case (Post_s1 j)
  then have "f r = at1 e (Check1 j)" "k' = k\<lparr>sem := (sem k)(''S1'' := sem k ''S1'' + 1)\<rparr>"
    using c s at1_points(4) [of e j] by (auto simp: serves_simps simp del: at1.simps)
  then show ?thesis using g Post_s1
    by (intro exI [of _ "Check1 j"] exI [of _ 0]) (auto simp: posted1_def Let_def simp del: at1.simps)
next
  case (Check1 j)
  then have f: "f r = (if num r \<ge> 5 then Call (Print ''length of x exceeded %d, stopping'' [D 5]) (\<lambda>_. q4_end)
     else Call (Print ''I am waiting on S2'' []) (\<lambda>_. at1 e (Wait_s2 j)))" "k' = k" "num r = mem k ''x''"
    using c s at1_points(5) [of e j] by (auto simp: serves_simps simp del: at1.simps)
  have x: "in_x j (mem k ''x'')" and j: "1 \<le> j" "j \<le> 3" and p: "posted1 j q2 k" using g Check1 by (auto simp: posted1_def Let_def)
  show ?thesis
  proof (cases "num r \<ge> 5")
    case True
    then have "j = 3" using x j f(3) by (auto simp: in_x_def)
    then show ?thesis using True f Check1 p drifts_end
      by (intro exI [of _ End1] exI [of _ 13]) (simp add: numeral_eq_Suc)
  next
    case False
    then have "j \<le> 2" using x j f(3) by (auto simp: in_x_def)
    then show ?thesis using False f Check1 p j
      by (intro exI [of _ "Wait_s2 j"] exI [of _ 1]) (simp del: at1.simps)
  qed
next
  case (Wait_s2 j)
  then have f: "f r = p1_loop (e + (4 - j))" "sem k ''S2'' > 0" "k' = k\<lparr>sem := (sem k)(''S2'' := sem k ''S2'' - 1)\<rparr>"
    using c s at1_points(6) [of e j] by (auto simp: serves_simps simp del: at1.simps)
  have j: "1 \<le> j" "j \<le> 2" and p: "posted1 j q2 k" using g Wait_s2 by auto
  then have "4 - j = Suc (4 - Suc j)" by auto
  then have "f r = p1_loop (Suc (e + (4 - Suc j)))" using f(1) by simp
  with j have s: "soon1 e 4 (Read_y (Suc j)) (f r)" using soon1_loop [of "Suc j" e] by simp
  have "good (Read_y (Suc j)) q2 k'"
    using p f(2,3) j by (auto simp: good_defs)
  with s j Wait_s2 show ?thesis by (intro exI [of _ "Read_y (Suc j)"] exI [of _ 4]) (simp del: at1.simps)
next
  case End1
  then show ?thesis using c by simp
qed

text \<open>And of the second.\<close>

lemma move2:
  assumes g: "good q1 q2 k" and c: "at2 e q2 = Call c f" and s: "q4_serves c k r k'"
  shows "\<exists>q n. n \<le> 13 \<and> soon2 e n q (f r) \<and> good q1 q k' \<and> rank2 q < rank2 q2"
proof (cases q2)
  case Init_x2
  then have "f r = at2 e Init_y2" "k' = k\<lparr>mem := (mem k)(''x'' := 1)\<rparr>"
    using c s at2_points(1) [of e] by (auto simp: serves_simps simp del: at2.simps)
  then show ?thesis using g Init_x2
    by (intro exI [of _ Init_y2] exI [of _ 0], cases q1) (auto simp: good_defs simp del: at2.simps)
next
  case Init_y2
  then have "f r = p2_loop (Suc (e + (4 - 1)))" "k' = k\<lparr>mem := (mem k)(''y'' := 1)\<rparr>"
    using c s at2_points(2) [of e] by (auto simp: serves_simps add.commute simp del: at2.simps)
  then show ?thesis using g Init_y2 soon2_loop [of e 1]
    by (intro exI [of _ "Check2 1"] exI [of _ 1], cases q1) (auto simp: good_defs simp del: at2.simps)
next
  case (Check2 j)
  then have f: "f r = (if num r \<ge> 5 then Call (Print ''length of x exceeded %d, stopping'' [D 5]) (\<lambda>_. q4_end)
     else Call (Print ''I am waiting for S1'' []) (\<lambda>_. at2 e (Wait_s1 j)))" "k' = k" "num r = mem k ''x''"
    using c s at2_points(3) [of e j] by (auto simp: serves_simps simp del: at2.simps)
  show ?thesis
  proof (cases "num r \<ge> 5")
    case True
    then have "good q1 (End2 j) k" using g Check2 f(3) by (cases q1) (auto simp: good_defs)
    moreover have "j \<le> 4" using g Check2 by (cases q1) (auto simp: good_defs)
    ultimately show ?thesis using True f Check2 drifts_end
      by (intro exI [of _ "End2 j"] exI [of _ 13]) (simp add: numeral_eq_Suc)
  next
    case False
    then have "good q1 (Wait_s1 j) k" using g Check2 f(3) by (cases q1) (auto simp: good_defs)
    moreover have "j \<le> 4" using g Check2 by (cases q1) (auto simp: good_defs)
    ultimately show ?thesis using False f Check2
      by (intro exI [of _ "Wait_s1 j"] exI [of _ 1]) (simp del: at2.simps)
  qed
next
  case (Wait_s1 j)
  then obtain f' where "at2 e (Wait_s1 j) = Call (SemWait ''S1'') f'" by (auto simp: unroll)
  then have f: "c = SemWait ''S1''" "soon2 e 3 (Read_x j) (f r)" using c Wait_s1 soon2_wait [of e j f] by auto
  then have "sem k ''S1'' > 0" "k' = k\<lparr>sem := (sem k)(''S1'' := sem k ''S1'' - 1)\<rparr>" using s by (auto simp: serves_simps)
  then have "good q1 (Read_x j) k'" using g Wait_s1 by (cases q1) (auto simp: good_defs)
  moreover have "j \<le> 3" using g Wait_s1 by (cases q1) (auto simp: good_defs)
  ultimately show ?thesis using f Wait_s1 by (intro exI [of _ "Read_x j"] exI [of _ 3]) (simp del: at2.simps)
next
  case (Read_x j)
  then have "f r = at2 e (Write_y j (num r))" "k' = k" "num r = mem k ''x''"
    using c s at2_points(4) [of e j] by (auto simp: serves_simps simp del: at2.simps)
  moreover from this have "good q1 (Write_y j (num r)) k" "j \<le> 3" using g Read_x by (cases q1; auto simp: good_defs)+
  ultimately show ?thesis using Read_x
    by (intro exI [of _ "Write_y j (num r)"] exI [of _ 0]) (simp del: at2.simps)
next
  case (Write_y j v)
  then have f: "f r = advance (replicate 9 q4_ok) (p2_loop (Suc (e + (4 - j))))" "k' = k\<lparr>mem := (mem k)(''y'' := v + 1)\<rparr>"
    using c s by (auto simp: serves_simps)
  then have "good q1 (Post_s2 j) k'" "j \<le> 3" using g Write_y by (cases q1; auto simp: good_defs)+
  then show ?thesis using f Write_y soon2_write [of e j]
    by (intro exI [of _ "Post_s2 j"] exI [of _ 2]) (simp del: at2.simps p2_loop.simps replicate.simps advance.simps)
next
  case (Post_s2 j)
  then have f: "f r = p2_loop (e + (4 - j))" "k' = k\<lparr>sem := (sem k)(''S2'' := sem k ''S2'' + 1)\<rparr>"
    using c s at2_points(5) [of e j] by (auto simp: serves_simps simp del: at2.simps)
  have g': "good q1 (Check2 (Suc j)) k'" "j \<le> 3" using g Post_s2 f(2) by (cases q1; auto simp: good_defs)+
  then have "4 - j = Suc (4 - Suc j)" by auto
  then have "f r = p2_loop (Suc (e + (4 - Suc j)))" using f(1) by simp
  then show ?thesis using g' Post_s2 soon2_loop [of e "Suc j"]
    by (intro exI [of _ "Check2 (Suc j)"] exI [of _ 1]) (simp del: at2.simps)
next
  case (End2 j)
  then show ?thesis using c by simp
qed

section \<open>All schedules\<close>

interpretation q4: pointed q4_serves silent q4_expects "at1 e" "at2 e" good rank1 rank2 13 for e
  by unfold_locales (fact silent_serves, fact silent_enabled, fact move1, fact move2)

text \<open>Only a semaphore that is zero blocks.\<close>

lemma not_silent_cases:
  "\<not> silent c \<Longrightarrow> (\<exists>v i. c = Store v i) \<or> (\<exists>s. c = SemPost s) \<or> (\<exists>s. c = SemWait s)"
  by (cases c) (simp_all add: silent_def)

lemma enabled:
  assumes "\<not> (\<exists>s. c = SemWait s \<and> sem k s = 0)"
  shows "\<exists>r k'. q4_serves c k r k'"
proof (cases "silent c")
  case True
  then show ?thesis by (rule silent_enabled)
next
  case False
  then consider v i where "c = Store v i" | s where "c = SemPost s" | s where "c = SemWait s"
    using not_silent_cases by blast
  then show ?thesis using assms by cases (simp_all add: serves_simps)
qed

lemma enabled1: "\<forall>w. \<not> duo_step q4_serves (Call c f, q, k) w \<Longrightarrow> \<exists>s. c = SemWait s \<and> sem k s = 0"
proof (rule ccontr)
  assume n: "\<forall>w. \<not> duo_step q4_serves (Call c f, q, k) w" and "\<not> (\<exists>s. c = SemWait s \<and> sem k s = 0)"
  from enabled [OF this(2)] obtain r k' where "q4_serves c k r k'" by blast
  from duo_step.first [where serves = q4_serves, OF this] n show False by blast
qed

lemma enabled2: "\<forall>w. \<not> duo_step q4_serves (p, Call c f, k) w \<Longrightarrow> \<exists>s. c = SemWait s \<and> sem k s = 0"
proof (rule ccontr)
  assume n: "\<forall>w. \<not> duo_step q4_serves (p, Call c f, k) w" and "\<not> (\<exists>s. c = SemWait s \<and> sem k s = 0)"
  from enabled [OF this(2)] obtain r k' where "q4_serves c k r k'" by blast
  from duo_step.second [where serves = q4_serves, OF this] n show False by blast
qed

definition free :: "int option sys \<Rightarrow> bool" where
  "free p \<longleftrightarrow> (\<exists>c f. p = Call c f \<and> (\<forall>s. c \<noteq> SemWait s))"

lemma free_Call [simp]: "free (Call c f) \<longleftrightarrow> (\<forall>s. c \<noteq> SemWait s)"
  by (simp add: free_def)

lemma at1_head: "q1 = End1 \<or> (\<exists>j f. q1 = Wait_s2 j \<and> at1 e q1 = Call (SemWait ''S2'') f) \<or> free (at1 e q1)"
proof (cases q1)
  case Init_x1
  then show ?thesis using at1_points(1) [of e] by (simp del: at1.simps)
next
  case Init_y1
  then show ?thesis using at1_points(2) [of e] by (simp del: at1.simps)
next
  case (Read_y j)
  then show ?thesis using at1_points(3) [of e j] by (simp del: at1.simps)
next
  case (Write_x j v)
  then show ?thesis by simp
next
  case (Post_s1 j)
  then show ?thesis using at1_points(4) [of e j] by (simp del: at1.simps)
next
  case (Check1 j)
  then show ?thesis using at1_points(5) [of e j] by (simp del: at1.simps)
next
  case (Wait_s2 j)
  then show ?thesis using at1_points(6) [of e j] by (simp del: at1.simps)
qed simp

lemma at2_head: "(\<exists>j. q2 = End2 j) \<or> (\<exists>j f. q2 = Wait_s1 j \<and> at2 e q2 = Call (SemWait ''S1'') f) \<or> free (at2 e q2)"
proof (cases q2)
  case Init_x2
  then show ?thesis using at2_points(1) [of e] by (simp del: at2.simps)
next
  case Init_y2
  then show ?thesis using at2_points(2) [of e] by (simp del: at2.simps)
next
  case (Check2 j)
  then show ?thesis using at2_points(3) [of e j] by (simp del: at2.simps)
next
  case (Wait_s1 j)
  have "\<exists>f. at2 e (Wait_s1 j) = Call (SemWait ''S1'') f" by (simp add: unroll)
  then show ?thesis using Wait_s1 by blast
next
  case (Read_x j)
  then show ?thesis using at2_points(4) [of e j] by (simp del: at2.simps)
next
  case (Write_y j v)
  then show ?thesis by simp
next
  case (Post_s2 j)
  then show ?thesis using at2_points(5) [of e j] by (simp del: at2.simps)
qed simp

lemma q4_ends:
  assumes g: "good q1 q2 k" and n: "\<forall>w. \<not> duo_step q4_serves (at1 e q1, at2 e q2, k) w"
  shows "at1 e q1 = Ret (Some 0) \<and> at2 e q2 = Ret (Some 0) \<and> (mem k ''x'', mem k ''y'') \<in> {(6, 5), (6, 7), (5, 4), (5, 6)}"
proof -
  have n1: "\<exists>s. c = SemWait s \<and> sem k s = 0" if "at1 e q1 = Call c f" for c f
    using enabled1 [of c f "at2 e q2" k] n unfolding that by blast
  have n2: "\<exists>s. c = SemWait s \<and> sem k s = 0" if "at2 e q2 = Call c f" for c f
    using enabled2 [of "at1 e q1" c f k] n unfolding that by blast
  have 1: "q1 = End1 \<or> (\<exists>j. q1 = Wait_s2 j \<and> sem k ''S2'' = 0)"
    using at1_head [of q1 e] unfolding free_def
  proof (elim disjE exE conjE)
    fix j f assume "q1 = Wait_s2 j" "at1 e q1 = Call (SemWait ''S2'') f"
    with n1 [OF this(2)] show ?thesis by simp
  next
    fix c f assume "at1 e q1 = Call c f" "\<forall>s. c \<noteq> SemWait s"
    with n1 [OF this(1)] show ?thesis by blast
  qed simp
  have 2: "(\<exists>j. q2 = End2 j) \<or> (\<exists>j. q2 = Wait_s1 j \<and> sem k ''S1'' = 0)"
    using at2_head [of q2 e] unfolding free_def
  proof (elim disjE exE conjE)
    fix j f assume "q2 = Wait_s1 j" "at2 e q2 = Call (SemWait ''S1'') f"
    with n2 [OF this(2)] show ?thesis by simp
  next
    fix c f assume "at2 e q2 = Call c f" "\<forall>s. c \<noteq> SemWait s"
    with n2 [OF this(1)] show ?thesis by blast
  qed simp
  have "q1 = End1 \<and> (\<exists>j. q2 = End2 j)"
    using 1 2 g by (elim disjE exE conjE) (auto simp: good_defs)
  then obtain j where "q1 = End1" "q2 = End2 j" by blast
  with g show ?thesis by (auto simp: good_defs)
qed

section \<open>Four schedules\<close>

definition q4_answer :: "call \<Rightarrow> shared \<Rightarrow> (resp \<times> shared) option" where
  "q4_answer c k = (case c of
     Load v \<Rightarrow> Some (answered\<lparr>num := mem k v\<rparr>, k)
   | Store v a \<Rightarrow> Some (answered, k\<lparr>mem := (mem k)(v := a)\<rparr>)
   | SemPost s \<Rightarrow> Some (answered, k\<lparr>sem := (sem k)(s := sem k s + 1)\<rparr>)
   | SemWait s \<Rightarrow> if sem k s = 0 then None else Some (answered, k\<lparr>sem := (sem k)(s := sem k s - 1)\<rparr>)
   | _ \<Rightarrow> Some (answered, k))"

lemma q4_answer_serves: "q4_answer c k = Some (r, k') \<Longrightarrow> q4_serves c k r k'"
  by (cases c) (auto simp: q4_answer_def q4_serves_def answered_def split: if_splits)

lemma q4_answers:
  "q4_answer (Load v) k = Some (answered\<lparr>num := mem k v\<rparr>, k)"
  "q4_answer (Store v a) k = Some (answered, k\<lparr>mem := (mem k)(v := a)\<rparr>)"
  "q4_answer (SemPost s) k = Some (answered, k\<lparr>sem := (sem k)(s := sem k s + 1)\<rparr>)"
  "sem k s \<noteq> 0 \<Longrightarrow> q4_answer (SemWait s) k = Some (answered, k\<lparr>sem := (sem k)(s := sem k s - 1)\<rparr>)"
  "q4_answer ScanStr k = Some (answered, k)"
  "q4_answer (Print f x) k = Some (answered, k)"
  "q4_answer (Ftok g) k = Some (answered, k)"
  "q4_answer Shmget k = Some (answered, k)"
  "q4_answer Shmat k = Some (answered, k)"
  "q4_answer (SemOpen g) k = Some (answered, k)"
  "q4_answer (SemClose g) k = Some (answered, k)"
  "q4_answer (SemUnlink g) k = Some (answered, k)"
  "q4_answer (Sleep n) k = Some (answered, k)"
  "q4_answer (Shmdt i) k = Some (answered, k)"
  "q4_answer (ShmRemove i) k = Some (answered, k)"
  by (simp_all add: q4_answer_def)

lemma need_answered: "need (strcpy (replicate 10 0) (data answered)) (\<lambda>_. p) = p"
  by (rule need_scan) (simp add: answered_def)

lemma schedule_scan:
  "schedule q4_answer (True # bs) (scan_c p, q, k) = schedule q4_answer bs (p, q, k)"
  "schedule q4_answer (False # bs) (p, scan_c q, k) = schedule q4_answer bs (p, q, k)"
  by (simp_all add: scan_c_def schedule_first schedule_second q4_answers need_answered)

lemma answered_simps: "res answered = 0" "num (answered\<lparr>num := v\<rparr>) = v" "res (answered\<lparr>num := v\<rparr>) = 0"
  by (simp_all add: answered_def)

lemmas q4_run = schedule_first schedule_second schedule_scan q4_answers answered_simps numeral_eq_Suc
  main_p1_def main_p2_def q4_start_def q4_end_def

definition q4_reaches :: "(bool \<times> nat) list \<Rightarrow> int \<Rightarrow> int \<Rightarrow> bool" where
  "q4_reaches bs a b \<longleftrightarrow> (\<exists>k'. schedule q4_answer (turns_of bs) (main_p1 4, main_p2 4, \<lparr>mem = \<lambda>_. 0, sem = \<lambda>_. 0\<rparr>) =
     Some (Ret (Some 0), Ret (Some 0), k') \<and> mem k' ''x'' = a \<and> mem k' ''y'' = b)"

text \<open>p2.c stops early or not, after initialising before or after the first write of p1.c.\<close>

lemma q4_reaches_6_5:
  "q4_reaches [(True, 10), (False, 10), (True, 11), (False, 12), (True, 12), (False, 12), (True, 24), (False, 15)] 6 5"
  unfolding q4_reaches_def
  by (simp add: turns_of_def numeral_eq_Suc) (simp add: q4_run del: schedule.simps(2) cong: Call_weak)

lemma q4_reaches_6_7:
  "q4_reaches [(True, 10), (False, 10), (True, 11), (False, 12), (True, 12), (False, 15), (True, 24), (False, 24)] 6 7"
  unfolding q4_reaches_def
  by (simp add: turns_of_def numeral_eq_Suc) (simp add: q4_run del: schedule.simps(2) cong: Call_weak)

lemma q4_reaches_5_4:
  "q4_reaches [(True, 21), (False, 22), (True, 12), (False, 12), (True, 24), (False, 15)] 5 4"
  unfolding q4_reaches_def
  by (simp add: turns_of_def numeral_eq_Suc) (simp add: q4_run del: schedule.simps(2) cong: Call_weak)

lemma q4_reaches_5_6:
  "q4_reaches [(True, 21), (False, 22), (True, 12), (False, 15), (True, 24), (False, 24)] 5 6"
  unfolding q4_reaches_def
  by (simp add: turns_of_def numeral_eq_Suc) (simp add: q4_run del: schedule.simps(2) cong: Call_weak)

section \<open>Properties\<close>

text \<open>
  C36. On fresh semaphores, whatever the scheduler does and in whatever state the shared memory
  is, both programs end after at most 562 calls together, neither ever waits for the other for
  good, and the integers are then 6 and 5, 6 and 7, 5 and 4 or 5 and 6: what p2.c does in the
  last round, and whether its initialisation undoes the first write of p1.c, depends on the
  schedule.
\<close>

theorem q4_every_schedule:
  assumes "sem k ''S1'' = 0" "sem k ''S2'' = 0" "4 \<le> n"
    and "(duo_step q4_serves ^^ i) (main_p1 n, main_p2 n, k) (p, q, k')"
  shows "i \<le> 562 \<and> ((\<forall>w. \<not> duo_step q4_serves (p, q, k') w) \<longrightarrow>
    p = Ret (Some 0) \<and> q = Ret (Some 0) \<and> (mem k' ''x'', mem k' ''y'') \<in> {(6, 5), (6, 7), (5, 4), (5, 6)})"
proof -
  obtain e where n: "n = e + 4" using assms(3) by (metis le_add_diff_inverse2)
  have g: "good Init_x1 Init_x2 k" using assms(1,2) by (simp add: waits2_def)
  let ?ranks = "point_ranks silent q4_expects (at1 e) (at2 e) good rank1 rank2 13"
  have "?ranks 562 (main_p1 n, main_p2 n, k)"
    unfolding point_ranks_def n prod.case
    by (intro exI conjI) (rule soon1_start, rule soon2_start, rule g, simp)
  from q4.run [OF assms(4) this] obtain m where r: "?ranks m (p, q, k')" and "i + m \<le> 562" by blast
  from this(2) have "i \<le> 562" by simp
  moreover have "p = Ret (Some 0) \<and> q = Ret (Some 0) \<and> (mem k' ''x'', mem k' ''y'') \<in> {(6, 5), (6, 7), (5, 4), (5, 6)}"
    if "\<forall>w. \<not> duo_step q4_serves (p, q, k') w"
    using q4.stuck [OF r that] q4_ends that by metis
  ultimately show ?thesis by blast
qed

section \<open>Witness\<close>

theorem q4_every_schedule_witness:
  "\<exists>i k'. (duo_step q4_serves ^^ i) (main_p1 4, main_p2 4, \<lparr>mem = \<lambda>_. 0, sem = \<lambda>_. 0\<rparr>) (Ret (Some 0), Ret (Some 0), k') \<and>
    i \<le> 562 \<and> (mem k' ''x'', mem k' ''y'') = (5, 6) \<and> (5, 6) \<in> {(6, 5), (6, 7), (5, 4), (5 :: int, 6 :: int)}"
proof -
  obtain k' where k: "schedule q4_answer (turns_of [(True, 21), (False, 22), (True, 12), (False, 15), (True, 24), (False, 24)])
      (main_p1 4, main_p2 4, \<lparr>mem = \<lambda>_. 0, sem = \<lambda>_. 0\<rparr>) = Some (Ret (Some 0), Ret (Some 0), k')" "mem k' ''x'' = 5" "mem k' ''y'' = 6"
    using q4_reaches_5_6 unfolding q4_reaches_def by blast
  note r = schedule_run [where serves = q4_serves, OF q4_answer_serves k(1)]
  have e: "\<forall>w. \<not> duo_step q4_serves (Ret (Some 0), Ret (Some 0), k') w" by (auto simp: duo_step_iff)
  show ?thesis
    using q4_every_schedule [OF _ _ _ r] e k(2,3) r by (intro exI conjI) (rule r, simp_all)
qed

end
