(* ===== verification/Turns.thy ===== *)
theory Turns
  imports Unix Interleaving
begin

text \<open>
  practice/semaphore_sharedmem/class_example: p1.c appends A to what it last read from \<open>y\<close> and
  writes it to \<open>x\<close>, p2.c appends B to what it read from \<open>x\<close> and writes it to \<open>y\<close>.  They take
  turns with a set of System V semaphores: one lowers its semaphore from 1 to 0, the other waits
  for 0 and sets it back to 1.  Whichever ends first removes the set.
\<close>

section \<open>The programs\<close>

text \<open>\<open>semop\<close> and \<open>semctl(SETVAL)\<close> with their error check.\<close>

definition sem_op :: "int \<Rightarrow> int \<Rightarrow> int option sys \<Rightarrow> int option sys" where
  "sem_op i d p = Call (Semop i d) (\<lambda>r. if res r < 0 then Ret (Some 1) else p)"

definition set_sem :: "int \<Rightarrow> int option sys \<Rightarrow> int option sys" where
  "set_sem i p = Call (SemSetval i 1) (\<lambda>r. if res r < 0 then Ret (Some 1) else p)"

text \<open>\<open>strcpy\<close> into the shared string, \<open>strcat\<close> of one character, \<open>printf\<close>.\<close>

definition append_char :: "string \<Rightarrow> u8 \<Rightarrow> int option sys \<Rightarrow> int option sys" where
  "append_char v c p =
     Call (Load v) (\<lambda>r.
     Call (StoreStr v (data r @ [c])) (\<lambda>_.
     Call (Load v) (\<lambda>r.
     Call (Print (''wrote to '' @ v @ '' = %s'') [S (data r)]) (\<lambda>_. p))))"

text \<open>\<open>strcpy(localcopy, v)\<close> with \<open>char localcopy[100]\<close>.\<close>

definition read_copy :: "string \<Rightarrow> (bytes \<Rightarrow> int option sys) \<Rightarrow> int option sys" where
  "read_copy v p = Call (Load v) (\<lambda>r. if length (data r) < 100 then p (data r) else Ub)"

definition remove_y :: "int option sys" where
  "remove_y = Call (ShmRemove 1) (\<lambda>r.
     if res r < 0 then Call (Print ''already removed'' []) (\<lambda>_. Ret (Some 1)) else Ret (Some 0))"

definition remove_x :: "int option sys" where
  "remove_x = Call (ShmRemove 0) (\<lambda>r.
     if res r < 0 then Call (Print ''already removed'' []) (\<lambda>_. remove_y) else remove_y)"

definition remove_sems :: "int option sys" where
  "remove_sems = Call SemRemove (\<lambda>r.
     let detach = Call (Shmdt 0) (\<lambda>_. Call (Shmdt 1) (\<lambda>_. remove_x)) in
     if res r < 0 then Call (Print ''already removed'' []) (\<lambda>_. detach) else detach)"

definition turn_end :: "int option sys" where
  "turn_end =
     Call (Sleep 2) (\<lambda>_.
     Call (Load ''x'') (\<lambda>r.
     Call (Print ''x = %s'' [S (data r)]) (\<lambda>_.
     Call (Load ''y'') (\<lambda>r.
     Call (Print ''y = %s'' [S (data r)]) (\<lambda>_. remove_sems)))))"

primrec turn_loop1 :: "nat \<Rightarrow> bytes \<Rightarrow> int option sys" where
  "turn_loop1 0 localcopy = Ret None"
| "turn_loop1 (Suc n) localcopy =
     Call (Load ''x'') (\<lambda>r.
     if length (data r) > 5 then Call (Print ''length of x exceeded %d characters'' [D 5]) (\<lambda>_. turn_end)
     else Call (Sleep 1) (\<lambda>_.
     Call (StoreStr ''x'' localcopy) (\<lambda>_.
     append_char ''x'' 65 (
     sem_op 1 (-1) (
     sem_op 2 0 (
     read_copy ''y'' (\<lambda>localcopy.
     set_sem 2 (
     Call (Print ''read from y = %s'' [S localcopy]) (\<lambda>_. turn_loop1 n localcopy)))))))))"

text \<open>The \<open>localcopy\<close> of p2.c is written before it is read in every round.\<close>

primrec turn_loop2 :: "nat \<Rightarrow> int option sys" where
  "turn_loop2 0 = Ret None"
| "turn_loop2 (Suc n) =
     Call (Load ''x'') (\<lambda>r.
     if length (data r) > 5 then Call (Print ''length of x exceeded %d characters'' [D 5]) (\<lambda>_. turn_end)
     else Call (Sleep 1) (\<lambda>_.
     sem_op 1 0 (
     read_copy ''x'' (\<lambda>localcopy.
     set_sem 1 (
     Call (Print ''read from x = %s'' [S localcopy]) (\<lambda>_.
     Call (StoreStr ''y'' localcopy) (\<lambda>_.
     append_char ''y'' 66 (
     sem_op 2 (-1) (turn_loop2 n)))))))))"

text \<open>The start of both mains.  \<open>shmat\<close> is not checked: its -1 is not a valid pointer.\<close>

definition turn_attach :: "int option sys \<Rightarrow> int option sys" where
  "turn_attach body =
     Call Shmat (\<lambda>x.
     Call Shmat (\<lambda>y.
     set_sem 1 (
     set_sem 2 (
     if res x = -1 \<or> res y = -1 then Ub
     else Call (StoreStr ''x'' []) (\<lambda>_.
     Call (StoreStr ''y'' []) (\<lambda>_.
     Call (Print ''all initialized correctly'' []) (\<lambda>_.
     Call (Sleep 3) (\<lambda>_. body))))))))"

definition turn_start :: "int option sys \<Rightarrow> int option sys" where
  "turn_start body =
     Call (Ftok ''p1.c'') (\<lambda>_.
     Call (Ftok ''p2.c'') (\<lambda>_.
     Call Shmget (\<lambda>r.
     if res r < 0 then Ret (Some 1)
     else Call Shmget (\<lambda>r.
     if res r < 0 then Ret (Some 1)
     else Call (Ftok ''p1.c'') (\<lambda>_.
     Call (Semget True) (\<lambda>r.
     if res r \<ge> 0 then turn_attach body
     else if num r = 17 then Call (Semget False) (\<lambda>r. if res r < 0 then Ret (Some 1) else turn_attach body)
     else Ret (Some 1)))))))"

definition main_turn1 :: "nat \<Rightarrow> int option sys" where "main_turn1 n = turn_start (turn_loop1 n [])"
definition main_turn2 :: "nat \<Rightarrow> int option sys" where "main_turn2 n = turn_start (turn_loop2 n)"

section \<open>The shared strings and the semaphores\<close>

record board =
  strs :: "string \<Rightarrow> bytes"
  semval :: "int \<Rightarrow> int"
  live :: bool

text \<open>An operation 0 waits for zero, a negative one for a large enough value; both fail, at once or
  while they wait, when the set has been removed.  The exclusive creation fails with EEXIST, 17, when
  the set exists.  \<open>shmget\<close> and \<open>shmat\<close> succeed.\<close>

definition turn_serves :: "call \<Rightarrow> board \<Rightarrow> resp \<Rightarrow> board \<Rightarrow> bool" where
  "turn_serves c k r k' = (case c of
     Load v \<Rightarrow> data r = strs k v \<and> k' = k
   | StoreStr v s \<Rightarrow> k' = k\<lparr>strs := (strs k)(v := s)\<rparr>
   | Semget excl \<Rightarrow> if live k then k' = k \<and> (if excl then res r = -1 \<and> num r = 17 else 0 \<le> res r)
       else 0 \<le> res r \<and> k' = k\<lparr>live := True, semval := \<lambda>_. 0\<rparr>
   | SemSetval i v \<Rightarrow> if live k then 0 \<le> res r \<and> k' = k\<lparr>semval := (semval k)(i := v)\<rparr> else res r = -1 \<and> k' = k
   | Semop i d \<Rightarrow> if \<not> live k then res r = -1 \<and> k' = k
       else 0 \<le> res r \<and> (if d = 0 then semval k i = 0 \<and> k' = k
         else 0 \<le> semval k i + d \<and> k' = k\<lparr>semval := (semval k)(i := semval k i + d)\<rparr>)
   | SemRemove \<Rightarrow> if live k then 0 \<le> res r \<and> k' = k\<lparr>live := False\<rparr> else res r = -1 \<and> k' = k
   | Shmget \<Rightarrow> 0 \<le> res r \<and> k' = k
   | Shmat \<Rightarrow> 0 \<le> res r \<and> k' = k
   | _ \<Rightarrow> k' = k)"


text \<open>Calls that do not touch the strings, the semaphores or the set.\<close>

definition idle :: "call \<Rightarrow> bool" where
  "idle c \<longleftrightarrow> (case c of Load v \<Rightarrow> True | Print f a \<Rightarrow> True | Sleep n \<Rightarrow> True | Shmdt i \<Rightarrow> True | ShmRemove i \<Rightarrow> True | _ \<Rightarrow> False)"

lemma idle_serves: "idle c \<Longrightarrow> turn_serves c k r k' \<Longrightarrow> True \<and> k' = k"
  by (cases c) (auto simp: idle_def turn_serves_def)

lemma idle_enabled: "idle c \<Longrightarrow> \<exists>r k'. turn_serves c k r k'"
proof -
  define r where "r = answered\<lparr>data := case c of Load v \<Rightarrow> strs k v | _ \<Rightarrow> []\<rparr>"
  show "idle c \<Longrightarrow> ?thesis"
    by (intro exI [of _ r] exI [of _ k], cases c) (auto simp: idle_def turn_serves_def r_def answered_def)
qed

lemma idle_simps [simp]:
  "idle (Load v)" "idle (Print f a)" "idle (Sleep n)" "idle (Shmdt i)" "idle (ShmRemove i)"
  "\<not> idle (StoreStr v s)" "\<not> idle (Semop i d)" "\<not> idle (SemSetval i d)" "\<not> idle SemRemove"
  by (simp_all add: idle_def)

lemma turn_serves_simps:
  "turn_serves (Load v) k r k' \<longleftrightarrow> data r = strs k v \<and> k' = k"
  "turn_serves (StoreStr v s) k r k' \<longleftrightarrow> k' = k\<lparr>strs := (strs k)(v := s)\<rparr>"
  "turn_serves (SemSetval i d) k r k' \<longleftrightarrow> (if live k then 0 \<le> res r \<and> k' = k\<lparr>semval := (semval k)(i := d)\<rparr> else res r = -1 \<and> k' = k)"
  "turn_serves (Semop i 0) k r k' \<longleftrightarrow> (if live k then 0 \<le> res r \<and> semval k i = 0 \<and> k' = k else res r = -1 \<and> k' = k)"
  "turn_serves (Semop i (-1)) k r k' \<longleftrightarrow> (if live k then 0 \<le> res r \<and> 1 \<le> semval k i \<and> k' = k\<lparr>semval := (semval k)(i := semval k i - 1)\<rparr>
     else res r = -1 \<and> k' = k)"
  "turn_serves SemRemove k r k' \<longleftrightarrow> (if live k then 0 \<le> res r \<and> k' = k\<lparr>live := False\<rparr> else res r = -1 \<and> k' = k)"
  "turn_serves (ShmRemove i) k r k' \<longleftrightarrow> k' = k"
  by (auto simp: turn_serves_def)

lemma turn_serves_start:
  "turn_serves (Ftok f) k r k' \<longleftrightarrow> k' = k" "turn_serves (Print f a) k r k' \<longleftrightarrow> k' = k" "turn_serves (Sleep m) k r k' \<longleftrightarrow> k' = k"
  "turn_serves Shmget k r k' \<longleftrightarrow> 0 \<le> res r \<and> k' = k" "turn_serves Shmat k r k' \<longleftrightarrow> 0 \<le> res r \<and> k' = k"
  "live k \<Longrightarrow> turn_serves (Semget excl) k r k' \<longleftrightarrow> k' = k \<and> (if excl then res r = -1 \<and> num r = 17 else 0 \<le> res r)"
  by (auto simp: turn_serves_def)

section \<open>Control points\<close>

text \<open>Rounds are counted from 0: after \<open>j\<close> rounds the strings hold \<open>j\<close> times AB, \<open>x\<close> without the last B.\<close>

primrec ab :: "nat \<Rightarrow> bytes" where
  "ab 0 = []"
| "ab (Suc j) = ab j @ [65, 66]"

definition aba :: "nat \<Rightarrow> bytes" where "aba j = ab j @ [65]"

definition x_before :: "nat \<Rightarrow> bytes" where "x_before j = (case j of 0 \<Rightarrow> [] | Suc i \<Rightarrow> aba i)"

lemma ab_length: "length (ab j) = 2 * j" by (induction j) simp_all

datatype turn1 = Check_x nat | Copy_x nat | Join_x nat | Add_a nat | Post_1 nat | Await_2 nat | Take_y nat | Reset_2 nat
  | Leave1 nat | Over1 int
datatype turn2 = Test_x nat | Await_1 nat | Take_x nat | Reset_1 nat | Copy_y nat | Join_y nat | Add_b nat | Post_2 nat
  | Leave2 nat nat | Over2 nat int

definition rest1 :: "nat \<Rightarrow> bytes \<Rightarrow> int option sys" where
  "rest1 n lc = set_sem 2 (Call (Print ''read from y = %s'' [S lc]) (\<lambda>_. turn_loop1 n lc))"

definition rest2 :: "nat \<Rightarrow> bytes \<Rightarrow> int option sys" where
  "rest2 n lc = set_sem 1 (Call (Print ''read from x = %s'' [S lc]) (\<lambda>_.
     Call (StoreStr ''y'' lc) (\<lambda>_. append_char ''y'' 66 (sem_op 2 (-1) (turn_loop2 n)))))"

definition leaving :: "nat \<Rightarrow> int option sys" where
  "leaving s = (if s = 0 then remove_sems else if s = 1 then remove_x else remove_y)"

definition adding :: "string \<Rightarrow> bytes \<Rightarrow> int option sys \<Rightarrow> int option sys" where
  "adding v t p = Call (StoreStr v t) (\<lambda>_. Call (Load v) (\<lambda>r. Call (Print (''wrote to '' @ v @ '' = %s'') [S (data r)]) (\<lambda>_. p)))"

fun turn_at1 :: "nat \<Rightarrow> turn1 \<Rightarrow> int option sys" where
  "turn_at1 e (Check_x j) = turn_loop1 (e + (5 - j)) (ab j)"
| "turn_at1 e (Copy_x j) = Call (StoreStr ''x'' (ab j)) (\<lambda>_. append_char ''x'' 65 (sem_op 1 (-1) (sem_op 2 0 (read_copy ''y'' (rest1 (e + (4 - j)))))))"
| "turn_at1 e (Join_x j) = append_char ''x'' 65 (sem_op 1 (-1) (sem_op 2 0 (read_copy ''y'' (rest1 (e + (4 - j))))))"
| "turn_at1 e (Add_a j) = adding ''x'' (aba j) (sem_op 1 (-1) (sem_op 2 0 (read_copy ''y'' (rest1 (e + (4 - j))))))"
| "turn_at1 e (Post_1 j) = sem_op 1 (-1) (sem_op 2 0 (read_copy ''y'' (rest1 (e + (4 - j)))))"
| "turn_at1 e (Await_2 j) = sem_op 2 0 (read_copy ''y'' (rest1 (e + (4 - j))))"
| "turn_at1 e (Take_y j) = read_copy ''y'' (rest1 (e + (4 - j)))"
| "turn_at1 e (Reset_2 j) = rest1 (e + (4 - j)) (ab (Suc j))"
| "turn_at1 e (Leave1 s) = leaving s"
| "turn_at1 e (Over1 a) = Ret (Some a)"

fun turn_at2 :: "nat \<Rightarrow> turn2 \<Rightarrow> int option sys" where
  "turn_at2 e (Test_x j) = turn_loop2 (e + (5 - j))"
| "turn_at2 e (Await_1 j) = sem_op 1 0 (read_copy ''x'' (rest2 (e + (4 - j))))"
| "turn_at2 e (Take_x j) = read_copy ''x'' (rest2 (e + (4 - j)))"
| "turn_at2 e (Reset_1 j) = rest2 (e + (4 - j)) (aba j)"
| "turn_at2 e (Copy_y j) = Call (StoreStr ''y'' (aba j)) (\<lambda>_. append_char ''y'' 66 (sem_op 2 (-1) (turn_loop2 (e + (4 - j)))))"
| "turn_at2 e (Join_y j) = append_char ''y'' 66 (sem_op 2 (-1) (turn_loop2 (e + (4 - j))))"
| "turn_at2 e (Add_b j) = adding ''y'' (ab (Suc j)) (sem_op 2 (-1) (turn_loop2 (e + (4 - j))))"
| "turn_at2 e (Post_2 j) = sem_op 2 (-1) (turn_loop2 (e + (4 - j)))"
| "turn_at2 e (Leave2 j s) = leaving s"
| "turn_at2 e (Over2 j a) = Ret (Some a)"

fun turn_rank1 :: "turn1 \<Rightarrow> nat" where
  "turn_rank1 (Check_x j) = 8 * (5 - j) + 4"
| "turn_rank1 (Copy_x j) = 8 * (5 - j) + 3"
| "turn_rank1 (Join_x j) = 8 * (5 - j) + 2"
| "turn_rank1 (Add_a j) = 8 * (5 - j) + 1"
| "turn_rank1 (Post_1 j) = 8 * (5 - j)"
| "turn_rank1 (Await_2 j) = 8 * (5 - j) - 1"
| "turn_rank1 (Take_y j) = 8 * (5 - j) - 2"
| "turn_rank1 (Reset_2 j) = 8 * (5 - j) - 3"
| "turn_rank1 (Leave1 s) = 3 - s"
| "turn_rank1 (Over1 a) = 0"

fun turn_rank2 :: "turn2 \<Rightarrow> nat" where
  "turn_rank2 (Test_x j) = 8 * (5 - j) + 4"
| "turn_rank2 (Await_1 j) = 8 * (5 - j) + 3"
| "turn_rank2 (Take_x j) = 8 * (5 - j) + 2"
| "turn_rank2 (Reset_1 j) = 8 * (5 - j) + 1"
| "turn_rank2 (Copy_y j) = 8 * (5 - j)"
| "turn_rank2 (Join_y j) = 8 * (5 - j) - 1"
| "turn_rank2 (Add_b j) = 8 * (5 - j) - 2"
| "turn_rank2 (Post_2 j) = 8 * (5 - j) - 3"
| "turn_rank2 (Leave2 j s) = 3 - s"
| "turn_rank2 (Over2 j a) = 0"

section \<open>What holds at the control points\<close>

fun x_at :: "turn1 \<Rightarrow> bytes" where
  "x_at (Check_x j) = x_before j"
| "x_at (Copy_x j) = x_before j"
| "x_at (Join_x j) = ab j"
| "x_at (Add_a j) = ab j"
| "x_at (Post_1 j) = aba j"
| "x_at (Await_2 j) = aba j"
| "x_at (Take_y j) = aba j"
| "x_at (Reset_2 j) = aba j"
| "x_at _ = aba 3"

fun y_at :: "turn2 \<Rightarrow> bytes" where
  "y_at (Join_y j) = aba j"
| "y_at (Add_b j) = aba j"
| "y_at (Post_2 j) = ab (Suc j)"
| "y_at (Test_x j) = ab j"
| "y_at (Await_1 j) = ab j"
| "y_at (Take_x j) = ab j"
| "y_at (Reset_1 j) = ab j"
| "y_at (Copy_y j) = ab j"
| "y_at (Leave2 j s) = ab j"
| "y_at (Over2 j a) = ab j"

text \<open>Who has removed the set; \<open>left_in j\<close>: p2.c has left its loop in round \<open>j\<close>.\<close>

fun removed1 :: "turn1 \<Rightarrow> bool" where
  "removed1 (Leave1 s) \<longleftrightarrow> 0 < s"
| "removed1 (Over1 a) \<longleftrightarrow> True"
| "removed1 _ \<longleftrightarrow> False"

fun removed2 :: "turn2 \<Rightarrow> bool" where
  "removed2 (Leave2 j s) \<longleftrightarrow> 0 < s"
| "removed2 (Over2 j a) \<longleftrightarrow> True"
| "removed2 _ \<longleftrightarrow> False"

fun left_in :: "nat \<Rightarrow> turn2 \<Rightarrow> bool" where
  "left_in j (Leave2 i s) \<longleftrightarrow> i = j \<and> s \<le> 2"
| "left_in j (Over2 i a) \<longleftrightarrow> i = j \<and> (a = 0 \<or> a = 1)"
| "left_in j _ \<longleftrightarrow> False"

text \<open>p2.c before its move in round \<open>j\<close>.\<close>

definition rests2 :: "nat \<Rightarrow> turn2 \<Rightarrow> bool" where
  "rests2 j q \<longleftrightarrow> q = Test_x j \<or> (j \<le> 3 \<and> q = Await_1 j) \<or> (j = 4 \<and> left_in 4 q)"

fun together :: "turn1 \<Rightarrow> turn2 \<Rightarrow> int \<Rightarrow> int \<Rightarrow> bool" where
  "together (Check_x j) q a b \<longleftrightarrow> j \<le> 4 \<and> rests2 j q \<and> a = 1 \<and> b = 1"
| "together (Copy_x j) q a b \<longleftrightarrow> j \<le> 3 \<and> rests2 j q \<and> a = 1 \<and> b = 1"
| "together (Join_x j) q a b \<longleftrightarrow> j \<le> 3 \<and> (rests2 j q \<or> j = 3 \<and> left_in 3 q) \<and> a = 1 \<and> b = 1"
| "together (Add_a j) q a b \<longleftrightarrow> j \<le> 3 \<and> (rests2 j q \<or> j = 3 \<and> left_in 3 q) \<and> a = 1 \<and> b = 1"
| "together (Post_1 j) q a b \<longleftrightarrow> j \<le> 3 \<and> (rests2 j q \<or> j = 3 \<and> left_in 3 q) \<and> a = 1 \<and> b = 1"
| "together (Await_2 j) q a b \<longleftrightarrow> j \<le> 3 \<and>
     ((rests2 j q \<or> j = 3 \<and> left_in 3 q \<or> q = Take_x j \<or> q = Reset_1 j) \<and> a = 0 \<and> b = 1 \<or>
      (q = Copy_y j \<or> q = Join_y j \<or> q = Add_b j \<or> q = Post_2 j) \<and> a = 1 \<and> b = 1 \<or>
      rests2 (Suc j) q \<and> a = 1 \<and> b = 0)"
| "together (Take_y j) q a b \<longleftrightarrow> j \<le> 3 \<and> rests2 (Suc j) q \<and> a = 1 \<and> b = 0"
| "together (Reset_2 j) q a b \<longleftrightarrow> j \<le> 3 \<and> rests2 (Suc j) q \<and> a = 1 \<and> b = 0"
| "together (Leave1 s) q a b \<longleftrightarrow> s \<le> 2 \<and> rests2 4 q"
| "together (Over1 c) q a b \<longleftrightarrow> (c = 0 \<or> c = 1) \<and> rests2 4 q \<or> c = 1 \<and> left_in 3 q \<and> removed2 q"

definition in_turn :: "turn1 \<Rightarrow> turn2 \<Rightarrow> board \<Rightarrow> bool" where
  "in_turn q1 q2 k \<longleftrightarrow> strs k ''x'' = x_at q1 \<and> strs k ''y'' = y_at q2 \<and> (live k \<longleftrightarrow> \<not> removed1 q1 \<and> \<not> removed2 q2) \<and>
     together q1 q2 (semval k 1) (semval k 2)"

abbreviation (input) soon :: "nat \<Rightarrow> int option sys \<Rightarrow> int option sys \<Rightarrow> bool" where
  "soon n q p \<equiv> drifts idle (\<lambda>_ _. True) n q p"

section \<open>From point to point\<close>

lemmas turn_defs = sem_op_def set_sem_def append_char_def read_copy_def adding_def rest1_def rest2_def leaving_def
  remove_sems_def remove_x_def remove_y_def

lemma drifts_0 [simp]: "drifts L E 0 q p \<longleftrightarrow> p = q" by simp

lemma x_before_simps [simp]: "x_before 0 = []" "x_before (Suc j) = aba j"
  by (simp_all add: x_before_def)

lemma text_lengths: "length (aba j) = 2 * j + 1" "length (x_before j) = (if j = 0 then 0 else 2 * j - 1)"
  by (simp_all add: aba_def ab_length x_before_def split: nat.split)

lemma ab_aba: "aba j @ [66] = ab (Suc j)" "ab j @ [65] = aba j"
  by (simp_all add: aba_def)

lemma turn_at1_Check_x: "j \<le> 4 \<Longrightarrow> turn_at1 e (Check_x j) = Call (Load ''x'') (\<lambda>r.
     if length (data r) > 5 then Call (Print ''length of x exceeded %d characters'' [D 5]) (\<lambda>_. turn_end)
     else Call (Sleep 1) (\<lambda>_. turn_at1 e (Copy_x j)))"
proof -
  assume "j \<le> 4"
  then have n: "e + (5 - j) = Suc (e + (4 - j))" by linarith
  show ?thesis by (simp only: turn_at1.simps n turn_loop1.simps rest1_def [abs_def])
qed

lemma turn_at2_Test_x: "j \<le> 4 \<Longrightarrow> turn_at2 e (Test_x j) = Call (Load ''x'') (\<lambda>r.
     if length (data r) > 5 then Call (Print ''length of x exceeded %d characters'' [D 5]) (\<lambda>_. turn_end)
     else Call (Sleep 1) (\<lambda>_. turn_at2 e (Await_1 j)))"
proof -
  assume "j \<le> 4"
  then have n: "e + (5 - j) = Suc (e + (4 - j))" by linarith
  show ?thesis by (simp only: turn_at2.simps n turn_loop2.simps rest2_def [abs_def])
qed

lemma soon_leave: "soon 6 (leaving 0) (Call (Print f a) (\<lambda>_. turn_end))"
  by (simp add: turn_end_def leaving_def numeral_eq_Suc)

text \<open>The way out, the same for both programs.\<close>

lemma leave_move:
  assumes "leaving s = Call c f" "s \<le> 2" "turn_serves c k r k'"
  shows "k' = (if s = 0 then k\<lparr>live := False\<rparr> else k) \<and>
    (if s < 2 then \<exists>n\<le>3. soon n (leaving (Suc s)) (f r) else \<exists>n\<le>3. \<exists>a. (a = 0 \<or> a = 1) \<and> soon n (Ret (Some a)) (f r))"
proof -
  consider "s = 0" | "s = 1" | "s = 2" using assms(2) by linarith
  then show ?thesis
  proof cases
    case 1
    then have f: "c = SemRemove" "f r = (if res r < 0 then Call (Print ''already removed'' []) (\<lambda>_. Call (Shmdt 0) (\<lambda>_. Call (Shmdt 1) (\<lambda>_. remove_x)))
        else Call (Shmdt 0) (\<lambda>_. Call (Shmdt 1) (\<lambda>_. remove_x)))"
      using assms(1) by (auto simp: leaving_def remove_sems_def Let_def)
    have k: "k' = k\<lparr>live := False\<rparr>" using assms(3) unfolding f(1) turn_serves_simps by (auto split: if_splits)
    have "soon (Suc (Suc (Suc 0))) (leaving 1) (f r) \<or> soon (Suc (Suc 0)) (leaving 1) (f r)" unfolding f(2) by (simp add: leaving_def)
    moreover have "Suc (Suc (Suc 0)) \<le> 3" "Suc (Suc 0) \<le> 3" by simp_all
    ultimately have "\<exists>n\<le>3. soon n (leaving 1) (f r)" by blast
    with k 1 show ?thesis by simp
  next
    case 2
    then have f: "c = ShmRemove 0" "f r = (if res r < 0 then Call (Print ''already removed'' []) (\<lambda>_. remove_y) else remove_y)"
      using assms(1) by (auto simp: leaving_def remove_x_def)
    have k: "k' = k" using assms(3) unfolding f(1) turn_serves_simps .
    have "soon (Suc 0) (leaving 2) (f r) \<or> soon 0 (leaving 2) (f r)" unfolding f(2) by (simp add: leaving_def)
    moreover have "Suc 0 \<le> 3" "0 \<le> (3 :: nat)" by simp_all
    ultimately have "\<exists>n\<le>3. soon n (leaving 2) (f r)" by blast
    with k 2 show ?thesis by (simp add: numeral_2_eq_2)
  next
    case 3
    then have f: "c = ShmRemove 1" "f r = (if res r < 0 then Call (Print ''already removed'' []) (\<lambda>_. Ret (Some 1)) else Ret (Some 0))"
      using assms(1) by (auto simp: leaving_def remove_y_def)
    have k: "k' = k" using assms(3) unfolding f(1) turn_serves_simps .
    have "soon (Suc 0) (Ret (Some 1)) (f r) \<or> soon 0 (Ret (Some 0)) (f r)" unfolding f(2) by simp
    moreover have "Suc 0 \<le> 3" "0 \<le> (3 :: nat)" by simp_all
    ultimately have "\<exists>n\<le>3. \<exists>a. (a = 0 \<or> a = 1) \<and> soon n (Ret (Some a)) (f r)" by blast
    with k 3 show ?thesis by simp
  qed
qed

lemma in_turnD:
  assumes "in_turn q1 q2 k"
  shows "strs k ''x'' = x_at q1" "strs k ''y'' = y_at q2" "live k \<longleftrightarrow> \<not> removed1 q1 \<and> \<not> removed2 q2"
    "together q1 q2 (semval k 1) (semval k 2)"
  using assms by (simp_all add: in_turn_def)

lemma left_in_not: "left_in j q \<Longrightarrow> q \<noteq> Test_x i \<and> q \<noteq> Await_1 i \<and> q \<noteq> Take_x i \<and> q \<noteq> Reset_1 i \<and> q \<noteq> Copy_y i \<and> q \<noteq> Join_y i \<and>
    q \<noteq> Add_b i \<and> q \<noteq> Post_2 i"
  by (cases q) auto

lemma left_in_y: "left_in j q \<Longrightarrow> y_at q = ab j" by (cases q) auto
lemma rests2_y: "rests2 j q \<Longrightarrow> y_at q = ab j" by (auto simp: rests2_def left_in_y)
lemma removed_rests2: "removed2 q \<Longrightarrow> rests2 j q \<Longrightarrow> j = 4 \<and> left_in 4 q" by (auto simp: rests2_def)

text \<open>A call at a point of the first program leads towards its next point.\<close>

lemma turn_move1:
  assumes g: "in_turn q1 q2 k" and c: "turn_at1 e q1 = Call c f" and s: "turn_serves c k r k'"
  shows "\<exists>q n. n \<le> 6 \<and> soon n (turn_at1 e q) (f r) \<and> in_turn q q2 k' \<and> turn_rank1 q < turn_rank1 q1"
proof -
  note g' = in_turnD [OF g]
  have intro: ?thesis if "n \<le> 6" "soon n (turn_at1 e q) (f r)" "in_turn q q2 k'" "turn_rank1 q < turn_rank1 q1" for n q
    using that by blast
  show ?thesis
  proof (cases q1)
    case (Check_x j)
    then have j: "j \<le> 4" "rests2 j q2" using g'(4) by auto
    note f = c [unfolded Check_x turn_at1_Check_x [OF j(1)]]
    have k: "k' = k" "data r = x_before j" using f s g'(1) Check_x by (auto simp: turn_serves_simps)
    show ?thesis
    proof (cases "length (data r) > 5")
      case True
      then have "j = 4" using k(2) j(1) by (auto simp: text_lengths split: if_splits)
      have "soon 6 (turn_at1 e (Leave1 0)) (f r)" using True f soon_leave by auto
      moreover have "in_turn (Leave1 0) q2 k" using g Check_x \<open>j = 4\<close> by (simp add: in_turn_def x_before_def eval_nat_numeral)
      ultimately show ?thesis using intro [of 6 "Leave1 0"] Check_x \<open>j = 4\<close> k(1) by simp
    next
      case False
      then have "j \<le> 3" using k(2) j(1) by (auto simp: text_lengths split: if_splits)
      have "soon (Suc 0) (turn_at1 e (Copy_x j)) (f r)" using False f by (auto simp del: turn_at1.simps)
      moreover have "in_turn (Copy_x j) q2 k" using g Check_x \<open>j \<le> 3\<close> by (simp add: in_turn_def)
      ultimately show ?thesis using intro [of "Suc 0" "Copy_x j"] Check_x k(1) by (simp del: turn_at1.simps)
    qed
  next
    case (Copy_x j)
    then have f: "c = StoreStr ''x'' (ab j)" "f r = turn_at1 e (Join_x j)" using c by auto
    then have "in_turn (Join_x j) q2 k'" using g Copy_x s by (auto simp: in_turn_def turn_serves_simps)
    then show ?thesis using intro [of 0 "Join_x j"] f(2) Copy_x by (simp del: turn_at1.simps)
  next
    case (Join_x j)
    then have f: "c = Load ''x''" "f r = Call (StoreStr ''x'' (data r @ [65])) (\<lambda>_. Call (Load ''x'') (\<lambda>r.
        Call (Print (''wrote to '' @ ''x'' @ '' = %s'') [S (data r)]) (\<lambda>_. turn_at1 e (Post_1 j))))"
      using c by (auto simp: append_char_def)
    then have k: "k' = k" "data r = ab j" using s g'(1) Join_x by (simp_all add: turn_serves_simps)
    then have "f r = turn_at1 e (Add_a j)" using f(2) by (simp add: adding_def ab_aba)
    moreover have "in_turn (Add_a j) q2 k" using g Join_x by (simp add: in_turn_def)
    ultimately show ?thesis using intro [of 0 "Add_a j"] k Join_x by (simp del: turn_at1.simps)
  next
    case (Add_a j)
    then have f: "c = StoreStr ''x'' (aba j)" "soon (Suc (Suc 0)) (turn_at1 e (Post_1 j)) (f r)" using c by (auto simp: adding_def)
    then have "in_turn (Post_1 j) q2 k'" using g Add_a s by (auto simp: in_turn_def turn_serves_simps)
    then show ?thesis using intro [of "Suc (Suc 0)" "Post_1 j"] f(2) Add_a by (simp del: turn_at1.simps)
  next
    case (Post_1 j)
    then have f: "c = Semop 1 (-1)" "f r = (if res r < 0 then Ret (Some 1) else turn_at1 e (Await_2 j))" using c by (auto simp: sem_op_def)
    have j: "j \<le> 3" and t: "rests2 j q2 \<or> j = 3 \<and> left_in 3 q2" "semval k 1 = 1" "semval k 2 = 1" using g'(4) Post_1 by auto
    show ?thesis
    proof (cases "live k")
      case True
      then have "k' = k\<lparr>semval := (semval k)(1 := 0)\<rparr>" "f r = turn_at1 e (Await_2 j)" using s f t(2) by (auto simp: turn_serves_simps)
      moreover from this have "in_turn (Await_2 j) q2 k'" using g Post_1 by (auto simp: in_turn_def)
      ultimately show ?thesis using intro [of 0 "Await_2 j"] j Post_1 by (simp del: turn_at1.simps)
    next
      case False
      then have "k' = k" "f r = Ret (Some 1)" using s f by (auto simp: turn_serves_simps)
      moreover have "in_turn (Over1 1) q2 k"
        using g Post_1 False j t(1) removed_rests2 [of q2 j] by (auto simp: in_turn_def)
      ultimately show ?thesis using intro [of 0 "Over1 1"] j Post_1 by simp
    qed
  next
    case (Await_2 j)
    then have f: "c = Semop 2 0" "f r = (if res r < 0 then Ret (Some 1) else turn_at1 e (Take_y j))" using c by (auto simp: sem_op_def)
    have j: "j \<le> 3" using g'(4) Await_2 by auto
    show ?thesis
    proof (cases "live k")
      case True
      then have k: "k' = k" "semval k 2 = 0" "f r = turn_at1 e (Take_y j)" using s f by (auto simp: turn_serves_simps)
      then have "in_turn (Take_y j) q2 k'" using g Await_2 by (auto simp: in_turn_def)
      with k show ?thesis using intro [of 0 "Take_y j"] j Await_2 by (simp del: turn_at1.simps)
    next
      case False
      then have "k' = k" "f r = Ret (Some 1)" using s f by (auto simp: turn_serves_simps)
      moreover have "removed2 q2" using False g'(3) Await_2 by simp
      with g'(4) j Await_2 removed_rests2 [of q2 j] removed_rests2 [of q2 "Suc j"]
      have "j = 3 \<and> (left_in 3 q2 \<or> rests2 4 q2)" by auto
      then have "in_turn (Over1 1) q2 k" using g Await_2 False \<open>removed2 q2\<close> by (auto simp: in_turn_def)
      ultimately show ?thesis using intro [of 0 "Over1 1"] j Await_2 by simp
    qed
  next
    case (Take_y j)
    then have t: "j \<le> 3" "rests2 (Suc j) q2" using g'(4) by auto
    have f: "c = Load ''y''" "f r = (if length (data r) < 100 then rest1 (e + (4 - j)) (data r) else Ub)"
      using c Take_y by (auto simp: read_copy_def)
    then have k: "k' = k" "data r = ab (Suc j)" using s g'(2) rests2_y [OF t(2)] by (simp_all add: turn_serves_simps)
    then have "f r = turn_at1 e (Reset_2 j)" using f(2) t(1) ab_length [of "Suc j"] by simp
    moreover have "in_turn (Reset_2 j) q2 k" using g Take_y by (simp add: in_turn_def)
    ultimately show ?thesis using intro [of 0 "Reset_2 j"] t k Take_y by (simp del: turn_at1.simps)
  next
    case (Reset_2 j)
    then have t: "j \<le> 3" "rests2 (Suc j) q2" "semval k 1 = 1" "semval k 2 = 0" using g'(4) by auto
    have f: "c = SemSetval 2 1" "f r = (if res r < 0 then Ret (Some 1) else Call (Print ''read from y = %s'' [S (ab (Suc j))])
        (\<lambda>_. turn_loop1 (e + (4 - j)) (ab (Suc j))))"
      using c Reset_2 by (auto simp: rest1_def set_sem_def simp del: ab.simps)
    show ?thesis
    proof (cases "live k")
      case True
      then have k: "k' = k\<lparr>semval := (semval k)(2 := 1)\<rparr>" "\<not> res r < 0" using s f(1) by (auto simp: turn_serves_simps)
      have "soon (Suc 0) (turn_at1 e (Check_x (Suc j))) (f r)" using f(2) k(2) by (simp add: eval_nat_numeral)
      moreover have "in_turn (Check_x (Suc j)) q2 k'" using g Reset_2 k(1) by (auto simp: in_turn_def)
      ultimately show ?thesis using intro [of "Suc 0" "Check_x (Suc j)"] t(1) Reset_2 by (simp del: turn_at1.simps)
    next
      case False
      then have "k' = k" "f r = Ret (Some 1)" using s f by (auto simp: turn_serves_simps)
      moreover have "removed2 q2" using False g'(3) Reset_2 by simp
      then have "j = 3" "left_in 4 q2" using removed_rests2 [OF _ t(2)] by auto
      then have "in_turn (Over1 1) q2 k" using g Reset_2 False \<open>removed2 q2\<close> by (auto simp: in_turn_def rests2_def)
      ultimately show ?thesis using intro [of 0 "Over1 1"] t Reset_2 by simp
    qed
  next
    case (Leave1 s')
    then have t: "s' \<le> 2" "rests2 4 q2" using g'(4) by auto
    have l: "leaving s' = Call c f" using c Leave1 by simp
    note m = leave_move [OF l t(1) s]
    show ?thesis
    proof (cases "s' < 2")
      case True
      then obtain n where "n \<le> 3" "soon n (leaving (Suc s')) (f r)" using m by auto
      moreover have "in_turn (Leave1 (Suc s')) q2 k'" using g Leave1 m True by (auto simp: in_turn_def)
      ultimately show ?thesis using intro [of n "Leave1 (Suc s')"] Leave1 True by simp
    next
      case False
      then obtain n a where "n \<le> 3" "soon n (Ret (Some a)) (f r)" "a = 0 \<or> a = 1" using m by auto
      moreover have "in_turn (Over1 a) q2 k'" using g Leave1 m False t \<open>a = 0 \<or> a = 1\<close> by (auto simp: in_turn_def)
      ultimately show ?thesis using intro [of n "Over1 a"] Leave1 False t(1) by simp
    qed
  next
    case (Over1 a)
    then show ?thesis using c by simp
  qed
qed

text \<open>The second program tests a long string in round 3 while p1.c is about to post, or in round 4.\<close>

lemma test_x:
  assumes g: "in_turn q1 (Test_x j) k"
  shows "j \<le> 4" "length (x_at q1) > 5 \<Longrightarrow> in_turn q1 (Leave2 j 0) k"
    "\<not> length (x_at q1) > 5 \<Longrightarrow> in_turn q1 (Await_1 j) k"
  using g by (cases q1; auto simp: in_turn_def rests2_def text_lengths ab_length split: if_splits)+

lemma turn_move2:
  assumes g: "in_turn q1 q2 k" and c: "turn_at2 e q2 = Call c f" and s: "turn_serves c k r k'"
  shows "\<exists>q n. n \<le> 6 \<and> soon n (turn_at2 e q) (f r) \<and> in_turn q1 q k' \<and> turn_rank2 q < turn_rank2 q2"
proof -
  note g' = in_turnD [OF g]
  have intro: ?thesis if "n \<le> 6" "soon n (turn_at2 e q) (f r)" "in_turn q1 q k'" "turn_rank2 q < turn_rank2 q2" for n q
    using that by blast
  show ?thesis
  proof (cases q2)
    case (Test_x j)
    note t = test_x [OF g [unfolded Test_x]]
    note f = c [unfolded Test_x turn_at2_Test_x [OF t(1)]]
    have k: "k' = k" "data r = x_at q1" using f s g'(1) by (auto simp: turn_serves_simps)
    show ?thesis
    proof (cases "length (data r) > 5")
      case True
      have "soon 6 (turn_at2 e (Leave2 j 0)) (f r)" using True f soon_leave by auto
      with t(2) True k show ?thesis using intro [of 6 "Leave2 j 0"] Test_x by simp
    next
      case False
      have "soon (Suc 0) (turn_at2 e (Await_1 j)) (f r)" using False f by (auto simp del: turn_at2.simps)
      with t(3) False k show ?thesis using intro [of "Suc 0" "Await_1 j"] Test_x by (simp del: turn_at2.simps)
    qed
  next
    case (Await_1 j)
    then have f: "c = Semop 1 0" "f r = (if res r < 0 then Ret (Some 1) else turn_at2 e (Take_x j))" using c by (auto simp: sem_op_def)
    have l: "live k" using g Await_1 by (cases q1) (auto simp: in_turn_def rests2_def)
    then have k: "k' = k" "semval k 1 = 0" "f r = turn_at2 e (Take_x j)" using s f by (auto simp: turn_serves_simps)
    then have "in_turn q1 (Take_x j) k" using g l Await_1 by (cases q1) (auto simp: in_turn_def rests2_def)
    with k show ?thesis using intro [of 0 "Take_x j"] Await_1 by (simp del: turn_at2.simps)
  next
    case (Take_x j)
    then have t: "j \<le> 3" "x_at q1 = aba j" "in_turn q1 (Reset_1 j) k" using g by (cases q1; auto simp: in_turn_def rests2_def)+
    have f: "c = Load ''x''" "f r = (if length (data r) < 100 then rest2 (e + (4 - j)) (data r) else Ub)"
      using c Take_x by (auto simp: read_copy_def)
    then have k: "k' = k" "data r = aba j" using s g'(1) t(2) by (simp_all add: turn_serves_simps)
    then have "f r = turn_at2 e (Reset_1 j)" using f(2) t(1) by (simp add: text_lengths)
    then show ?thesis using intro [of 0 "Reset_1 j"] t k Take_x by (simp del: turn_at2.simps)
  next
    case (Reset_1 j)
    have f: "c = SemSetval 1 1" "f r = (if res r < 0 then Ret (Some 1) else Call (Print ''read from x = %s'' [S (aba j)]) (\<lambda>_. turn_at2 e (Copy_y j)))"
      using c Reset_1 by (auto simp: rest2_def set_sem_def)
    have l: "live k" using g Reset_1 by (cases q1) (auto simp: in_turn_def rests2_def)
    then have k: "k' = k\<lparr>semval := (semval k)(1 := 1)\<rparr>" "\<not> res r < 0" using s f(1) by (auto simp: turn_serves_simps)
    have "soon (Suc 0) (turn_at2 e (Copy_y j)) (f r)" using f(2) k(2) by simp
    moreover have "in_turn q1 (Copy_y j) k'" using g Reset_1 k(1) l by (cases q1) (auto simp: in_turn_def rests2_def)
    ultimately show ?thesis using intro [of "Suc 0" "Copy_y j"] Reset_1 by (simp del: turn_at2.simps)
  next
    case (Copy_y j)
    then have f: "c = StoreStr ''y'' (aba j)" "f r = turn_at2 e (Join_y j)" using c by auto
    have "j \<le> 3" "in_turn q1 (Join_y j) k'" using g Copy_y s f by (cases q1; auto simp: in_turn_def rests2_def turn_serves_simps)+
    then show ?thesis using intro [of 0 "Join_y j"] f(2) Copy_y by (simp del: turn_at2.simps)
  next
    case (Join_y j)
    then have f: "c = Load ''y''" "f r = Call (StoreStr ''y'' (data r @ [66])) (\<lambda>_. Call (Load ''y'') (\<lambda>r.
        Call (Print (''wrote to '' @ ''y'' @ '' = %s'') [S (data r)]) (\<lambda>_. turn_at2 e (Post_2 j))))"
      using c by (auto simp: append_char_def)
    then have k: "k' = k" "data r = aba j" using s g'(2) Join_y by (simp_all add: turn_serves_simps)
    then have "f r = turn_at2 e (Add_b j)" using f(2) by (simp add: adding_def ab_aba(1) del: ab.simps)
    moreover have "j \<le> 3" "in_turn q1 (Add_b j) k" using g Join_y by (cases q1; auto simp: in_turn_def rests2_def)+
    ultimately show ?thesis using intro [of 0 "Add_b j"] k Join_y by (simp del: turn_at2.simps)
  next
    case (Add_b j)
    then have f: "c = StoreStr ''y'' (ab (Suc j))" "soon (Suc (Suc 0)) (turn_at2 e (Post_2 j)) (f r)"
      using c by (auto simp: adding_def simp del: ab.simps)
    have "j \<le> 3" "in_turn q1 (Post_2 j) k'"
      using g Add_b s f(1) by (cases q1; auto simp: in_turn_def rests2_def turn_serves_simps simp del: ab.simps)+
    then show ?thesis using intro [of "Suc (Suc 0)" "Post_2 j"] f(2) Add_b by (simp del: turn_at2.simps)
  next
    case (Post_2 j)
    have f: "c = Semop 2 (-1)" "f r = (if res r < 0 then Ret (Some 1) else turn_loop2 (e + (4 - j)))" using c Post_2 by (auto simp: sem_op_def)
    have l: "live k" "semval k 2 = 1" "j \<le> 3" using g Post_2 by (cases q1; auto simp: in_turn_def rests2_def)+
    then have k: "k' = k\<lparr>semval := (semval k)(2 := 0)\<rparr>" "f r = turn_at2 e (Test_x (Suc j))"
      using s f by (auto simp: turn_serves_simps eval_nat_numeral)
    have "in_turn q1 (Test_x (Suc j)) k'" using g Post_2 k(1) l by (cases q1) (auto simp: in_turn_def rests2_def simp del: ab.simps)
    then show ?thesis using intro [of 0 "Test_x (Suc j)"] k(2) l(3) Post_2 by (simp del: turn_at2.simps)
  next
    case (Leave2 j s')
    then have t: "s' \<le> 2" using g by (cases q1) (auto simp: in_turn_def rests2_def)
    have l: "leaving s' = Call c f" using c Leave2 by simp
    note m = leave_move [OF l t s]
    show ?thesis
    proof (cases "s' < 2")
      case True
      then obtain n where "n \<le> 3" "soon n (leaving (Suc s')) (f r)" using m by auto
      moreover have "in_turn q1 (Leave2 j (Suc s')) k'" using g Leave2 m True
        by (cases q1) (auto simp: in_turn_def rests2_def)
      ultimately show ?thesis using intro [of n "Leave2 j (Suc s')"] Leave2 True by simp
    next
      case False
      then obtain n a where "n \<le> 3" "soon n (Ret (Some a)) (f r)" "a = 0 \<or> a = 1" using m by auto
      moreover have "in_turn q1 (Over2 j a) k'" using g Leave2 m False t \<open>a = 0 \<or> a = 1\<close>
        by (cases q1) (auto simp: in_turn_def rests2_def)
      ultimately show ?thesis using intro [of n "Over2 j a"] Leave2 False t by simp
    qed
  next
    case (Over2 j a)
    then show ?thesis using c by simp
  qed
qed

interpretation turns: pointed turn_serves idle "\<lambda>_ _. True" "turn_at1 e" "turn_at2 e" in_turn turn_rank1 turn_rank2 6 for e
  by unfold_locales (fact idle_serves, fact idle_enabled, fact turn_move1, fact turn_move2)

section \<open>Where the programs stop\<close>

lemma served:
  "\<exists>r k'. turn_serves (Load v) k r k'" "\<exists>r k'. turn_serves (StoreStr v t) k r k'" "\<exists>r k'. turn_serves (SemSetval i d) k r k'"
  "\<exists>r k'. turn_serves SemRemove k r k'" "\<exists>r k'. turn_serves (ShmRemove i) k r k'"
  "\<not> live k \<or> semval k i = 0 \<Longrightarrow> \<exists>r k'. turn_serves (Semop i 0) k r k'"
  "\<not> live k \<or> 1 \<le> semval k i \<Longrightarrow> \<exists>r k'. turn_serves (Semop i (-1)) k r k'"
  by (rule exI [of _ "answered\<lparr>res := if live k then 0 else -1, data := strs k v\<rparr>"], simp add: turn_serves_simps answered_def)+

lemma leaving_heads:
  assumes "s \<le> 2" "leaving s = p"
  shows "\<exists>c f. p = Call c f \<and> (c = SemRemove \<or> (\<exists>i. c = ShmRemove i))"
  using assms by (auto simp: leaving_def remove_sems_def remove_x_def remove_y_def)

lemma moves1:
  assumes g: "in_turn q1 q2 k"
  shows "(\<exists>a. q1 = Over1 a) \<or> (\<exists>j. q1 = Await_2 j \<and> live k \<and> semval k 2 \<noteq> 0) \<or> (\<exists>c f r k'. turn_at1 e q1 = Call c f \<and> turn_serves c k r k')"
proof (cases q1)
  case (Check_x j)
  then have "j \<le> 4" using g by (simp add: in_turn_def)
  from turn_at1_Check_x [OF this, of e] show ?thesis using Check_x served(1) [of "''x''" k] by (auto simp del: turn_at1.simps)
next
  case (Leave1 s)
  then have "s \<le> 2" using g by (simp add: in_turn_def)
  from leaving_heads [OF this refl] show ?thesis using Leave1 served(4,5) by fastforce
next
  case (Await_2 j)
  then show ?thesis using served(6) [of k 2] by (auto simp: sem_op_def)
next
  case (Post_1 j)
  then have "1 \<le> semval k 1" using g by (simp add: in_turn_def)
  with served(7) [of k 1] show ?thesis using Post_1 by (auto simp: sem_op_def)
next
  case (Reset_2 j)
  then show ?thesis using served(3) [of 2 1 k] by (auto simp: rest1_def set_sem_def)
next
  case (Take_y j)
  then show ?thesis using served(1) [of "''y''" k] by (auto simp: read_copy_def)
qed (use served(1) [of "''x''" k] served(2) [of "''x''" _ k] in \<open>auto simp: append_char_def adding_def\<close>)

lemma moves2:
  assumes g: "in_turn q1 q2 k"
  shows "(\<exists>j a. q2 = Over2 j a) \<or> (\<exists>j. q2 = Await_1 j \<and> live k \<and> semval k 1 \<noteq> 0) \<or> (\<exists>c f r k'. turn_at2 e q2 = Call c f \<and> turn_serves c k r k')"
proof (cases q2)
  case (Test_x j)
  from turn_at2_Test_x [OF test_x(1) [OF g [unfolded Test_x]], of e] show ?thesis
    using Test_x served(1) [of "''x''" k] by (auto simp del: turn_at2.simps)
next
  case (Leave2 j s)
  then have "s \<le> 2" using g by (cases q1) (auto simp: in_turn_def rests2_def)
  from leaving_heads [OF this refl] show ?thesis using Leave2 served(4,5) by fastforce
next
  case (Await_1 j)
  then show ?thesis using served(6) [of k 1] by (auto simp: sem_op_def)
next
  case (Post_2 j)
  then have "1 \<le> semval k 2" using g by (cases q1) (auto simp: in_turn_def rests2_def)
  with served(7) [of k 2] show ?thesis using Post_2 by (auto simp: sem_op_def)
next
  case (Reset_1 j)
  then show ?thesis using served(3) [of 1 1 k] by (auto simp: rest2_def set_sem_def)
next
  case (Take_x j)
  then show ?thesis using served(1) [of "''x''" k] by (auto simp: read_copy_def)
qed (use served(1) [of "''y''" k] served(2) [of "''y''" _ k] in \<open>auto simp: append_char_def adding_def\<close>)

lemma turns_end:
  assumes g: "in_turn q1 q2 k" and n: "\<forall>w. \<not> duo_step turn_serves (turn_at1 e q1, turn_at2 e q2, k) w"
  shows "\<exists>a j b. q1 = Over1 a \<and> q2 = Over2 j b"
proof -
  have "\<not> (\<exists>c f r k'. turn_at1 e q1 = Call c f \<and> turn_serves c k r k')"
    using n duo_step.first [of turn_serves] by metis
  then have 1: "(\<exists>a. q1 = Over1 a) \<or> (\<exists>j. q1 = Await_2 j \<and> live k \<and> semval k 2 \<noteq> 0)" using moves1 [OF g] by blast
  have "\<not> (\<exists>c f r k'. turn_at2 e q2 = Call c f \<and> turn_serves c k r k')"
    using n duo_step.second [of turn_serves] by metis
  then have 2: "(\<exists>j a. q2 = Over2 j a) \<or> (\<exists>j. q2 = Await_1 j \<and> live k \<and> semval k 1 \<noteq> 0)" using moves2 [OF g] by blast
  from 1 2 g show ?thesis by (elim disjE exE conjE) (auto simp: in_turn_def rests2_def)
qed

section \<open>Two schedules\<close>

definition turn_answer :: "call \<Rightarrow> board \<Rightarrow> (resp \<times> board) option" where
  "turn_answer c k = (case c of
     Load v \<Rightarrow> Some (answered\<lparr>data := strs k v\<rparr>, k)
   | StoreStr v t \<Rightarrow> Some (answered, k\<lparr>strs := (strs k)(v := t)\<rparr>)
   | Semget excl \<Rightarrow> Some (if live k then (if excl then (answered\<lparr>res := -1, num := 17\<rparr>, k) else (answered, k))
       else (answered, k\<lparr>live := True, semval := \<lambda>_. 0\<rparr>))
   | SemSetval i v \<Rightarrow> Some (if live k then (answered, k\<lparr>semval := (semval k)(i := v)\<rparr>) else (answered\<lparr>res := -1\<rparr>, k))
   | Semop i d \<Rightarrow> if \<not> live k then Some (answered\<lparr>res := -1\<rparr>, k)
       else if d = 0 then (if semval k i = 0 then Some (answered, k) else None)
       else if 0 \<le> semval k i + d then Some (answered, k\<lparr>semval := (semval k)(i := semval k i + d)\<rparr>) else None
   | SemRemove \<Rightarrow> Some (if live k then (answered, k\<lparr>live := False\<rparr>) else (answered\<lparr>res := -1\<rparr>, k))
   | _ \<Rightarrow> Some (answered, k))"

lemma turn_answer_serves: "turn_answer c k = Some (r, k') \<Longrightarrow> turn_serves c k r k'"
  by (cases c) (auto simp: turn_answer_def turn_serves_def answered_def split: if_splits)

lemma turn_answers:
  "turn_answer (Load v) k = Some (answered\<lparr>data := strs k v\<rparr>, k)"
  "turn_answer (StoreStr v t) k = Some (answered, k\<lparr>strs := (strs k)(v := t)\<rparr>)"
  "\<not> live k \<Longrightarrow> turn_answer (Semget excl) k = Some (answered, k\<lparr>live := True, semval := \<lambda>_. 0\<rparr>)"
  "live k \<Longrightarrow> turn_answer (Semget True) k = Some (answered\<lparr>res := -1, num := 17\<rparr>, k)"
  "live k \<Longrightarrow> turn_answer (Semget False) k = Some (answered, k)"
  "live k \<Longrightarrow> turn_answer (SemSetval i d) k = Some (answered, k\<lparr>semval := (semval k)(i := d)\<rparr>)"
  "live k \<Longrightarrow> semval k i = 0 \<Longrightarrow> turn_answer (Semop i 0) k = Some (answered, k)"
  "live k \<Longrightarrow> semval k i = 1 \<Longrightarrow> turn_answer (Semop i (-1)) k = Some (answered, k\<lparr>semval := (semval k)(i := 0)\<rparr>)"
  "live k \<Longrightarrow> turn_answer SemRemove k = Some (answered, k\<lparr>live := False\<rparr>)"
  "\<not> live k \<Longrightarrow> turn_answer SemRemove k = Some (answered\<lparr>res := -1\<rparr>, k)"
  "turn_answer (ShmRemove i) k = Some (answered, k)" "turn_answer (Print f a) k = Some (answered, k)"
  "turn_answer (Ftok f) k = Some (answered, k)" "turn_answer Shmget k = Some (answered, k)" "turn_answer Shmat k = Some (answered, k)"
  "turn_answer (Sleep m) k = Some (answered, k)" "turn_answer (Shmdt i) k = Some (answered, k)"
  by (simp_all add: turn_answer_def)

lemma answered_fields: "res answered = 0" "data (answered\<lparr>data := t\<rparr>) = t" "res (answered\<lparr>data := t\<rparr>) = 0"
  "res (answered\<lparr>res := v\<rparr>) = v" "res (answered\<lparr>res := v, num := u\<rparr>) = v" "num (answered\<lparr>res := v, num := u\<rparr>) = u"
  by (simp_all add: answered_def)

lemmas turn_run = schedule_first schedule_second turn_answers answered_fields numeral_eq_Suc
  sem_op_def set_sem_def append_char_def read_copy_def remove_sems_def remove_x_def remove_y_def turn_end_def Let_def

text \<open>p2.c tests the length of \<open>x\<close> before p1.c writes it.\<close>

lemma turns_run_through: "\<exists>k'. schedule turn_answer
    (turns_of [(True, 8), (False, 14), (True, 12), (False, 12), (True, 12), (False, 12), (True, 12), (False, 10), (True, 16), (False, 13)])
    (turn_loop1 5 [], turn_loop2 5, \<lparr>strs = \<lambda>_. [], semval = \<lambda>_. 1, live = True\<rparr>) = Some (Ret (Some 0), Ret (Some 0), k') \<and>
    strs k' ''x'' = [65, 66, 65, 66, 65, 66, 65] \<and> strs k' ''y'' = [65, 66, 65, 66, 65, 66, 65, 66]"
  by (simp add: turns_of_def numeral_eq_Suc) (simp add: turn_run del: schedule.simps(2) cong: Call_weak)

text \<open>p1.c runs alone until it waits for p2.c.\<close>

lemma turns_wait: "\<exists>f k. schedule turn_answer (turns_of [(True, 22)])
    (main_turn1 (Suc n), q, \<lparr>strs = \<lambda>_. [], semval = \<lambda>_. 0, live = False\<rparr>) =
    Some (Call (Semop 2 0) f, q, k) \<and> live k \<and> semval k 1 = 0 \<and> semval k 2 = 1"
  by (simp add: turns_of_def numeral_eq_Suc)
    (simp add: turn_run main_turn1_def turn_start_def turn_attach_def del: schedule.simps(2) cong: Call_weak)

text \<open>\<open>late m q k\<close>: however the calls of \<open>q\<close> are answered, semaphore 2 stays at 1 and after \<open>m\<close> of them
  \<open>q\<close> waits for semaphore 1 to become 0, which it is not.\<close>

primrec late :: "nat \<Rightarrow> int option sys \<Rightarrow> board \<Rightarrow> bool" where
  "late 0 q k \<longleftrightarrow> live k \<and> semval k 2 = 1 \<and> semval k 1 = 1 \<and> (\<exists>g. q = Call (Semop 1 0) g)"
| "late (Suc m) q k \<longleftrightarrow> live k \<and> semval k 2 = 1 \<and> (\<exists>c g. q = Call c g \<and> turn_answer c k \<noteq> None \<and>
     (\<forall>r k'. turn_serves c k r k' \<longrightarrow> late m (g r) k'))"

lemma late_main_turn2:
  "live k \<Longrightarrow> semval k 2 = 1 \<Longrightarrow> late 17 (main_turn2 (Suc n)) k"
  unfolding main_turn2_def turn_start_def turn_attach_def sem_op_def set_sem_def
  by (simp add: numeral_eq_Suc) (auto simp: turn_serves_start turn_serves_simps turn_answers sem_op_def)

lemma late_awaits: "late m q k \<Longrightarrow> live k \<and> semval k 2 = 1"
  by (cases m) auto

text \<open>While \<open>q\<close> is late p1.c cannot move: every step is one of \<open>q\<close>, and there are \<open>m\<close> of them.\<close>

lemma late_step:
  assumes "late m q k"
  shows "duo_step turn_serves (Call (Semop 2 0) f, q, k) w \<longleftrightarrow>
    (\<exists>c g r k'. 0 < m \<and> q = Call c g \<and> turn_serves c k r k' \<and> late (m - 1) (g r) k' \<and> w = (Call (Semop 2 0) f, g r, k'))"
  using assms by (cases m) (auto simp: duo_step_iff turn_serves_simps, blast)

lemma late_run:
  "(duo_step turn_serves ^^ i) (Call (Semop 2 0) f, q, k) (p, q', k') \<Longrightarrow> late m q k \<Longrightarrow>
   i \<le> m \<and> p = Call (Semop 2 0) f \<and> late (m - i) q' k'"
proof (induction i arbitrary: m q k)
  case (Suc i)
  from Suc.prems(1) obtain w where w: "duo_step turn_serves (Call (Semop 2 0) f, q, k) w" "(duo_step turn_serves ^^ i) w (p, q', k')"
    by (blast dest: relpowp_Suc_D2)
  from w(1) obtain q2 k2 where "0 < m" "late (m - 1) q2 k2" "w = (Call (Semop 2 0) f, q2, k2)"
    unfolding late_step [OF Suc.prems(2)] by blast
  with Suc.IH [of q2 k2 "m - 1"] w(2) show ?case by auto
qed simp

lemma late_can_step: "late (Suc m) q k \<Longrightarrow> \<exists>w. duo_step turn_serves (Call (Semop 2 0) f, q, k) w"
  using late_step [of "Suc m" q k f] turn_answer_serves by fastforce

lemma late_reaches:
  "late m q k \<Longrightarrow> \<exists>q' k'. (duo_step turn_serves ^^ m) (Call (Semop 2 0) f, q, k) (Call (Semop 2 0) f, q', k')"
proof (induction m arbitrary: q k)
  case (Suc m)
  obtain w where w: "duo_step turn_serves (Call (Semop 2 0) f, q, k) w" using late_can_step [OF Suc.prems] by blast
  then obtain q2 k2 where q2: "late m q2 k2" "w = (Call (Semop 2 0) f, q2, k2)"
    unfolding late_step [OF Suc.prems] by auto
  from Suc.IH [OF q2(1)] w q2(2) show ?case by (metis relpowp_Suc_I2)
qed simp

section \<open>Properties\<close>

text \<open>
  C39. Once both programs have initialised the strings and the semaphores, both end under every
  schedule after at most 616 calls together and neither waits for ever: \<open>x\<close> is then ABABABA, and
  \<open>y\<close> is ABABABAB, or ABABAB when p2.c saw the last write of p1.c one round early; it has then
  removed the semaphores under p1.c, which ends with an error.
\<close>

theorem turns_every_schedule:
  assumes "live k" "semval k 1 = 1" "semval k 2 = 1" "strs k ''x'' = []" "strs k ''y'' = []" "5 \<le> n"
    and "(duo_step turn_serves ^^ i) (turn_loop1 n [], turn_loop2 n, k) (p, q, k')"
  shows "i \<le> 616 \<and> ((\<forall>w. \<not> duo_step turn_serves (p, q, k') w) \<longrightarrow>
    strs k' ''x'' = bytes_of ''ABABABA'' \<and> (q = Ret (Some 0) \<or> q = Ret (Some 1)) \<and>
    (strs k' ''y'' = bytes_of ''ABABABAB'' \<and> (p = Ret (Some 0) \<or> p = Ret (Some 1)) \<or>
     strs k' ''y'' = bytes_of ''ABABAB'' \<and> p = Ret (Some 1)))"
proof -
  obtain e where n: "n = e + 5" using assms(6) by (metis le_add_diff_inverse2)
  have g: "in_turn (Check_x 0) (Test_x 0) k" using assms(1-5) by (simp add: in_turn_def rests2_def)
  let ?ranks = "point_ranks idle (\<lambda>_ _. True) (turn_at1 e) (turn_at2 e) in_turn turn_rank1 turn_rank2 6"
  have "?ranks 616 (turn_loop1 n [], turn_loop2 n, k)"
    unfolding point_ranks_def n prod.case
    by (rule exI [of _ "Check_x 0"], rule exI [of _ "Test_x 0"], rule exI [of _ 0], rule exI [of _ 0]) (simp add: g)
  from turns.run [OF assms(7) this] obtain m where r: "?ranks m (p, q, k')" and "i + m \<le> 616" by blast
  from this(2) have "i \<le> 616" by simp
  moreover have "strs k' ''x'' = bytes_of ''ABABABA'' \<and> (q = Ret (Some 0) \<or> q = Ret (Some 1)) \<and>
    (strs k' ''y'' = bytes_of ''ABABABAB'' \<and> (p = Ret (Some 0) \<or> p = Ret (Some 1)) \<or>
     strs k' ''y'' = bytes_of ''ABABAB'' \<and> p = Ret (Some 1))" if s: "\<forall>w. \<not> duo_step turn_serves (p, q, k') w"
  proof -
    obtain q1 q2 where w: "p = turn_at1 e q1" "q = turn_at2 e q2" "in_turn q1 q2 k'" using turns.stuck [OF r s] .
    with turns_end [OF w(3), of e] s obtain a j b where o: "q1 = Over1 a" "q2 = Over2 j b" by blast
    have t: "aba 3 = bytes_of ''ABABABA''" "ab 4 = bytes_of ''ABABABAB''" "ab 3 = bytes_of ''ABABAB''" by code_simp+
    show ?thesis using w unfolding o by (auto simp: in_turn_def rests2_def t)
  qed
  ultimately show ?thesis by blast
qed

text \<open>
  C40. From the very start the programs may wait for each other for good: once p1.c has lowered its
  semaphore and waits for the other to become 0, a p2.c that starts only then makes exactly 17
  calls under every schedule, which set both semaphores to 1 again; then it waits for semaphore 1,
  p1.c still waits for semaphore 2, and neither can ever move.
\<close>

theorem turns_start_deadlock:
  assumes "(duo_step turn_serves ^^ i) (Call (Semop 2 0) f, main_turn2 (Suc n), k) (p, q, k')"
    and "live k" "semval k 2 = 1"
  shows "p = Call (Semop 2 0) f \<and> i \<le> 17 \<and> ((\<nexists>w. duo_step turn_serves (p, q, k') w) \<longleftrightarrow> i = 17) \<and>
    (i = 17 \<longrightarrow> (\<exists>g. q = Call (Semop 1 0) g) \<and> live k' \<and> semval k' 1 = 1 \<and> semval k' 2 = 1)"
proof -
  note r = late_run [OF assms(1) late_main_turn2 [OF assms(2,3)]]
  then have p: "p = Call (Semop 2 0) f" and i: "i \<le> 17" and l: "late (17 - i) q k'" by simp_all
  have "(\<nexists>w. duo_step turn_serves (p, q, k') w) \<longleftrightarrow> i = 17"
  proof (cases "i = 17")
    case True
    then show ?thesis using late_step [OF l] by (simp add: p)
  next
    case False
    then obtain m where "17 - i = Suc m" using i by (cases "17 - i") auto
    with l late_can_step [of m q k' f] False show ?thesis by (auto simp: p)
  qed
  with p i l show ?thesis by auto
qed

section \<open>Witnesses\<close>

theorem turns_every_schedule_witness:
  "\<exists>i k'. (duo_step turn_serves ^^ i) (turn_loop1 5 [], turn_loop2 5, \<lparr>strs = \<lambda>_. [], semval = \<lambda>_. 1, live = True\<rparr>)
      (Ret (Some 0), Ret (Some 0), k') \<and> i \<le> 616 \<and> strs k' ''x'' = bytes_of ''ABABABA'' \<and> strs k' ''y'' = bytes_of ''ABABABAB''"
proof -
  let ?bs = "turns_of [(True, 8), (False, 14), (True, 12), (False, 12), (True, 12), (False, 12), (True, 12), (False, 10), (True, 16), (False, 13)]"
  obtain k' where k: "schedule turn_answer ?bs (turn_loop1 5 [], turn_loop2 5, \<lparr>strs = \<lambda>_. [], semval = \<lambda>_. 1, live = True\<rparr>) =
      Some (Ret (Some 0), Ret (Some 0), k')"
    using turns_run_through by blast
  note r = schedule_run [where serves = turn_serves, OF turn_answer_serves k]
  have "length ?bs \<le> 616" "strs k' ''x'' = bytes_of ''ABABABA''" "strs k' ''y'' = bytes_of ''ABABABAB''"
    using turns_every_schedule [OF _ _ _ _ _ _ r] by (simp_all add: duo_step_iff)
  with r show ?thesis by blast
qed

text \<open>From the empty board, p1.c first: both wait for good.\<close>

theorem turns_start_deadlock_witness:
  "\<exists>i f g k'. (duo_step turn_serves ^^ i) (main_turn1 5, main_turn2 5, \<lparr>strs = \<lambda>_. [], semval = \<lambda>_. 0, live = False\<rparr>)
     (Call (Semop 2 0) f, Call (Semop 1 0) g, k') \<and>
   (\<nexists>w. duo_step turn_serves (Call (Semop 2 0) f, Call (Semop 1 0) g, k') w)"
proof -
  have five: "Suc 4 = 5" by simp
  obtain f k where s: "schedule turn_answer (turns_of [(True, 22)])
      (main_turn1 5, main_turn2 5, \<lparr>strs = \<lambda>_. [], semval = \<lambda>_. 0, live = False\<rparr>) =
      Some (Call (Semop 2 0) f, main_turn2 5, k)" "live k" "semval k 2 = 1"
    using turns_wait [of 4] unfolding five by blast
  note first = schedule_run [where serves = turn_serves, OF turn_answer_serves s(1)]
  obtain q k' where r: "(duo_step turn_serves ^^ 17) (Call (Semop 2 0) f, main_turn2 5, k) (Call (Semop 2 0) f, q, k')"
    using late_reaches [OF late_main_turn2 [OF s(2,3), of 4, unfolded five]] by blast
  from turns_start_deadlock [OF _ s(2,3), of 17 f 4, unfolded five, OF r]
  obtain g where "q = Call (Semop 1 0) g" "\<nexists>w. duo_step turn_serves (Call (Semop 2 0) f, q, k') w" by blast
  with relpowp_trans [OF first r] show ?thesis by blast
qed

end
