(* ===== verification/RawHeaders.thy ===== *)
theory RawHeaders
  imports Sniffer Checksum
begin

text \<open>
  The raw-socket programs that build and print IP headers themselves: Functions/IPHeader.c sends
  text under a header of its own, Functions/TCPHeader.c prints the IP and TCP headers and the
  payload of what it receives, raw_sockets/rawsender.c sends empty datagrams.  What is printed is
  a log, as in Sniffer; header fields are printed as they lie in memory.
\<close>

section \<open>Printing\<close>

primrec say_log :: "log \<Rightarrow> 'a sys \<Rightarrow> 'a sys" where
  "say_log [] p = p"
| "say_log (e # l) p = Call (Print (fst e) (snd e)) (\<lambda>_. say_log l p)"

text \<open>\<open>print_ip_header\<close> of TCPHeader.c; bit fields of the first byte: \<open>ip_hl\<close> low, \<open>ip_v\<close> high.\<close>

definition tcp_ip_header :: "bytes \<Rightarrow> log option" where
  "tcp_ip_header iph = do {
     vhl \<leftarrow> get8 0 iph;
     tos \<leftarrow> get8 1 iph;
     len \<leftarrow> get16 2 iph;
     ident \<leftarrow> get16 4 iph;
     off \<leftarrow> get16 6 iph;
     ttl \<leftarrow> get8 8 iph;
     p \<leftarrow> get8 9 iph;
     check \<leftarrow> get16 10 iph;
     src \<leftarrow> peek 12 4 iph;
     dst \<leftarrow> peek 16 4 iph;
     Some [(''IP HEADER'', []),
       (''Version : %d'', [D (int (high_nibble vhl))]),
       (''Header Length : %d'', [D (int (ihl vhl))]),
       (''TOS (Type of Service): %d'', [Du8 tos]),
       (''IP Packet Length : %d'', [Du16 len]),
       (''ID Number : %d'', [Du16 ident]),
       (''Fragment Offset : %d'', [Du16 off]),
       (''TTL (Time to Live) : %d'', [Du8 ttl]),
       (''HLP (Higher Layer Protocol) : %d'', [Du8 p]),
       (''Header Checksum : %d'', [Du16 check]),
       (''Sender's IP Address : %s'', [S (inet_ntoa src)]),
       (''Receiver's IP Address : %s'', [S (inet_ntoa dst)])] }"

text \<open>That of IPHeader.c goes on with the payload, as a string.\<close>

definition ip_print_ip_header :: "bytes \<Rightarrow> log option" where
  "ip_print_ip_header iph = do {
     header \<leftarrow> tcp_ip_header iph;
     vhl \<leftarrow> get8 0 iph;
     message \<leftarrow> c_str (drop (ihl vhl * 4) iph);
     Some (header @ [(''Payload : %s'', [S message])]) }"

text \<open>A \<open>char\<close> is signed: bytes from 128 on are negative.\<close>

definition char_shown :: "bytes \<Rightarrow> nat \<Rightarrow> (string \<times> arg list) option" where
  "char_shown buff k = map_option (\<lambda>b. if 32 \<le> sint b \<and> sint b \<le> 128 then (''%c'', [Du8 b]) else (''.'', [])) (get8 k buff)"

definition blanks :: "string \<times> arg list" where "blanks = (''       '', [])"

text \<open>Iteration \<open>i\<close> over the payload that starts at \<open>off\<close>.  \<open>15 - 1 % 16\<close> is 14, and the last row
  is the characters up to index 1.\<close>

definition payload_step :: "bytes \<Rightarrow> nat \<Rightarrow> nat \<Rightarrow> nat \<Rightarrow> log option" where
  "payload_step buff off len i = do {
     row \<leftarrow> (if i \<noteq> 0 \<and> i mod 16 = 0
       then map_option (\<lambda>r. blanks # r @ [(nl, [])]) (those (map (\<lambda>j. char_shown buff (off + j)) [i - 16..<i]))
       else Some []);
     b \<leftarrow> get8 (off + i) buff;
     last \<leftarrow> (if i = len - 1
       then map_option (\<lambda>r. replicate 14 blanks @ (''              '', []) # r @ [(nl, [])])
         (those (map (\<lambda>j. char_shown buff (off + j)) [i - i mod 16..<2]))
       else Some []);
     Some (row @ (if i mod 16 = 0 then [blanks] else []) @ [('' %02X'', [D (uint (scast b :: u32))])] @ last) }"

definition print_TCP_header :: "bytes \<Rightarrow> int \<Rightarrow> log option" where
  "print_TCP_header buff buff_size = do {
     ip \<leftarrow> tcp_ip_header buff;
     vhl \<leftarrow> get8 0 buff;
     let tcph = ihl vhl * 5;
     source \<leftarrow> get16 tcph buff;
     dest \<leftarrow> get16 (tcph + 2) buff;
     seq \<leftarrow> get32 (tcph + 4) buff;
     ack_seq \<leftarrow> get32 (tcph + 8) buff;
     o8 \<leftarrow> get8 (tcph + 12) buff;
     let doff = high_nibble o8;
     tflags \<leftarrow> get8 (tcph + 13) buff;
     window \<leftarrow> get16 (tcph + 14) buff;
     check \<leftarrow> get16 (tcph + 16) buff;
     urg_ptr \<leftarrow> get16 (tcph + 18) buff;
     let payload_len = buff_size - int (doff * 4) - int (ihl vhl * 4);
     payload \<leftarrow> (if payload_len > 0
       then map_option concat (those (map (payload_step buff (doff * 4 + ihl vhl * 4) (nat payload_len)) [0..<nat payload_len]))
       else Some []);
     Some (ip @ [(''TCP HEADER'', []),
       (''Source : %u'', [Du16 (ntohs source)]),
       (''Destination Port : %u'', [Du16 (ntohs dest)]),
       (''Sequence Number : %u'', [Du32 (ntohl seq)]),
       (''Acknowledgement Number : %u'', [Du32 (ntohl ack_seq)]),
       (''Header Length : %d'', [D (int (doff * 4))]),
       (''URG : %d'', [flag 5 tflags]),
       (''ACK : %d'', [flag 4 tflags]),
       (''PSH : %d'', [flag 3 tflags]),
       (''RST : %d'', [flag 2 tflags]),
       (''SYN : %d'', [flag 1 tflags]),
       (''FIN : %d'', [flag 0 tflags]),
       (''Window Size : %d'', [Du16 (ntohs window)]),
       (''Checksum : %d'', [Du16 (ntohs check)]),
       (''Urgent Pointer : %d'', [Du16 urg_ptr]),
       (''PAYLOAD'', [])] @ payload) }"

section \<open>Building\<close>

text \<open>The fields of the header in the order of their assignments.  \<open>htonl(54321)\<close> is cut to 16 bits,
  lengths are left in host order; 45 is \<open>ip_v\<close> 4 and \<open>ip_hl\<close> 5.\<close>

definition header_fields :: "u16 \<Rightarrow> u8 \<Rightarrow> bytes \<Rightarrow> bytes \<Rightarrow> (nat \<times> bytes) list" where
  "header_fields len p src dst =
     [(0, [0x45]), (1, [0]), (2, le16 len), (4, le16 (ucast (htonl 54321))), (6, le16 0), (8, [255]), (9, [p]), (10, le16 0),
      (12, src), (16, dst)]"

text \<open>\<open>datagram\<close> of \<open>send_message\<close>.\<close>

definition ip_datagram :: "u8 \<Rightarrow> bytes \<Rightarrow> bytes option" where
  "ip_datagram protocol msg = (let len = of_nat (20 + length msg) :: u16 in do {
     d \<leftarrow> poke_all (header_fields len protocol [192, 168, 192, 140] [192, 168, 192, 118]) (replicate 1024 0);
     check \<leftarrow> csum_rawsender d (unat len div 2);
     d \<leftarrow> poke 10 (le16 check) d;
     poke 20 (msg @ [0]) d })"

definition raw_datagram :: "bytes option" where
  "raw_datagram = do {
     d \<leftarrow> poke_all (header_fields 20 6 [1, 2, 3, 4] localhost) (replicate 4096 0);
     check \<leftarrow> csum_rawsender d (20 div 2);
     poke 10 (le16 check) d }"

section \<open>The programs\<close>

definition send_message :: "int \<Rightarrow> u8 \<Rightarrow> bytes \<Rightarrow> sockaddr \<Rightarrow> unit sys" where
  "send_message rsfd protocol msg sin =
     need (ip_datagram protocol msg) (\<lambda>datagram.
     Call (Sendto rsfd datagram sin) (\<lambda>r.
     if res r = -1 then Exit 0
     else need (ip_print_ip_header datagram) (\<lambda>l. say_log l (Ret ()))))"

definition tcp_send_message :: "int \<Rightarrow> u8 \<Rightarrow> bytes \<Rightarrow> sockaddr \<Rightarrow> unit sys" where
  "tcp_send_message rsfd protocol msg sin =
     need (ip_datagram protocol msg) (\<lambda>datagram.
     Call (Sendto rsfd datagram sin) (\<lambda>r.
     if res r = -1 then Exit 0
     else Call (Print ''IP header sent : '' []) (\<lambda>_.
     need (tcp_ip_header datagram) (\<lambda>l. say_log l (Ret ())))))"

text \<open>\<open>inet_pton\<close> accepts the address literal.\<close>

definition set_raw_socket :: "int \<Rightarrow> int sys" where
  "set_raw_socket protocol = Call (Socket AF_INET SOCK_RAW protocol) (\<lambda>r. if res r = -1 then Exit 0 else Ret (res r))"

primrec ip_send_loop :: "nat \<Rightarrow> int \<Rightarrow> sockaddr \<Rightarrow> int option sys" where
  "ip_send_loop 0 rsfd sin = Ret None"
| "ip_send_loop (Suc n) rsfd sin =
     Interaction.bind (send_message rsfd 200 (bytes_of ''Hey!'') sin) (\<lambda>_. Call (Sleep 2) (\<lambda>_. ip_send_loop n rsfd sin))"

text \<open>\<open>port\<close>: the uninitialised \<open>sin_port\<close>.\<close>

definition main_IPHeader :: "nat \<Rightarrow> u16 \<Rightarrow> int option sys" where
  "main_IPHeader n port =
     Interaction.bind (set_raw_socket 200) (\<lambda>rsfd.
     Call (Setsockopt rsfd) (\<lambda>r.
     if res r < 0 then Exit 0 else ip_send_loop n rsfd (AddrIn port [192, 168, 192, 118])))"

primrec tcp_recv_loop :: "nat \<Rightarrow> int \<Rightarrow> int option sys" where
  "tcp_recv_loop 0 rsfd = Ret None"
| "tcp_recv_loop (Suc n) rsfd =
     Call (Recvfrom rsfd 1024) (\<lambda>r.
     need (poke 0 (data r) (replicate 1024 0)) (\<lambda>buff.
     need (print_TCP_header buff (res r)) (\<lambda>l. say_log l (tcp_recv_loop n rsfd))))"

definition main_TCPHeader :: "nat \<Rightarrow> int option sys" where
  "main_TCPHeader n =
     Interaction.bind (set_raw_socket 6) (\<lambda>rsfd.
     Call (Setsockopt rsfd) (\<lambda>r. if res r < 0 then Exit 0 else tcp_recv_loop n rsfd))"

text \<open>rawsender.c checks nothing; only \<open>ip_len\<close> bytes, the header, are sent.\<close>

primrec rawsender_loop :: "nat \<Rightarrow> int \<Rightarrow> bytes \<Rightarrow> int option sys" where
  "rawsender_loop 0 s d = Ret None"
| "rawsender_loop (Suc n) s d =
     Call (Sendto s d (AddrIn (htons 9013) localhost)) (\<lambda>r.
     if res r > 0 then Call (Print ''Success'' []) (\<lambda>_. rawsender_loop n s d) else rawsender_loop n s d)"

definition main_rawsender :: "nat \<Rightarrow> int option sys" where
  "main_rawsender n =
     Call (Socket AF_INET SOCK_RAW 17) (\<lambda>r. let s = res r in
     need raw_datagram (\<lambda>datagram.
     Call (Setsockopt s) (\<lambda>r.
     need (peek 0 20 datagram) (\<lambda>d.
     if res r < 0 then Call (Print ''Warning: I was not able to set HDRINCL!'' []) (\<lambda>_. rawsender_loop n s d)
     else rawsender_loop n s d))))"

section \<open>Bounds of the printer\<close>

lemma those_defined: "those xs \<noteq> None \<longleftrightarrow> (\<forall>x \<in> set xs. x \<noteq> None)"
  by (induction xs) (auto split: option.splits)

lemma tcp_ip_header_defined: "20 \<le> length b \<Longrightarrow> tcp_ip_header b \<noteq> None"
  by (auto simp: tcp_ip_header_def bind_defined get_defined simp del: not_None_eq)

lemma char_shown_defined: "char_shown b k \<noteq> None \<longleftrightarrow> k < length b"
  by (simp add: char_shown_def get_defined del: not_None_eq)

text \<open>The row after the last byte may read one byte behind a payload of one byte.\<close>

lemma payload_step_defined:
  assumes "i < len" "off + len \<le> length b" "off + 2 \<le> length b"
  shows "payload_step b off len i \<noteq> None"
proof -
  have "those (map (\<lambda>j. char_shown b (off + j)) [i - 16..<i]) \<noteq> None"
    "those (map (\<lambda>j. char_shown b (off + j)) [i - i mod 16..<2]) \<noteq> None"
    unfolding those_defined using assms by (auto simp: char_shown_defined simp del: not_None_eq)
  then show ?thesis
    using assms unfolding payload_step_def bind_defined by (auto simp: get_defined bind_defined simp del: not_None_eq)
qed

lemma print_TCP_header_defined:
  assumes "length buff = 1024" "n \<le> 1024"
  shows "print_TCP_header buff n \<noteq> None"
proof -
  obtain vhl where v: "get8 0 buff = Some vhl" using assms(1) by (auto simp: get8_def)
  have hl: "ihl vhl * 4 \<le> 60" "ihl vhl * 5 \<le> 75" using nibbles(1) [of vhl] by auto
  obtain o8 where o: "get8 (ihl vhl * 5 + 12) buff = Some o8" using assms(1) hl by (auto simp: get8_def)
  have dl: "high_nibble o8 * 4 \<le> 60" by (rule nibbles)
  define len where "len = n - int (high_nibble o8 * 4) - int (ihl vhl * 4)"
  have "those (map (payload_step buff (high_nibble o8 * 4 + ihl vhl * 4) (nat len)) [0..<nat len]) \<noteq> None" if "len > 0"
    unfolding those_defined
  proof
    fix x assume "x \<in> set (map (payload_step buff (high_nibble o8 * 4 + ihl vhl * 4) (nat len)) [0..<nat len])"
    then obtain i where i: "i < nat len" "x = payload_step buff (high_nibble o8 * 4 + ihl vhl * 4) (nat len) i" by auto
    have "high_nibble o8 * 4 + ihl vhl * 4 + nat len \<le> length buff" "high_nibble o8 * 4 + ihl vhl * 4 + 2 \<le> length buff"
      using that hl dl assms unfolding len_def by linarith+
    with i show "x \<noteq> None" using payload_step_defined by blast
  qed
  then show ?thesis
    using v o hl assms(1) tcp_ip_header_defined [of buff]
    by (auto simp: print_TCP_header_def Let_def bind_defined get_defined len_def simp del: not_None_eq)
qed

section \<open>The datagrams\<close>

lemma poke_append: "off + length bs \<le> length a \<Longrightarrow> poke off bs (a @ b) = Some (wr off bs a @ b)"
  by (simp add: poke_def wr_def)

lemma poke_all_append:
  "(\<forall>(off, bs) \<in> set ws. off + length bs \<le> length a) \<Longrightarrow>
   poke_all ws (a @ b) = Some (fold (\<lambda>(off, bs) a. wr off bs a) ws a @ b)"
  by (induction ws arbitrary: a) (auto simp: poke_append)

definition header_bytes :: "u16 \<Rightarrow> u8 \<Rightarrow> bytes \<Rightarrow> bytes \<Rightarrow> bytes" where
  "header_bytes len p src dst = [0x45, 0] @ le16 len @ [0, 0, 0, 0, 255, p, 0, 0] @ src @ dst"

lemma header_fields_bytes:
  assumes "length src = 4" "length dst = 4" "20 \<le> n"
  shows "poke_all (header_fields len p src dst) (replicate n 0) = Some (header_bytes len p src dst @ replicate (n - 20) 0)"
proof -
  obtain a b c d e f g h where sd: "src = [a, b, c, d]" "dst = [e, f, g, h]"
    using assms(1,2) by (auto simp: length_Suc_conv eval_nat_numeral)
  have n: "replicate n (0 :: u8) = replicate 20 0 @ replicate (n - 20) 0" using assms(3) by (simp flip: replicate_add)
  have i: "(ucast (htonl 54321) :: u16) = 0" by code_simp
  have "fold (\<lambda>(off, bs) a. wr off bs a) (header_fields len p src dst) (replicate 20 0) = header_bytes len p src dst"
    by (simp add: header_fields_def header_bytes_def sd i wr_def le16_def numeral_eq_Suc)
  then show ?thesis
    unfolding n by (subst poke_all_append) (auto simp: header_fields_def assms(1,2))
qed

lemma word_sum_zeros: "word_sum (replicate n 0) = 0"
  by (induction n rule: induct_nat_012) simp_all

lemma checksum_header:
  assumes "length h = 20" "20 \<le> n" "n \<le> 131074" "even n"
  shows "csum_rawsender (h @ replicate m 0) (n div 2) = (if n \<le> 20 + m then Some (inet_checksum h) else None)"
proof (cases "n \<le> 20 + m")
  case True
  have "take n (h @ replicate m 0) = h @ replicate (n - 20) 0" using assms True by simp
  then have "inet_checksum (take n (h @ replicate m 0)) = inet_checksum h"
    using word_sum_append [of h "replicate (n - 20) 0"] assms(1) by (simp add: inet_checksum_def word_sum_zeros)
  moreover have "2 * (n div 2) = n" using assms(4) by simp
  ultimately show ?thesis
    using csum_rawsender_spec [of "n div 2" "h @ replicate m 0"] True assms by simp
next
  case False
  then have "length (h @ replicate m 0) < 2 * (n div 2)" using assms(1,4) by simp
  from csum_words_short [OF this] show ?thesis using False by (simp add: csum_rawsender_def)
qed

text \<open>The header with its checksum verifies.\<close>

lemma header_verifies:
  assumes "length src = 4" "length dst = 4"
    and "poke 10 (le16 (inet_checksum (header_bytes len p src dst))) (header_bytes len p src dst) = Some h"
  shows "inet_checksum h = 0"
proof -
  let ?h = "header_bytes len p src dst"
  have l: "length ?h = 20" using assms(1,2) by (simp add: header_bytes_def)
  obtain a b c d e f g i where sd: "src = [a, b, c, d]" "dst = [e, f, g, i]"
    using assms(1,2) by (auto simp: length_Suc_conv eval_nat_numeral)
  have ck: "Calculate_Checksum b = inet_checksum b" if "length b = 20" for b
    by (rule spoofer.ck_spec) (simp add: that)
  have "peek 10 2 ?h = Some (le16 0)" by (simp add: header_bytes_def sd le16_def peek_def)
  moreover have "word_sum ?h \<noteq> 0" by (simp add: header_bytes_def)
  moreover have "length h = 20" using length_poke [OF assms(3)] l by simp
  ultimately show ?thesis
    using spoofer.stored_verifies_iff [of ?h 10 0 h] assms(3) l ck by (simp add: store_checksum_def)
qed

lemma ip_datagram_ok:
  assumes "length msg \<le> 1003"
  shows "\<exists>h. ip_datagram p msg = Some (h @ msg @ 0 # replicate (1003 - length msg) 0) \<and> length h = 20 \<and> inet_checksum h = 0"
proof -
  define len where "len = (of_nat (20 + length msg) :: u16)"
  have ul: "unat len = 20 + length msg" unfolding len_def using assms by (subst unat_of_nat_small) simp_all
  let ?h = "header_bytes len p [192, 168, 192, 140] [192, 168, 192, 118]"
  have l: "length ?h = 20" by (simp add: header_bytes_def)
  have "poke_all (header_fields len p [192, 168, 192, 140] [192, 168, 192, 118]) (replicate 1024 0) = Some (?h @ replicate 1004 0)"
    by (subst header_fields_bytes) simp_all
  moreover have "csum_rawsender (?h @ replicate 1004 0) (unat len div 2) = Some (inet_checksum ?h)"
    using checksum_header [OF l, of "2 * (unat len div 2)" 1004] assms by (simp add: ul)
  moreover have "poke 10 (le16 (inet_checksum ?h)) (?h @ replicate 1004 0) = Some (wr 10 (le16 (inet_checksum ?h)) ?h @ replicate 1004 0)"
    using l by (intro poke_append) simp
  moreover have "poke 20 (msg @ [0]) (wr 10 (le16 (inet_checksum ?h)) ?h @ replicate 1004 0) =
      Some (wr 10 (le16 (inet_checksum ?h)) ?h @ msg @ 0 # replicate (1003 - length msg) 0)"
    using l assms by (simp add: poke_def wr_def length_wr)
  moreover have "inet_checksum (wr 10 (le16 (inet_checksum ?h)) ?h) = 0"
    by (rule header_verifies [of "[192, 168, 192, 140]" "[192, 168, 192, 118]" len p]) (use l in \<open>simp_all add: poke_def\<close>)
  ultimately show ?thesis
    using l len_def [symmetric] by (intro exI [of _ "wr 10 (le16 (inet_checksum ?h)) ?h"]) (simp add: ip_datagram_def Let_def)
qed

text \<open>Longer messages overrun the array.\<close>

lemma ip_datagram_iff: "ip_datagram p msg \<noteq> None \<longleftrightarrow> length msg \<le> 1003"
proof
  assume "ip_datagram p msg \<noteq> None"
  then obtain d c d' d'' where
    "poke_all (header_fields (of_nat (20 + length msg)) p [192, 168, 192, 140] [192, 168, 192, 118]) (replicate 1024 0) = Some d"
    "poke 10 (le16 c) d = Some d'" "poke 20 (msg @ [0]) d' = Some d''"
    by (auto simp: ip_datagram_def Let_def elim!: bind_SomeE simp del: of_nat_add)
  then show "length msg \<le> 1003"
    using header_fields_bytes [of "[192, 168, 192, 140]" "[192, 168, 192, 118]" 1024]
    by (auto simp: poke_def header_bytes_def split: if_splits)
qed (use ip_datagram_ok [of msg p] in auto)

lemma raw_datagram_ok: "\<exists>h. raw_datagram = Some (h @ replicate 4076 0) \<and> length h = 20 \<and> inet_checksum h = 0"
proof -
  let ?h = "header_bytes 20 6 [1, 2, 3, 4] localhost"
  have l: "length ?h = 20" by (simp add: header_bytes_def)
  have "poke_all (header_fields 20 6 [1, 2, 3, 4] localhost) (replicate 4096 0) = Some (?h @ replicate 4076 0)"
    by (subst header_fields_bytes) simp_all
  moreover have "csum_rawsender (?h @ replicate 4076 0) (20 div 2) = Some (inet_checksum ?h)"
    using checksum_header [OF l, of 20 4076] by simp
  moreover have "poke 10 (le16 (inet_checksum ?h)) (?h @ replicate 4076 0) = Some (wr 10 (le16 (inet_checksum ?h)) ?h @ replicate 4076 0)"
    using l by (intro poke_append) simp
  moreover have "inet_checksum (wr 10 (le16 (inet_checksum ?h)) ?h) = 0"
    by (rule header_verifies [of "[1, 2, 3, 4]" localhost 20 6]) (use l in \<open>simp_all add: poke_def\<close>)
  ultimately show ?thesis
    using l by (intro exI [of _ "wr 10 (le16 (inet_checksum ?h)) ?h"]) (simp add: raw_datagram_def)
qed

section \<open>What is sent and what is printed\<close>

definition verified :: "call \<Rightarrow> bool" where
  "verified c \<longleftrightarrow> (\<forall>fd d a. c = Sendto fd d a \<longrightarrow> 20 \<le> length d \<and> inet_checksum (take 20 d) = 0)"

lemma verified_other [simp]: "(\<forall>fd d a. c \<noteq> Sendto fd d a) \<Longrightarrow> verified c"
  by (simp add: verified_def)

lemma only_say_log [simp]: "only verified (say_log l p) \<longleftrightarrow> only verified p"
  by (induction l) auto

lemma only_set_raw_socket: "only verified (set_raw_socket p)"
  by (simp add: set_raw_socket_def)

lemma only_send_message: "only verified (send_message rsfd p msg sin)"
  unfolding send_message_def
proof (rule only_need)
  fix d assume d: "ip_datagram p msg = Some d"
  then have "length msg \<le> 1003" using ip_datagram_iff [of p msg] by simp
  from ip_datagram_ok [OF this, of p] d have "20 \<le> length d \<and> inet_checksum (take 20 d) = 0" by auto
  then show "only verified (Call (Sendto rsfd d sin) (\<lambda>r. if res r = -1 then Exit 0
      else need (ip_print_ip_header d) (\<lambda>l. say_log l (Ret ()))))"
    by (auto simp: verified_def intro: only_need)
qed

lemma only_ip_send_loop: "only verified (ip_send_loop n rsfd sin)"
  by (induction n) (auto intro!: only_bind only_send_message)

lemma only_main_IPHeader: "only verified (main_IPHeader n port)"
  unfolding main_IPHeader_def by (intro only_bind only_set_raw_socket) (simp add: only_ip_send_loop)

lemma only_rawsender_loop: "verified (Sendto s d (AddrIn (htons 9013) localhost)) \<Longrightarrow> only verified (rawsender_loop n s d)"
  by (induction n) auto

lemma only_main_rawsender: "only verified (main_rawsender n)"
proof -
  obtain h where h: "raw_datagram = Some (h @ replicate 4076 0)" "length h = 20" "inet_checksum h = 0"
    using raw_datagram_ok by blast
  have p: "peek 0 20 (h @ replicate 4076 0) = Some h" using h(2) by (simp add: peek_def)
  have "verified (Sendto s h (AddrIn (htons 9013) localhost))" for s using h(2,3) by (simp add: verified_def)
  then show ?thesis by (simp add: main_rawsender_def Let_def h(1) p only_rawsender_loop)
qed

text \<open>A kernel whose \<open>recvfrom\<close> stays within the buffer it is given.\<close>

definition fits :: "call \<Rightarrow> resp \<Rightarrow> bool" where
  "fits c r \<longleftrightarrow> (\<forall>fd m. c = Recvfrom fd m \<longrightarrow> length (data r) \<le> m \<and> res r \<le> int m)"

lemma wp_say_log: "(\<And>tr. wp E p Q tr) \<Longrightarrow> wp E (say_log l p) Q tr"
  by (induction l arbitrary: tr) auto

lemma tcp_recv_loop_defined: "wp fits (tcp_recv_loop n rsfd) (\<lambda>_ out. out \<noteq> Undefined) tr"
proof (induction n arbitrary: tr)
  case (Suc n)
  have "wp fits (need (poke 0 (data r) (replicate 1024 0)) (\<lambda>buff. need (print_TCP_header buff (res r))
      (\<lambda>l. say_log l (tcp_recv_loop n rsfd)))) (\<lambda>_ out. out \<noteq> Undefined) tr"
    if "fits (Recvfrom rsfd 1024) r" for r tr
  proof -
    have r: "length (data r) \<le> 1024" "res r \<le> 1024" using that by (auto simp: fits_def)
    then obtain buff where b: "poke 0 (data r) (replicate 1024 0) = Some buff" "length buff = 1024"
      by (simp add: poke_def length_wr)
    then obtain l where "print_TCP_header buff (res r) = Some l" using print_TCP_header_defined r(2) by blast
    with b(1) show ?thesis by (simp add: wp_say_log [OF Suc.IH])
  qed
  then show ?case by simp
qed simp

lemma main_TCPHeader_unfold: "main_TCPHeader n = Call (Socket AF_INET SOCK_RAW 6) (\<lambda>r. if res r = -1 then Exit 0
    else Call (Setsockopt (res r)) (\<lambda>r'. if res r' < 0 then Exit 0 else tcp_recv_loop n (res r)))"
  by (simp add: main_TCPHeader_def set_raw_socket_def fun_eq_iff)

lemma tcp_recv_loop_starts: "execs (tcp_recv_loop 1 rsfd) tr out \<Longrightarrow> \<exists>r tr'. tr = (Recvfrom rsfd 1024, r) # tr'"
  by (simp only: One_nat_def tcp_recv_loop.simps execs_Call) blast

section \<open>Properties\<close>

text \<open>
  C37. Every datagram that IPHeader.c or rawsender.c ever sends starts with a header whose
  checksum verifies at the receiver, although the first program sums the whole announced length
  before the message is in place.
\<close>

theorem raw_senders_verify:
  assumes "performs (main_IPHeader n port) tr \<or> performs (main_rawsender n) tr" and "(Sendto fd d a, r) \<in> set tr"
  shows "20 \<le> length d \<and> inet_checksum (take 20 d) = 0"
  using assms only_performs [OF _ only_main_IPHeader] only_performs [OF _ only_main_rawsender]
  by (fastforce simp: verified_def)

text \<open>
  C38. The receiver of TCPHeader.c reads only inside its buffer whatever it receives: the header
  lengths of the packet, the payload loop and the row that may read one byte behind a payload
  never lead out of the 1024 bytes, also when \<open>recvfrom\<close> fails.
\<close>

theorem tcp_receiver_in_bounds:
  assumes "execs (main_TCPHeader n) tr out" "\<forall>(c, r) \<in> set tr. fits c r"
  shows "out \<noteq> Undefined"
proof -
  have "wp fits (main_TCPHeader n) (\<lambda>_ out. out \<noteq> Undefined) []"
    by (simp add: main_TCPHeader_def set_raw_socket_def tcp_recv_loop_defined)
  from wp_execsI [OF this assms] show ?thesis .
qed

section \<open>Witnesses\<close>

theorem raw_senders_verify_witness:
  "\<exists>tr d. performs (main_rawsender 1) tr \<and> (Sendto 3 d (AddrIn (htons 9013) localhost), answered) \<in> set tr \<and>
    inet_checksum (take 20 d) = 0"
proof -
  obtain h where h: "raw_datagram = Some (h @ replicate 4076 0)" "length h = 20" using raw_datagram_ok by blast
  let ?s = "answered\<lparr>res := 3\<rparr>"
  let ?tr = "[(Socket AF_INET SOCK_RAW 17, ?s), (Setsockopt 3, answered), (Sendto 3 h (AddrIn (htons 9013) localhost), answered)]"
  have "peek 0 20 (h @ replicate 4076 0) = Some h" using h(2) by (simp add: peek_def)
  then have p: "performs (main_rawsender 1) ?tr"
    by (simp add: main_rawsender_def h(1) performs_Call answered_def performs.start)
  then have "inet_checksum (take 20 h) = 0"
    using raw_senders_verify [of 1 0 ?tr 3 h "AddrIn (htons 9013) localhost" answered] by simp
  with p show ?thesis by (intro exI [of _ ?tr] exI [of _ h]) simp
qed

theorem tcp_receiver_in_bounds_witness:
  "\<exists>tr out. execs (main_TCPHeader 1) tr out \<and> (Recvfrom 0 1024, answered) \<in> set tr \<and> out \<noteq> Undefined"
proof -
  obtain tr out where t: "execs (main_TCPHeader 1) tr out" "\<forall>(c, r) \<in> set tr. r = answered" using execs_total [of "main_TCPHeader 1" "\<lambda>_. answered"] by blast
  have "fits c answered" for c by (simp add: fits_def answered_def)
  with t(2) have "\<forall>(c, r) \<in> set tr. fits c r" by (simp add: case_prod_beta)
  from tcp_receiver_in_bounds [OF t(1) this] have o: "out \<noteq> Undefined" .
  obtain r1 k1 where 1: "tr = (Socket AF_INET SOCK_RAW 6, r1) # k1"
      "execs (if res r1 = -1 then Exit 0 else Call (Setsockopt (res r1)) (\<lambda>r. if res r < 0 then Exit 0 else tcp_recv_loop 1 (res r1))) k1 out"
    using t(1) unfolding main_TCPHeader_unfold execs_Call by blast
  with t(2) have r1: "r1 = answered" by simp
  with 1(2) have "execs (Call (Setsockopt 0) (\<lambda>r. if res r < 0 then Exit 0 else tcp_recv_loop 1 0)) k1 out"
    by (simp only: answered_def resp.simps) simp
  then obtain r2 k2 where 2: "k1 = (Setsockopt 0, r2) # k2" "execs (if res r2 < 0 then Exit 0 else tcp_recv_loop 1 0) k2 out"
    by (simp only: execs_Call) blast
  with t(2) 1 have "res r2 = 0" by (simp add: answered_def)
  with 2(2) obtain r3 k3 where 3: "k2 = (Recvfrom 0 1024, r3) # k3" using tcp_recv_loop_starts by fastforce
  with t(2) 1 2 have "(Recvfrom 0 1024, answered) \<in> set tr" by simp
  with t(1) o show ?thesis by blast
qed

end
