(* ===== verification/Spec2Isabelle.thy ===== *)
theory Spec2Isabelle
  imports Prelude Checksum CText Interaction Unix ArpFrame RpcWire RpcSystem RpcCorrect RpcStart ArpResolver ArpSpoofer Sniffer SocketHelpers Ess TollGate Drivers Cricket Services Aio Hamming Interleaving Semaphores Turns RawHeaders
begin

text \<open>
  Verification library of a collection of network programs in C.

  The repository holds the programs of a networks laboratory: many small systems of two to six
  processes that talk through sockets, signals, message queues, shared memory, raw packets and
  device files, and a few programs that stand alone.  The development models the systems with
  logic of their own, each in a theory that follows its source files function by function, and
  proves what makes it correct, or exactly when it is not.

  \<^bold>\<open>How a C program is read.\<close>  A function without calls to the system is a HOL function over
  words and byte lists (Prelude: integers of 8 to 64 bits, little-endian memory, byte buffers whose
  every access is bounds-checked, C strings; CText: \<open>sprintf\<close> and \<open>atoi\<close>).  A function that calls
  the system is a \<open>prog\<close> (Interaction): the tree of its calls and what it does after each
  response.  Unix lists the calls.  \<open>Ub\<close>, or \<^term>\<open>None\<close> for a pure function, is undefined
  behaviour: an access out of bounds, an unterminated string, a missing value.  Every early
  return, \<open>exit\<close> and unchecked error of the source is a branch.  A theorem about all executions
  (\<open>execs\<close>, \<open>performs\<close>, \<open>wp\<close>, \<open>always\<close>) holds for every answer of the kernel and of the other
  processes, unless it names an assumption.

  \<^bold>\<open>Loops and fuel.\<close>  A loop over data is recursion on the data.  A loop that serves for ever,
  \<open>while (1)\<close>, takes the number \<open>n\<close> of rounds that are followed as an argument and returns
  \<^term>\<open>None\<close> when they are used up, the program still running; theorems quantify over \<open>n\<close>, and
  where a program is to end they say which \<open>n\<close> is enough (four rounds in Semaphores, five in
  Turns) or bound the steps of a run (RpcCorrect, Semaphores, Turns).

  \<^bold>\<open>The parts.\<close>

  \<^item> Checksum: the four checksum routines (endlab/rpc.h, 15-3-22_RAW/ip_spoofing/s.c,
    ARP/spoofing/spoofer.c, raw_sockets/rawsender.c) against one specification, RFC 1071, and the
    locale \<open>checksum\<close> with what senders and receivers rely on.
  \<^item> RpcWire, RpcStart, RpcSystem, RpcCorrect: the remote procedure calls of endlab (client.c,
    client_stub.c, server_stub.c, server.c): the frames, the start of each process, the four processes over two message
    queues and the loopback capture, and the composed system: what the client has printed is a
    prefix of the right answers; when every frame arrives before the read timeout there is no
    deadlock, runs are bounded and what is under way is well-typed, so that no string or buffer
    operation leaves its object; with the timeouts of the code a reply can be lost for good.  The
    queue calls and \<open>pcap_inject\<close> of the composed system succeed and what is typed are numbers; the
    eight bytes behind a message that \<open>sizeof(msg)\<close> makes the queue calls of the server's side touch
    show in the length of the message only.
  \<^item> ArpFrame, ArpResolver, ArpSpoofer: the ARP programs (ARP/request_reply, ARP/spoofing/
    spoofer.c) over a common reading of frames: which descriptors are closed on which path, also
    the wrong ones; frames understood by their receivers, buffer bounds, the HTTP rewriting and
    that a TCP receiver accepts its checksum.
  \<^item> Sniffer: the two packet sniffers (packet_sniffing): counters of 32 bits, hex dump, exact bounds.
  \<^item> RawHeaders: the programs that build and print IP and TCP headers (Functions/IPHeader.c,
    Functions/TCPHeader.c, raw_sockets/rawsender.c): what is sent verifies, what is read lies in
    the buffer.
  \<^item> SocketHelpers: the helpers most programs carry a copy of, with the contracts \<open>opener\<close>
    (one descriptor out, nothing leaked) and \<open>fd_passing\<close>.
  \<^item> Ess, TollGate, Cricket, Services, Aio: multi-process servers (22-3-22_RAW/ESS,
    midlab/toll_gate, 15-3-22_RAW/cricket, 10-2-22/inet_d and 27-1-22/multisfd_poll,
    minor1/Q3-AIO): who holds a connection and when, what is told to whom, the scoreboard,
    routing to services, first come first served.
  \<^item> Drivers: character device drivers (practice/device_driver, 21-1-22/my/ticktock.c) with their
    heap blocks, and the program on top of the temperature converter.
  \<^item> Hamming: the programs that compute and check Hamming codes (12-2-22/HammingCode and the one of
    the RPC practice): every single error is corrected, the two encoders agree.
  \<^item> Interleaving, Semaphores, Turns: two processes side by side under every schedule; the programs
    of 12-1-22/q4 that take turns with two POSIX semaphores, and those of
    practice/semaphore_sharedmem that do with a set of System V semaphores: bounded runs, no
    deadlock once both have initialised, the results that the races leave possible, and the
    deadlock of every run in which one initialises after the other waits.

  \<^bold>\<open>What the lemmas show.\<close>  Invariants and state machines are proved by rule induction over steps
  (RpcCorrect, Ess, Semaphores, Turns) or by a monitor over the calls of one program (\<open>always\<close>; Aio, TollGate,
  Cricket); resource lemmas by the weakest precondition \<open>fdwp\<close> over descriptors (Unix); bounds
  as equivalences that say exactly when a routine is defined; codecs by round trips.  Interfaces are
  locales (\<open>checksum\<close>, \<open>text_codec\<close>, \<open>opener\<close>, \<open>temporary\<close>, \<open>uds_path\<close>, \<open>fd_passing\<close>, \<open>char_map\<close>, \<open>fifo\<close>,
  \<open>ranked\<close> and its extension \<open>pointed\<close>) interpreted on the definitions of the code.

  \<^bold>\<open>Not modelled.\<close>  What \<open>perror\<close> and debugging prints write; timing (\<open>sleep\<close> is a call without
  effect); compiler and memory-model effects on data that threads share; a signal that arrives
  between two statements, except where a component says so.  Left out altogether: vendored and
  generated code (ARP/spoofing/s1.c is net-tools, the rpcgen output under RPC), programs that
  only exercise one library call or print their input (most of practice, 7-1-22, 8-1-22,
  1, the rest of Functions), earlier states of modelled programs (11-2-22/ESS, minor1/Q2-ESS,
  ARP/spoofing/spoof, midlab/toll_gate/tmp.c), the programs over libnet (ARP/spoofing/spoofer2.c), notes
  (library_calls_till_TCPUDP.c) and the documents.  The manifest lists them one by one.
\<close>

end
